(* ===== verification/Prelude.thy ===== *)
theory Prelude
  imports Main "HOL-Library.Word" "HOL-Library.Multiset"
begin

text \<open>
  Shared vocabulary of the development: thread identifiers and addresses, the exception
  monad on sums, decimal text, counting over vectors of program counters, reachable states of a
  step relation, and the contract of an inductive invariant.
\<close>

named_theorems counting \<open>arithmetic of counters over updated vectors\<close>
named_theorems frame \<open>what an operation leaves alone\<close>

subsection \<open>Types\<close>

type_synonym tid = nat
type_synonym addr = nat
type_synonym u32 = "32 word"
type_synonym u64 = "64 word"
type_synonym i64 = "64 word"

text \<open>A C++ pointer: \<open>None\<close> is \<open>nullptr\<close>.\<close>

type_synonym 'p ptr = "'p option"

subsection \<open>Exceptions as sums\<close>

definition try_bind :: "'e + 'a \<Rightarrow> ('a \<Rightarrow> 'e + 'b) \<Rightarrow> 'e + 'b" where
  "try_bind m f = (case m of Inl e \<Rightarrow> Inl e | Inr x \<Rightarrow> f x)"

definition ok :: "'e + 'a \<Rightarrow> bool" where
  "ok m = (case m of Inl _ \<Rightarrow> False | Inr _ \<Rightarrow> True)"

subsection \<open>Counting\<close>

definition cnt :: "('a \<Rightarrow> bool) \<Rightarrow> 'a list \<Rightarrow> nat" where
  "cnt P xs = length (filter P xs)"

subsection \<open>Decimal text\<close>

text \<open>\<open>std::to_string\<close> on a non-negative number.\<close>

fun to_string :: "nat \<Rightarrow> string" where
  "to_string n = (if n < 10 then [char_of (48 + n)] else to_string (n div 10) @ [char_of (48 + n mod 10)])"

declare to_string.simps [simp del]

subsection \<open>Reachable states\<close>

inductive reach :: "('s \<Rightarrow> bool) \<Rightarrow> ('s \<Rightarrow> 's \<Rightarrow> bool) \<Rightarrow> 's \<Rightarrow> bool"
  for init :: "'s \<Rightarrow> bool" and step :: "'s \<Rightarrow> 's \<Rightarrow> bool" where
  reach_init: "init s \<Longrightarrow> reach init step s"
| reach_step: "reach init step s \<Longrightarrow> step s t \<Longrightarrow> reach init step t"

subsection \<open>Facts\<close>

lemma try_bind_simps [simp]:
  "try_bind (Inl e) f = Inl e"
  "try_bind (Inr x) f = f x"
  by (simp_all add: try_bind_def)

lemma try_bind_Inr_iff:
  "try_bind m f = Inr y \<longleftrightarrow> (\<exists>x. m = Inr x \<and> f x = Inr y)"
  by (cases m) simp_all

lemma ok_simps [simp]: "\<not> ok (Inl e)" "ok (Inr x)"
  by (simp_all add: ok_def)

lemma cnt_Nil [simp]: "cnt P [] = 0"
  by (simp add: cnt_def)

lemma cnt_Cons [simp]: "cnt P (x # xs) = (if P x then 1 else 0) + cnt P xs"
  by (simp add: cnt_def)

lemma cnt_append [simp]: "cnt P (xs @ ys) = cnt P xs + cnt P ys"
  by (simp add: cnt_def)

lemma cnt_replicate [simp]: "cnt P (replicate n x) = (if P x then n else 0)"
  by (induction n) simp_all

lemma cnt_le_length: "cnt P xs \<le> length xs"
  by (simp add: cnt_def)

text \<open>
  Moving one thread from one program point to another changes a counter by at most one,
  and by how much is decided by the two program points alone.
\<close>

lemma cnt_update [counting]:
  "i < length xs \<Longrightarrow>
   cnt P (xs[i := y]) + (if P (xs ! i) then 1 else 0) = cnt P xs + (if P y then 1 else 0)"
proof (induction xs arbitrary: i)
  case Nil
  then show ?case by simp
next
  case (Cons x xs)
  show ?case
  proof (cases i)
    case 0
    then show ?thesis by simp
  next
    case (Suc j)
    with Cons.prems have "j < length xs" by simp
    from Cons.IH [OF this] Suc show ?thesis by simp
  qed
qed

lemma of_nat_cnt_update [counting]:
  assumes "i < length xs"
  shows "(of_nat (cnt P (xs[i := y])) :: 'a::ring_1) =
    of_nat (cnt P xs) + of_bool (P y) - of_bool (P (xs ! i))"
proof -
  from cnt_update [OF assms, of P y]
  have "of_nat (cnt P (xs[i := y]) + (if P (xs ! i) then 1 else 0)) =
      (of_nat (cnt P xs + (if P y then 1 else 0)) :: 'a)" by simp
  then show ?thesis by (auto simp: eq_diff_eq algebra_simps split: if_splits)
qed

lemma cnt_pos: "i < length xs \<Longrightarrow> P (xs ! i) \<Longrightarrow> 0 < cnt P xs"
  by (metis cnt_def filter_empty_conv length_greater_0_conv nth_mem)

lemma cnt_zero_iff: "cnt P xs = 0 \<longleftrightarrow> (\<forall>x \<in> set xs. \<not> P x)"
  by (auto simp: cnt_def filter_empty_conv)

subsection \<open>Inductive invariants\<close>

text \<open>
  The contract every state machine of the development discharges: the initial states
  satisfy the invariant and every step keeps it. The client lemma is proved once here.
\<close>

locale invariant_system =
  fixes init :: "'s \<Rightarrow> bool"
    and step :: "'s \<Rightarrow> 's \<Rightarrow> bool"
    and inv :: "'s \<Rightarrow> bool"
  assumes inv_init: "init s \<Longrightarrow> inv s"
    and inv_step: "step s t \<Longrightarrow> inv s \<Longrightarrow> inv t"
begin

lemma reach_inv: "reach init step s \<Longrightarrow> inv s"
  by (induction rule: reach.induct) (auto intro: inv_init inv_step)

lemma steps_inv: "step\<^sup>*\<^sup>* s t \<Longrightarrow> inv s \<Longrightarrow> inv t"
  by (induction rule: rtranclp_induct) (auto intro: inv_step)

end

lemma reach_steps: "step\<^sup>*\<^sup>* s t \<Longrightarrow> reach init step s \<Longrightarrow> reach init step t"
  by (induction rule: rtranclp_induct) (auto intro: reach.reach_step)

text \<open>
  Moving one entry of a vector changes the multiset of what the entries carry by what the old
  and the new entry carry.
\<close>

lemma mset_concat_update [counting]:
  "i < length xs \<Longrightarrow>
   mset (concat (map f (xs[i := y]))) + mset (f (xs ! i)) = mset (concat (map f xs)) + mset (f y)"
proof (induction xs arbitrary: i)
  case (Cons x xs)
  then show ?case by (cases i) (simp_all add: add.assoc add.commute [of "mset (f x)"])
qed simp

subsection \<open>Simulation\<close>

text \<open>
  A forward simulation between two machines: each step of the first is a step of the second or
  leaves it where it is. Reachable states of the first are related to reachable ones of the
  second.
\<close>

locale simulation =
  fixes cinit :: "'c \<Rightarrow> bool" and cstep :: "'c \<Rightarrow> 'c \<Rightarrow> bool"
    and ainit :: "'a \<Rightarrow> bool" and astep :: "'a \<Rightarrow> 'a \<Rightarrow> bool"
    and rel :: "'c \<Rightarrow> 'a \<Rightarrow> bool"
  assumes sim_init: "cinit c \<Longrightarrow> \<exists>a. ainit a \<and> rel c a"
    and sim_step: "cstep c c' \<Longrightarrow> rel c a \<Longrightarrow> \<exists>a'. (a' = a \<or> astep a a') \<and> rel c' a'"
begin

lemma sim_reach: "reach cinit cstep c \<Longrightarrow> \<exists>a. reach ainit astep a \<and> rel c a"
proof (induction rule: reach.induct)
  case (reach_init c)
  with sim_init show ?case by (blast intro: reach.reach_init)
next
  case (reach_step c c')
  with sim_step show ?case by (blast intro: reach.reach_step)
qed

end

end
