(* ===== verification/Hazard_Pointer.thy ===== *)
theory Hazard_Pointer
  imports Prelude
begin

text \<open>
  Model of \<open>src/common/include/hazard_pointer.hpp\<close>: the list of hazard slots, slot
  acquisition and release, retirement of pointers through the thread-local and the global
  list, scanning and reclamation, the RAII holder, and the domain's destructor.

  Every field of the classes is a field of a record. Slots live in a store indexed by
  address and are linked by \<open>next_slot\<close>, as in the code, so the walks over the list are
  loops over pointers; they are \<open>partial_function (option)\<close>, where \<open>None\<close> is a walk
  that never returns. A mutex is the thread that holds it, and locking a mutex one already
  holds is the error \<open>SelfDeadlock\<close>. The storage that \<open>new\<close> returns is an argument.
  \<open>std::function\<close> deleters are uninterpreted values of type \<open>'d\<close>; calling one is an
  entry of the log \<open>deleter_calls\<close>.
\<close>

subsection \<open>State\<close>

record 'p HazardPointer =
  hazard_ptr :: "'p ptr"
  owner :: "tid option"
  next_slot :: "addr ptr"

record ('p, 'd) RetiredPtr =
  ptr :: "'p ptr"
  deleter :: 'd

record ('p, 'd) ThreadData =
  retired_list :: "('p, 'd) RetiredPtr list"
  scan_threshold :: nat
  thread_id :: "tid option"

record ('p, 'd) HazPtrDomain =
  slots :: "addr \<rightharpoonup> 'p HazardPointer"
  head :: "addr ptr"
  list_mutex :: "tid option"
  global_retired :: "('p, 'd) RetiredPtr list"
  kGlobalThreshold :: int
  global_retired_mutex :: "tid option"
  all_thread_data :: "tid list"
  thread_data_mutex :: "tid option"
  tl_thread_data :: "tid \<Rightarrow> ('p, 'd) ThreadData"
  deleter_calls :: "('d \<times> 'p ptr) list"

record HazPtrHolder =
  hazard_ptr_slot :: "addr ptr"

datatype hp_error = SelfDeadlock | Blocked | DanglingSlot | OwnerAssert

definition ThreadData_init :: "('p, 'd) ThreadData" where
  "ThreadData_init = \<lparr>retired_list = [], scan_threshold = 100, thread_id = None\<rparr>"

definition HazPtrDomain_init :: "('p, 'd) HazPtrDomain" where
  "HazPtrDomain_init =
     \<lparr>slots = Map.empty, head = None, list_mutex = None, global_retired = [],
      kGlobalThreshold = 5000, global_retired_mutex = None, all_thread_data = [],
      thread_data_mutex = None, tl_thread_data = (\<lambda>_. ThreadData_init),
      deleter_calls = []\<rparr>"

subsection \<open>Locks and slot updates\<close>

definition lock :: "tid option \<Rightarrow> tid \<Rightarrow> hp_error + tid option" where
  "lock m me =
     (case m of None \<Rightarrow> Inr (Some me)
      | Some t \<Rightarrow> if t = me then Inl SelfDeadlock else Inl Blocked)"

definition upd_slot ::
  "addr \<Rightarrow> ('p HazardPointer \<Rightarrow> 'p HazardPointer) \<Rightarrow> ('p, 'd) HazPtrDomain \<Rightarrow> ('p, 'd) HazPtrDomain"
where
  "upd_slot a f s = s\<lparr>slots := (slots s)(a := map_option f (slots s a))\<rparr>"

definition upd_tl ::
  "tid \<Rightarrow> (('p, 'd) ThreadData \<Rightarrow> ('p, 'd) ThreadData) \<Rightarrow> ('p, 'd) HazPtrDomain \<Rightarrow> ('p, 'd) HazPtrDomain"
where
  "upd_tl t f s = s\<lparr>tl_thread_data := (tl_thread_data s)(t := f (tl_thread_data s t))\<rparr>"

subsection \<open>Thread registration\<close>

definition RegisterThread ::
  "tid \<Rightarrow> ('p, 'd) HazPtrDomain \<Rightarrow> hp_error + ('p, 'd) HazPtrDomain" where
  "RegisterThread me s =
     (let s1 = upd_tl me (\<lambda>d. d\<lparr>thread_id := Some me\<rparr>) s
      in try_bind (lock (thread_data_mutex s1) me) (\<lambda>m.
           Inr (s1\<lparr>all_thread_data := all_thread_data s1 @ [me]\<rparr>)))"

definition UnregisterThread ::
  "tid \<Rightarrow> ('p, 'd) HazPtrDomain \<Rightarrow> hp_error + ('p, 'd) HazPtrDomain" where
  "UnregisterThread me s =
     try_bind (lock (thread_data_mutex s) me) (\<lambda>m.
       Inr (s\<lparr>all_thread_data :=
         filter (\<lambda>t. thread_id (tl_thread_data s t) \<noteq> Some me) (all_thread_data s)\<rparr>))"

subsection \<open>Slot acquisition and release\<close>

text \<open>The walk of \<open>acquire\<close>: the first slot without an owner, or the end of the list.\<close>

partial_function (option) acquire_loop ::
  "(addr \<rightharpoonup> 'p HazardPointer) \<Rightarrow> addr ptr \<Rightarrow> (hp_error + addr ptr) option" where
  "acquire_loop h current =
     (case current of
        None \<Rightarrow> Some (Inr None)
      | Some a \<Rightarrow>
          (case h a of
             None \<Rightarrow> Some (Inl DanglingSlot)
           | Some hp \<Rightarrow>
               if owner hp = None then Some (Inr (Some a))
               else acquire_loop h (next_slot hp)))"

definition acquire ::
  "tid \<Rightarrow> addr \<Rightarrow> ('p, 'd) HazPtrDomain \<Rightarrow> (hp_error + addr \<times> ('p, 'd) HazPtrDomain) option"
where
  "acquire me new_hp s =
     (case lock (list_mutex s) me of
        Inl e \<Rightarrow> Some (Inl e)
      | Inr m \<Rightarrow>
          (case acquire_loop (slots s) (head s) of
             None \<Rightarrow> None
           | Some (Inl e) \<Rightarrow> Some (Inl e)
           | Some (Inr (Some current)) \<Rightarrow>
               Some (Inr (current, upd_slot current (\<lambda>h. h\<lparr>owner := Some me\<rparr>) s))
           | Some (Inr None) \<Rightarrow>
               Some (Inr (new_hp,
                 s\<lparr>slots := (slots s)(new_hp \<mapsto>
                     \<lparr>hazard_ptr = None, owner = Some me, next_slot = head s\<rparr>),
                   head := Some new_hp\<rparr>))))"

definition release ::
  "tid \<Rightarrow> addr ptr \<Rightarrow> ('p, 'd) HazPtrDomain \<Rightarrow> hp_error + ('p, 'd) HazPtrDomain" where
  "release me hp s =
     (case hp of
        None \<Rightarrow> Inr s
      | Some a \<Rightarrow>
          (case slots s a of
             None \<Rightarrow> Inl DanglingSlot
           | Some h \<Rightarrow>
               let s1 = upd_slot a (\<lambda>h. h\<lparr>hazard_ptr := None\<rparr>) s
               in if owner h = Some me
                  then Inr (upd_slot a (\<lambda>h. h\<lparr>owner := None\<rparr>) s1)
                  else Inl OwnerAssert))"

subsection \<open>Scanning and reclamation\<close>

partial_function (option) isProtected_loop ::
  "(addr \<rightharpoonup> 'p HazardPointer) \<Rightarrow> addr ptr \<Rightarrow> 'p ptr \<Rightarrow> (hp_error + bool) option" where
  "isProtected_loop h current p =
     (case current of
        None \<Rightarrow> Some (Inr False)
      | Some a \<Rightarrow>
          (case h a of
             None \<Rightarrow> Some (Inl DanglingSlot)
           | Some hp \<Rightarrow>
               if hazard_ptr hp = p then Some (Inr True)
               else isProtected_loop h (next_slot hp) p))"

definition isProtected :: "('p, 'd) HazPtrDomain \<Rightarrow> 'p ptr \<Rightarrow> (hp_error + bool) option" where
  "isProtected s p = isProtected_loop (slots s) (head s) p"

text \<open>The loop of \<open>reclaim_all\<close>: the kept entries stay in the list, the others move.\<close>

fun reclaim_loop ::
  "('p, 'd) HazPtrDomain \<Rightarrow> ('p, 'd) RetiredPtr list \<Rightarrow> ('p, 'd) RetiredPtr list \<Rightarrow>
   ('p, 'd) RetiredPtr list \<Rightarrow>
   (hp_error + ('p, 'd) RetiredPtr list \<times> ('p, 'd) RetiredPtr list) option" where
  "reclaim_loop s [] kept to_reclaim = Some (Inr (kept, to_reclaim))"
| "reclaim_loop s (r # rs) kept to_reclaim =
     (case isProtected s (ptr r) of
        None \<Rightarrow> None
      | Some (Inl e) \<Rightarrow> Some (Inl e)
      | Some (Inr protected) \<Rightarrow>
          if \<not> protected then reclaim_loop s rs kept (to_reclaim @ [r])
          else reclaim_loop s rs (kept @ [r]) to_reclaim)"

definition reclaim_all ::
  "tid \<Rightarrow> ('p, 'd) HazPtrDomain \<Rightarrow> (hp_error + ('p, 'd) HazPtrDomain) option" where
  "reclaim_all me s =
     (case lock (global_retired_mutex s) me of
        Inl e \<Rightarrow> Some (Inl e)
      | Inr m \<Rightarrow>
          (case reclaim_loop s (global_retired s) [] [] of
             None \<Rightarrow> None
           | Some (Inl e) \<Rightarrow> Some (Inl e)
           | Some (Inr (kept, to_reclaim)) \<Rightarrow>
               Some (Inr (s\<lparr>global_retired := kept,
                 deleter_calls := deleter_calls s
                   @ map (\<lambda>rec. (deleter rec, ptr rec)) to_reclaim\<rparr>))))"

definition splice_local :: "tid \<Rightarrow> ('p, 'd) HazPtrDomain \<Rightarrow> ('p, 'd) HazPtrDomain" where
  "splice_local t s =
     upd_tl t (\<lambda>d. d\<lparr>retired_list := []\<rparr>)
       (s\<lparr>global_retired := global_retired s @ retired_list (tl_thread_data s t)\<rparr>)"

fun splice_all :: "tid list \<Rightarrow> ('p, 'd) HazPtrDomain \<Rightarrow> ('p, 'd) HazPtrDomain" where
  "splice_all [] s = s"
| "splice_all (t # ts) s =
     splice_all ts (if retired_list (tl_thread_data s t) \<noteq> [] then splice_local t s else s)"

definition Scan :: "tid \<Rightarrow> ('p, 'd) HazPtrDomain \<Rightarrow> (hp_error + ('p, 'd) HazPtrDomain) option" where
  "Scan me s =
     (case lock (global_retired_mutex s) me of
        Inl e \<Rightarrow> Some (Inl e)
      | Inr m \<Rightarrow> reclaim_all me (splice_all (all_thread_data s) s))"

text \<open>
  \<open>RetirePointer\<close>: the pointer joins the thread's own list; a list that reached its threshold is
  committed to the global one under the mutex, and a global list past its threshold is scanned.
  The comparison of its size with the \<open>int\<close> threshold is one of \<open>size_t\<close>.
\<close>

definition push_retired ::
  "tid \<Rightarrow> 'p ptr \<Rightarrow> 'd \<Rightarrow> ('p, 'd) HazPtrDomain \<Rightarrow> ('p, 'd) HazPtrDomain" where
  "push_retired me p d s =
     upd_tl me (\<lambda>t. t\<lparr>retired_list := retired_list t @ [\<lparr>ptr = p, deleter = d\<rparr>]\<rparr>) s"

definition list_full :: "tid \<Rightarrow> ('p, 'd) HazPtrDomain \<Rightarrow> bool" where
  "list_full me s \<longleftrightarrow>
     length (retired_list (tl_thread_data s me)) \<ge> scan_threshold (tl_thread_data s me)"

definition commit_retired ::
  "tid \<Rightarrow> ('p, 'd) HazPtrDomain \<Rightarrow> (hp_error + ('p, 'd) HazPtrDomain) option" where
  "commit_retired me s1 =
     (case lock (global_retired_mutex s1) me of
        Inl e \<Rightarrow> Some (Inl e)
      | Inr m \<Rightarrow>
          let s2 = splice_local me (s1\<lparr>global_retired_mutex := m\<rparr>)
          in if int (length (global_retired s2)) > kGlobalThreshold s2 mod 2 ^ 64 then
               (case Scan me s2 of
                  None \<Rightarrow> None
                | Some (Inl e) \<Rightarrow> Some (Inl e)
                | Some (Inr s3) \<Rightarrow> Some (Inr (s3\<lparr>global_retired_mutex := None\<rparr>)))
             else Some (Inr (s2\<lparr>global_retired_mutex := None\<rparr>)))"

definition RetirePointer ::
  "tid \<Rightarrow> 'p ptr \<Rightarrow> 'd \<Rightarrow> ('p, 'd) HazPtrDomain \<Rightarrow> (hp_error + ('p, 'd) HazPtrDomain) option"
where
  "RetirePointer me p d s =
     (let s1 = push_retired me p d s
      in if list_full me s1 then commit_retired me s1 else Some (Inr s1))"

subsection \<open>Destruction of the domain\<close>

partial_function (option) destroy_loop ::
  "(addr \<rightharpoonup> 'p HazardPointer) \<Rightarrow> addr ptr \<Rightarrow> (hp_error + (addr \<rightharpoonup> 'p HazardPointer)) option"
where
  "destroy_loop h current =
     (case current of
        None \<Rightarrow> Some (Inr h)
      | Some a \<Rightarrow>
          (case h a of
             None \<Rightarrow> Some (Inl DanglingSlot)
           | Some hp \<Rightarrow> destroy_loop (h(a := None)) (next_slot hp)))"

definition HazPtrDomain_destroy ::
  "tid \<Rightarrow> ('p, 'd) HazPtrDomain \<Rightarrow> (hp_error + (addr \<rightharpoonup> 'p HazardPointer)) option" where
  "HazPtrDomain_destroy me s =
     (case lock (list_mutex s) me of
        Inl e \<Rightarrow> Some (Inl e)
      | Inr m \<Rightarrow> destroy_loop (slots s) (head s))"

subsection \<open>The holder\<close>

definition HazPtrHolder_new ::
  "tid \<Rightarrow> addr \<Rightarrow> ('p, 'd) HazPtrDomain \<Rightarrow>
   (hp_error + HazPtrHolder \<times> ('p, 'd) HazPtrDomain) option" where
  "HazPtrHolder_new me new_hp s =
     (case acquire me new_hp s of
        None \<Rightarrow> None
      | Some (Inl e) \<Rightarrow> Some (Inl e)
      | Some (Inr (a, s')) \<Rightarrow> Some (Inr (\<lparr>hazard_ptr_slot = Some a\<rparr>, s')))"

definition protect ::
  "HazPtrHolder \<Rightarrow> 'p ptr \<Rightarrow> ('p, 'd) HazPtrDomain \<Rightarrow> hp_error + ('p, 'd) HazPtrDomain" where
  "protect h p s =
     (case hazard_ptr_slot h of
        None \<Rightarrow> Inr s
      | Some a \<Rightarrow>
          (case slots s a of
             None \<Rightarrow> Inl DanglingSlot
           | Some _ \<Rightarrow> Inr (upd_slot a (\<lambda>hp. hp\<lparr>hazard_ptr := p\<rparr>) s)))"

definition get :: "HazPtrHolder \<Rightarrow> ('p, 'd) HazPtrDomain \<Rightarrow> hp_error + 'p ptr" where
  "get h s =
     (case hazard_ptr_slot h of
        None \<Rightarrow> Inr None
      | Some a \<Rightarrow>
          (case slots s a of None \<Rightarrow> Inl DanglingSlot | Some hp \<Rightarrow> Inr (hazard_ptr hp)))"

definition holder_release ::
  "tid \<Rightarrow> HazPtrHolder \<Rightarrow> ('p, 'd) HazPtrDomain \<Rightarrow>
   hp_error + HazPtrHolder \<times> ('p, 'd) HazPtrDomain" where
  "holder_release me h s =
     (case hazard_ptr_slot h of
        None \<Rightarrow> Inr (h, s)
      | Some a \<Rightarrow>
          try_bind (release me (Some a) s) (\<lambda>s'. Inr (h\<lparr>hazard_ptr_slot := None\<rparr>, s')))"

definition HazPtrHolder_destroy ::
  "tid \<Rightarrow> HazPtrHolder \<Rightarrow> ('p, 'd) HazPtrDomain \<Rightarrow> hp_error + ('p, 'd) HazPtrDomain" where
  "HazPtrHolder_destroy me h s = try_bind (holder_release me h s) (\<lambda>(h', s'). Inr s')"

text \<open>The move constructor returns the new holder and what is left of the source.\<close>

definition holder_move :: "HazPtrHolder \<Rightarrow> HazPtrHolder \<times> HazPtrHolder" where
  "holder_move other =
     (\<lparr>hazard_ptr_slot = hazard_ptr_slot other\<rparr>, other\<lparr>hazard_ptr_slot := None\<rparr>)"

text \<open>Move assignment; \<open>same\<close> says that the two operands are one object.\<close>

definition holder_move_assign ::
  "tid \<Rightarrow> bool \<Rightarrow> HazPtrHolder \<Rightarrow> HazPtrHolder \<Rightarrow> ('p, 'd) HazPtrDomain \<Rightarrow>
   hp_error + HazPtrHolder \<times> HazPtrHolder \<times> ('p, 'd) HazPtrDomain" where
  "holder_move_assign me same self other s =
     (if \<not> same then
        try_bind (holder_release me self s) (\<lambda>(self1, s1).
          Inr (self1\<lparr>hazard_ptr_slot := hazard_ptr_slot other\<rparr>,
               other\<lparr>hazard_ptr_slot := None\<rparr>, s1))
      else Inr (self, other, s))"

subsection \<open>Specification: the slot list, protection, the retirement ledger\<close>

fun slot_list :: "(addr \<rightharpoonup> 'p HazardPointer) \<Rightarrow> addr ptr \<Rightarrow> addr list \<Rightarrow> bool" where
  "slot_list h current [] = (current = None)"
| "slot_list h current (a # as) =
     (current = Some a \<and>
      (case h a of None \<Rightarrow> False | Some hp \<Rightarrow> slot_list h (next_slot hp) as))"

definition dom_wf :: "('p, 'd) HazPtrDomain \<Rightarrow> bool" where
  "dom_wf s \<longleftrightarrow>
     (\<exists>xs. slot_list (slots s) (head s) xs \<and> distinct xs \<and> dom (slots s) = set xs)"

definition unlocked :: "('p, 'd) HazPtrDomain \<Rightarrow> bool" where
  "unlocked s \<longleftrightarrow> list_mutex s = None \<and> global_retired_mutex s = None \<and> thread_data_mutex s = None"

definition protected_by :: "('p, 'd) HazPtrDomain \<Rightarrow> 'p ptr \<Rightarrow> bool" where
  "protected_by s p \<longleftrightarrow> (\<exists>hp \<in> ran (slots s). hazard_ptr hp = p)"

definition retired_key :: "('p, 'd) RetiredPtr \<Rightarrow> 'd \<times> 'p ptr" where
  "retired_key r = (deleter r, ptr r)"

text \<open>
  Everything ever retired by the threads of \<open>T\<close>, wherever it is now: in a thread's own
  list, in the global list, or handed to its deleter.
\<close>

definition ledger :: "tid set \<Rightarrow> ('p, 'd) HazPtrDomain \<Rightarrow> ('d \<times> 'p ptr) multiset" where
  "ledger T s =
     (\<Sum>t\<in>T. mset (map retired_key (retired_list (tl_thread_data s t))))
     + mset (map retired_key (global_retired s)) + mset (deleter_calls s)"

text \<open>
  When a call of \<open>RetirePointer\<close> by \<open>me\<close> finds both lists past their thresholds.
\<close>

definition retire_overflow :: "tid \<Rightarrow> ('p, 'd) HazPtrDomain \<Rightarrow> bool" where
  "retire_overflow me s \<longleftrightarrow>
     scan_threshold (tl_thread_data s me) \<le> Suc (length (retired_list (tl_thread_data s me))) \<and>
     kGlobalThreshold s mod 2 ^ 64 <
       int (length (global_retired s) + Suc (length (retired_list (tl_thread_data s me))))"

text \<open>
  The domain driven by threads of \<open>T\<close>, one call at a time; the second component is the
  history of \<open>RetirePointer\<close> calls. \<open>new\<close> returns storage that is not in use.
\<close>

inductive hp_step ::
  "tid set \<Rightarrow> ('p, 'd) HazPtrDomain \<times> ('d \<times> 'p ptr) list \<Rightarrow>
   ('p, 'd) HazPtrDomain \<times> ('d \<times> 'p ptr) list \<Rightarrow> bool"
  for T :: "tid set" where
  step_register: "me \<in> T \<Longrightarrow> RegisterThread me s = Inr s' \<Longrightarrow> hp_step T (s, l) (s', l)"
| step_unregister: "me \<in> T \<Longrightarrow> UnregisterThread me s = Inr s' \<Longrightarrow> hp_step T (s, l) (s', l)"
| step_acquire: "me \<in> T \<Longrightarrow> slots s a = None \<Longrightarrow> acquire me a s = Some (Inr (c, s')) \<Longrightarrow>
     hp_step T (s, l) (s', l)"
| step_release: "me \<in> T \<Longrightarrow> release me hp s = Inr s' \<Longrightarrow> hp_step T (s, l) (s', l)"
| step_protect: "me \<in> T \<Longrightarrow> protect h p s = Inr s' \<Longrightarrow> hp_step T (s, l) (s', l)"
| step_retire: "me \<in> T \<Longrightarrow> RetirePointer me p d s = Some (Inr s') \<Longrightarrow>
     hp_step T (s, l) (s', l @ [(d, p)])"
| step_scan: "me \<in> T \<Longrightarrow> Scan me s = Some (Inr s') \<Longrightarrow> hp_step T (s, l) (s', l)"
| step_reclaim: "me \<in> T \<Longrightarrow> reclaim_all me s = Some (Inr s') \<Longrightarrow> hp_step T (s, l) (s', l)"

definition hp_init :: "('p, 'd) HazPtrDomain \<times> ('d \<times> 'p ptr) list \<Rightarrow> bool" where
  "hp_init = (\<lambda>(s, l). s = HazPtrDomain_init \<and> l = [])"

definition hp_inv ::
  "tid set \<Rightarrow> ('p, 'd) HazPtrDomain \<times> ('d \<times> 'p ptr) list \<Rightarrow> bool" where
  "hp_inv T = (\<lambda>(s, l). dom_wf s \<and> unlocked s \<and> set (all_thread_data s) \<subseteq> T \<and> ledger T s = mset l)"

declare acquire_loop.simps [code] isProtected_loop.simps [code] destroy_loop.simps [code]

subsection \<open>Walks over the slot list\<close>

lemma lock_simps [simp]:
  "lock None me = Inr (Some me)"
  "lock (Some me) me = Inl SelfDeadlock"
  by (simp_all add: lock_def)

lemma upd_slot_sel [simp]:
  "slots (upd_slot a f s) = (slots s)(a := map_option f (slots s a))"
  "head (upd_slot a f s) = head s"
  "list_mutex (upd_slot a f s) = list_mutex s"
  "global_retired (upd_slot a f s) = global_retired s"
  "kGlobalThreshold (upd_slot a f s) = kGlobalThreshold s"
  "global_retired_mutex (upd_slot a f s) = global_retired_mutex s"
  "all_thread_data (upd_slot a f s) = all_thread_data s"
  "thread_data_mutex (upd_slot a f s) = thread_data_mutex s"
  "tl_thread_data (upd_slot a f s) = tl_thread_data s"
  "deleter_calls (upd_slot a f s) = deleter_calls s"
  by (simp_all add: upd_slot_def)

lemma upd_tl_sel [simp]:
  "slots (upd_tl t g s) = slots s"
  "head (upd_tl t g s) = head s"
  "list_mutex (upd_tl t g s) = list_mutex s"
  "global_retired (upd_tl t g s) = global_retired s"
  "kGlobalThreshold (upd_tl t g s) = kGlobalThreshold s"
  "global_retired_mutex (upd_tl t g s) = global_retired_mutex s"
  "all_thread_data (upd_tl t g s) = all_thread_data s"
  "thread_data_mutex (upd_tl t g s) = thread_data_mutex s"
  "tl_thread_data (upd_tl t g s) = (tl_thread_data s)(t := g (tl_thread_data s t))"
  "deleter_calls (upd_tl t g s) = deleter_calls s"
  by (simp_all add: upd_tl_def)

lemma splice_local_sel [simp]:
  "slots (splice_local t s) = slots s"
  "head (splice_local t s) = head s"
  "list_mutex (splice_local t s) = list_mutex s"
  "global_retired (splice_local t s) = global_retired s @ retired_list (tl_thread_data s t)"
  "kGlobalThreshold (splice_local t s) = kGlobalThreshold s"
  "global_retired_mutex (splice_local t s) = global_retired_mutex s"
  "all_thread_data (splice_local t s) = all_thread_data s"
  "thread_data_mutex (splice_local t s) = thread_data_mutex s"
  "tl_thread_data (splice_local t s) =
     (tl_thread_data s)(t := (tl_thread_data s t)\<lparr>retired_list := []\<rparr>)"
  "deleter_calls (splice_local t s) = deleter_calls s"
  by (simp_all add: splice_local_def)

lemma slot_list_unique:
  "slot_list h c xs \<Longrightarrow> slot_list h c ys \<Longrightarrow> xs = ys"
proof (induction xs arbitrary: c ys)
  case Nil
  then show ?case by (cases ys) auto
next
  case (Cons a as)
  then show ?case by (cases ys) (auto split: option.splits)
qed

text \<open>
  The list depends on the links of its own slots only: ownership and hazards are written
  without touching the shape that the walks rely on.
\<close>

lemma slot_list_cong:
  "(\<And>b. b \<in> set xs \<Longrightarrow> map_option next_slot (h' b) = map_option next_slot (h b)) \<Longrightarrow>
   slot_list h' c xs = slot_list h c xs"
proof (induction xs arbitrary: c)
  case Nil
  show ?case by simp
next
  case (Cons x xs)
  then have "map_option next_slot (h' x) = map_option next_slot (h x)" by simp
  with Cons show ?case by (cases "h x"; cases "h' x") simp_all
qed

lemma slot_list_upd:
  "(\<And>hp. next_slot (f hp) = next_slot hp) \<Longrightarrow>
   slot_list (h(a := map_option f (h a))) c xs = slot_list h c xs"
  by (rule slot_list_cong) (simp add: option.map_comp comp_def)

lemma slot_list_fresh:
  "a \<notin> set xs \<Longrightarrow> slot_list (h(a := v)) c xs = slot_list h c xs"
  by (rule slot_list_cong) auto

lemma slot_list_dom: "slot_list h c xs \<Longrightarrow> set xs \<subseteq> dom h"
  by (induction xs arbitrary: c) (auto split: option.splits)

lemma acquire_loop_list:
  "slot_list h c xs \<Longrightarrow>
   acquire_loop h c = Some (Inr (List.find (\<lambda>a. map_option owner (h a) = Some None) xs))"
proof (induction xs arbitrary: c)
  case Nil
  then show ?case by (simp add: acquire_loop.simps)
next
  case (Cons a as)
  then show ?case by (auto simp: acquire_loop.simps [of h "Some a"] split: option.splits)
qed

lemma isProtected_loop_list:
  "slot_list h c xs \<Longrightarrow>
   isProtected_loop h c p = Some (Inr (\<exists>a\<in>set xs. map_option hazard_ptr (h a) = Some p))"
proof (induction xs arbitrary: c)
  case Nil
  then show ?case by (simp add: isProtected_loop.simps)
next
  case (Cons a as)
  then show ?case by (auto simp: isProtected_loop.simps [of h "Some a"] split: option.splits)
qed

lemma destroy_loop_list:
  "slot_list h c xs \<Longrightarrow> distinct xs \<Longrightarrow>
   destroy_loop h c = Some (Inr (\<lambda>a. if a \<in> set xs then None else h a))"
proof (induction xs arbitrary: h c)
  case Nil
  then show ?case by (simp add: destroy_loop.simps)
next
  case (Cons a as)
  then obtain hp where h: "h a = Some hp" and l: "slot_list h (next_slot hp) as"
    and c: "c = Some a" by (auto split: option.splits)
  define h' where "h' = h(a := None)"
  from Cons.prems l have "slot_list h' (next_slot hp) as" and "distinct as"
    by (simp_all add: slot_list_fresh h'_def)
  then have "destroy_loop h' (next_slot hp) = Some (Inr (\<lambda>b. if b \<in> set as then None else h' b))"
    by (rule Cons.IH)
  moreover have "destroy_loop h c = destroy_loop h' (next_slot hp)"
    by (simp add: destroy_loop.simps [of h "Some a"] h c h'_def)
  ultimately show ?case by (auto simp: h'_def)
qed

lemma isProtected_iff:
  assumes "dom_wf s"
  shows "isProtected s p = Some (Inr (protected_by s p))"
proof -
  from assms obtain xs where "slot_list (slots s) (head s) xs" and d: "dom (slots s) = set xs"
    by (auto simp: dom_wf_def)
  then have "isProtected s p =
      Some (Inr (\<exists>a\<in>set xs. map_option hazard_ptr (slots s a) = Some p))"
    by (simp add: isProtected_def isProtected_loop_list)
  moreover have "(\<exists>a\<in>set xs. map_option hazard_ptr (slots s a) = Some p) = protected_by s p"
    using d by (fastforce simp: protected_by_def ran_def)
  ultimately show ?thesis by simp
qed

subsection \<open>The operations keep the domain well formed\<close>

lemma dom_wf_init: "dom_wf HazPtrDomain_init"
  unfolding dom_wf_def by (intro exI [of _ "[]"]) (simp add: HazPtrDomain_init_def)

lemma dom_wf_cong: "slots s' = slots s \<Longrightarrow> head s' = head s \<Longrightarrow> dom_wf s' = dom_wf s"
  by (simp add: dom_wf_def)

lemma dom_wf_frame [simp]:
  "dom_wf (s\<lparr>all_thread_data := ts\<rparr>) = dom_wf s"
  "dom_wf (s\<lparr>global_retired := rs\<rparr>) = dom_wf s"
  "dom_wf (s\<lparr>deleter_calls := ds\<rparr>) = dom_wf s"
  "dom_wf (upd_tl t g s) = dom_wf s"
  by (rule dom_wf_cong; simp)+

lemma dom_wf_upd_slot:
  assumes "dom_wf s" and "\<And>hp. next_slot (f hp) = next_slot hp"
  shows "dom_wf (upd_slot a f s)"
proof -
  from assms(1) obtain xs where "slot_list (slots s) (head s) xs" "distinct xs"
    "dom (slots s) = set xs" by (auto simp: dom_wf_def)
  moreover have "dom ((slots s)(a := map_option f (slots s a))) = dom (slots s)"
    by (auto simp: dom_def split: if_splits)
  ultimately show ?thesis
    using assms(2) by (auto simp: dom_wf_def slot_list_upd)
qed

lemma acquire_cases:
  assumes "dom_wf s" and "list_mutex s = None" and "slots s a = None"
  obtains (reuse) c hp where "slots s c = Some hp" and "owner hp = None"
      and "acquire me a s = Some (Inr (c, upd_slot c (\<lambda>h. h\<lparr>owner := Some me\<rparr>) s))"
    | (fresh) "\<And>c hp. slots s c = Some hp \<Longrightarrow> owner hp \<noteq> None"
      and "acquire me a s = Some (Inr (a, s\<lparr>slots := (slots s)(a \<mapsto>
             \<lparr>hazard_ptr = None, owner = Some me, next_slot = head s\<rparr>), head := Some a\<rparr>))"
proof -
  from assms(1) obtain xs where xs: "slot_list (slots s) (head s) xs" "dom (slots s) = set xs"
    by (auto simp: dom_wf_def)
  let ?free = "List.find (\<lambda>a. map_option owner (slots s a) = Some None) xs"
  have loop: "acquire_loop (slots s) (head s) = Some (Inr ?free)"
    using xs(1) by (rule acquire_loop_list)
  show thesis
  proof (cases ?free)
    case None
    have "owner hp \<noteq> None" if "slots s c = Some hp" for c hp
    proof -
      from that xs(2) have "c \<in> set xs" by blast
      with None that show ?thesis by (auto simp: find_None_iff)
    qed
    with None loop assms(2) show thesis by (intro fresh) (auto simp: acquire_def)
  next
    case (Some c)
    then obtain hp where "slots s c = Some hp" and "owner hp = None"
      by (auto simp: find_Some_iff)
    with Some loop assms(2) show thesis by (intro reuse) (auto simp: acquire_def)
  qed
qed

lemma dom_wf_push:
  assumes "dom_wf s" and "slots s a = None" and "next_slot hp = head s"
  shows "dom_wf (s\<lparr>slots := (slots s)(a \<mapsto> hp), head := Some a\<rparr>)"
proof -
  from assms(1) obtain xs where xs: "slot_list (slots s) (head s) xs" "distinct xs"
    "dom (slots s) = set xs" by (auto simp: dom_wf_def)
  with assms(2) have "a \<notin> set xs" by blast
  with xs assms(3) show ?thesis
    unfolding dom_wf_def by (intro exI [of _ "a # xs"]) (auto simp: slot_list_fresh)
qed

lemma acquire_wf:
  assumes "dom_wf s" and "list_mutex s = None" and "slots s a = None"
    and "acquire me a s = Some (Inr (c, s'))"
  shows "dom_wf s'"
  using assms(1-3)
proof (cases rule: acquire_cases [where me = me])
  case (reuse c' hp)
  with assms(1,4) show ?thesis by (auto intro: dom_wf_upd_slot)
next
  case fresh
  with assms show ?thesis by (auto intro: dom_wf_push)
qed

lemma release_wf: "dom_wf s \<Longrightarrow> release me hp s = Inr s' \<Longrightarrow> dom_wf s'"
  by (auto simp: release_def Let_def intro!: dom_wf_upd_slot split: option.splits if_splits)

lemma protect_wf: "dom_wf s \<Longrightarrow> protect h p s = Inr s' \<Longrightarrow> dom_wf s'"
  by (auto simp: protect_def intro!: dom_wf_upd_slot split: option.splits)

lemma splice_all_frame [simp]:
  "slots (splice_all ts s) = slots s"
  "head (splice_all ts s) = head s"
  "list_mutex (splice_all ts s) = list_mutex s"
  "global_retired_mutex (splice_all ts s) = global_retired_mutex s"
  "thread_data_mutex (splice_all ts s) = thread_data_mutex s"
  "all_thread_data (splice_all ts s) = all_thread_data s"
  "deleter_calls (splice_all ts s) = deleter_calls s"
  by (induction ts arbitrary: s) simp_all

subsection \<open>Reclamation\<close>

lemma reclaim_loop_partition:
  "dom_wf s \<Longrightarrow>
   reclaim_loop s rs kept rec =
     Some (Inr (kept @ filter (\<lambda>r. protected_by s (ptr r)) rs,
                rec @ filter (\<lambda>r. \<not> protected_by s (ptr r)) rs))"
  by (induction rs arbitrary: kept rec) (simp_all add: isProtected_iff)

lemma reclaim_all_partition:
  assumes "dom_wf s" and "global_retired_mutex s = None"
  shows "reclaim_all me s = Some (Inr (s\<lparr>
      global_retired := filter (\<lambda>r. protected_by s (ptr r)) (global_retired s),
      deleter_calls := deleter_calls s @
        map retired_key (filter (\<lambda>r. \<not> protected_by s (ptr r)) (global_retired s))\<rparr>))"
  using assms
  by (simp add: reclaim_all_def reclaim_loop_partition retired_key_def [abs_def])

lemma splice_all_dom_wf [simp]: "dom_wf (splice_all ts s) = dom_wf s"
  by (rule dom_wf_cong) simp_all

lemma splice_all_protected_by [simp]: "protected_by (splice_all ts s) p = protected_by s p"
  by (simp add: protected_by_def)

lemma Scan_partition:
  assumes "dom_wf s" and "global_retired_mutex s = None"
  shows "Scan me s = Some (Inr ((splice_all (all_thread_data s) s)\<lparr>
      global_retired := filter (\<lambda>r. protected_by s (ptr r))
        (global_retired (splice_all (all_thread_data s) s)),
      deleter_calls := deleter_calls s @
        map retired_key (filter (\<lambda>r. \<not> protected_by s (ptr r))
          (global_retired (splice_all (all_thread_data s) s)))\<rparr>))"
  using assms by (simp add: Scan_def reclaim_all_partition)

subsection \<open>The ledger\<close>

lemma ledger_splice_local:
  assumes "finite T" and "t \<in> T"
  shows "ledger T (splice_local t s) = ledger T s"
  using assms
  by (simp add: ledger_def sum.remove [of T t] ac_simps)

lemma ledger_splice_all:
  "finite T \<Longrightarrow> set ts \<subseteq> T \<Longrightarrow> ledger T (splice_all ts s) = ledger T s"
  by (induction ts arbitrary: s) (simp_all add: ledger_splice_local)

lemma mset_filter_split: "mset (filter P xs) + mset (filter (\<lambda>x. \<not> P x) xs) = mset xs"
  by (induction xs) auto

lemma ledger_reclaim:
  "ledger T (s\<lparr>global_retired := filter P (global_retired s),
     deleter_calls := deleter_calls s @ map retired_key (filter (\<lambda>r. \<not> P r) (global_retired s))\<rparr>)
   = ledger T s"
proof -
  have "image_mset retired_key (mset (filter P xs))
      + image_mset retired_key (mset (filter (\<lambda>r. \<not> P r) xs)) = image_mset retired_key (mset xs)"
    for xs
    by (simp only: mset_filter_split flip: image_mset_union)
  then show ?thesis by (simp add: ledger_def ac_simps)
qed

subsection \<open>Retirement\<close>

lemma Scan_locked: "global_retired_mutex s = Some me \<Longrightarrow> Scan me s = Some (Inl SelfDeadlock)"
  by (simp add: Scan_def)

lemmas retire_defs = RetirePointer_def list_full_def commit_retired_def push_retired_def

lemma RetirePointer_overflow:
  "unlocked s \<Longrightarrow> retire_overflow me s \<Longrightarrow> RetirePointer me p d s = Some (Inl SelfDeadlock)"
  by (simp add: retire_defs unlocked_def retire_overflow_def Let_def Scan_locked)

lemma RetirePointer_ok:
  assumes "unlocked s" and "\<not> retire_overflow me s"
  shows "RetirePointer me p d s = Some (Inr
    (if scan_threshold (tl_thread_data s me) \<le> Suc (length (retired_list (tl_thread_data s me)))
     then splice_local me (push_retired me p d s) else push_retired me p d s))"
  using assms
  by (auto simp: retire_defs unlocked_def retire_overflow_def Let_def
      splice_local_def upd_tl_def)

lemma ledger_push:
  assumes "finite T" and "me \<in> T"
  shows "ledger T (push_retired me p d s) = ledger T s + {#(d, p)#}"
  using assms
  by (simp add: ledger_def push_retired_def retired_key_def sum.remove [of T me] ac_simps)

lemma push_retired_sel [simp]:
  "slots (push_retired me p d s) = slots s"
  "head (push_retired me p d s) = head s"
  "list_mutex (push_retired me p d s) = list_mutex s"
  "global_retired_mutex (push_retired me p d s) = global_retired_mutex s"
  "thread_data_mutex (push_retired me p d s) = thread_data_mutex s"
  "all_thread_data (push_retired me p d s) = all_thread_data s"
  "deleter_calls (push_retired me p d s) = deleter_calls s"
  by (simp_all add: push_retired_def)

lemma commit_retired_Inr:
  assumes "commit_retired me s = Some (Inr s')"
  shows "s' = splice_local me s"
proof (cases "global_retired_mutex s")
  case None
  with assms show ?thesis
    by (auto simp: commit_retired_def Let_def splice_local_def upd_tl_def Scan_locked split: if_splits)
next
  case (Some t)
  with assms show ?thesis by (auto simp: commit_retired_def lock_def split: if_splits)
qed

lemma RetirePointer_Inr:
  assumes "RetirePointer me p d s = Some (Inr s')"
  shows "s' = splice_local me (push_retired me p d s) \<or> s' = push_retired me p d s"
  using assms by (auto simp: RetirePointer_def Let_def dest: commit_retired_Inr split: if_splits)

subsection \<open>The invariant of the domain\<close>

lemma RegisterThread_inv:
  assumes "RegisterThread me s = Inr s'" and "hp_inv T (s, l)" and "me \<in> T"
  shows "hp_inv T (s', l)"
proof -
  from assms have s': "s' = (upd_tl me (\<lambda>d. d\<lparr>thread_id := Some me\<rparr>) s)
      \<lparr>all_thread_data := all_thread_data s @ [me]\<rparr>"
    by (simp add: RegisterThread_def hp_inv_def unlocked_def Let_def)
  have "retired_list (tl_thread_data s' t) = retired_list (tl_thread_data s t)" for t
    by (simp add: s')
  then have "ledger T s' = ledger T s" by (simp add: ledger_def s')
  with assms(2,3) show ?thesis
    by (simp add: hp_inv_def unlocked_def s')
qed

lemma UnregisterThread_inv:
  assumes "UnregisterThread me s = Inr s'" and "hp_inv T (s, l)"
  shows "hp_inv T (s', l)"
  using assms
  by (auto simp: UnregisterThread_def hp_inv_def unlocked_def try_bind_Inr_iff ledger_def)

lemma acquire_inv:
  assumes "acquire me a s = Some (Inr (c, s'))" and "hp_inv T (s, l)" and "slots s a = None"
  shows "hp_inv T (s', l)"
proof -
  from assms(2) have wf: "dom_wf s" "list_mutex s = None"
    by (simp_all add: hp_inv_def unlocked_def)
  with assms(1,3) have "dom_wf s'" by (auto intro: acquire_wf)
  moreover from wf assms(3) have "unlocked s' = unlocked s \<and>
      all_thread_data s' = all_thread_data s \<and> ledger T s' = ledger T s"
  proof (cases rule: acquire_cases [where me = me])
    case (reuse c' hp)
    with assms(1) show ?thesis by (auto simp: unlocked_def ledger_def)
  next
    case fresh
    with assms(1) show ?thesis by (auto simp: unlocked_def ledger_def)
  qed
  ultimately show ?thesis using assms(2) by (simp add: hp_inv_def)
qed

lemma release_inv: "release me hp s = Inr s' \<Longrightarrow> hp_inv T (s, l) \<Longrightarrow> hp_inv T (s', l)"
  using release_wf [of s me hp s']
  by (auto simp: hp_inv_def release_def unlocked_def Let_def ledger_def
      split: option.splits if_splits)

lemma protect_inv: "protect h p s = Inr s' \<Longrightarrow> hp_inv T (s, l) \<Longrightarrow> hp_inv T (s', l)"
  using protect_wf [of s h p s']
  by (auto simp: hp_inv_def protect_def unlocked_def ledger_def split: option.splits)

lemma RetirePointer_inv:
  assumes "RetirePointer me p d s = Some (Inr s')" and "hp_inv T (s, l)"
    and "me \<in> T" and "finite T"
  shows "hp_inv T (s', l @ [(d, p)])"
proof -
  from assms(1,2) have "s' = splice_local me (push_retired me p d s) \<or> s' = push_retired me p d s"
    by (intro RetirePointer_Inr)
  then have "ledger T s' = ledger T s + {#(d, p)#}"
    using assms(3,4) by (auto simp: ledger_splice_local ledger_push)
  moreover have "slots s' = slots s" "head s' = head s" "unlocked s' = unlocked s"
    "all_thread_data s' = all_thread_data s"
    using \<open>s' = _ \<or> _\<close> by (auto simp: unlocked_def)
  ultimately show ?thesis
    using assms(2) dom_wf_cong [of s' s] by (simp add: hp_inv_def)
qed

lemma reclaim_all_inv:
  assumes "reclaim_all me s = Some (Inr s')" and "hp_inv T (s, l)"
  shows "hp_inv T (s', l)"
proof -
  from assms(2) have "dom_wf s" "global_retired_mutex s = None"
    by (simp_all add: hp_inv_def unlocked_def)
  from reclaim_all_partition [OF this, of me] assms(1)
  have s': "s' = s\<lparr>
      global_retired := filter (\<lambda>r. protected_by s (ptr r)) (global_retired s),
      deleter_calls := deleter_calls s @
        map retired_key (filter (\<lambda>r. \<not> protected_by s (ptr r)) (global_retired s))\<rparr>" by simp
  have "ledger T s' = ledger T s" unfolding s' by (rule ledger_reclaim)
  with assms(2) show ?thesis
    by (simp add: hp_inv_def unlocked_def s')
qed

lemma Scan_inv:
  assumes "Scan me s = Some (Inr s')" and "hp_inv T (s, l)" and "finite T"
  shows "hp_inv T (s', l)"
proof -
  let ?s = "splice_all (all_thread_data s) s"
  from assms(1,2) have "reclaim_all me ?s = Some (Inr s')"
    by (simp add: Scan_def hp_inv_def unlocked_def)
  moreover from assms(2,3) have "hp_inv T (?s, l)"
    by (simp add: hp_inv_def unlocked_def ledger_splice_all)
  ultimately show ?thesis by (rule reclaim_all_inv)
qed

lemma hp_step_inv:
  assumes "finite T"
  shows "hp_step T x y \<Longrightarrow> hp_inv T x \<Longrightarrow> hp_inv T y"
  by (induction rule: hp_step.induct)
    (blast intro: RegisterThread_inv UnregisterThread_inv acquire_inv release_inv protect_inv
      RetirePointer_inv Scan_inv reclaim_all_inv assms)+

lemma hp_init_inv: "hp_init x \<Longrightarrow> hp_inv T x"
  by (auto simp: hp_init_def hp_inv_def dom_wf_init)
    (simp_all add: HazPtrDomain_init_def ThreadData_init_def unlocked_def ledger_def)

interpretation hp: invariant_system hp_init "hp_step {t. t < n}" "hp_inv {t. t < n}" for n
  by unfold_locales (auto intro: hp_init_inv hp_step_inv)

subsection \<open>Properties\<close>



text \<open>Acquiring a slot on a well-formed domain whose list mutex is free always
  returns, hands the caller a slot that had no owner (or did not exist), records the caller
  as its owner, leaves every other slot alone and keeps the slot list well formed.\<close>

theorem acquire_exclusive:
  assumes "dom_wf s" and "list_mutex s = None" and "slots s a = None"
  shows "\<exists>c s' hp. acquire me a s = Some (Inr (c, s')) \<and> dom_wf s' \<and>
     slots s' c = Some hp \<and> owner hp = Some me \<and>
     (\<forall>old. slots s c = Some old \<longrightarrow> owner old = None) \<and>
     (\<forall>b. b \<noteq> c \<longrightarrow> slots s' b = slots s b)"
  using assms
proof (cases rule: acquire_cases [where me = me])
  case (reuse c hp)
  with assms show ?thesis by (auto intro: dom_wf_upd_slot)
next
  case fresh
  with assms show ?thesis by (auto intro: dom_wf_push)
qed

theorem acquire_exclusive_witness:
  "\<exists>c s' hp. acquire 3 8 (HazPtrDomain_init :: (nat, nat) HazPtrDomain) = Some (Inr (c, s')) \<and>
     dom_wf s' \<and> slots s' c = Some hp \<and> owner hp = Some 3"
  using acquire_exclusive [of "HazPtrDomain_init :: (nat, nat) HazPtrDomain" 8 3] dom_wf_init
  by (fastforce simp: HazPtrDomain_init_def)

text \<open>On a well-formed domain \<open>isProtected\<close> always returns, and answers exactly
  whether some slot publishes the pointer.\<close>

theorem isProtected_correct:
  assumes "dom_wf s"
  shows "isProtected s p = Some (Inr (\<exists>a hp. slots s a = Some hp \<and> hazard_ptr hp = p))"
  using isProtected_iff [OF assms] by (simp add: protected_by_def ran_def Bex_def) blast

theorem isProtected_correct_witness:
  "isProtected (HazPtrDomain_init :: (nat, nat) HazPtrDomain) (Some 5) = Some (Inr False)"
  using isProtected_correct [OF dom_wf_init, of "Some 5"] by (simp add: HazPtrDomain_init_def)




text \<open>C30: retiring a pointer on an unlocked domain fails exactly when the thread's list
  reaches its threshold and the global list then exceeds the global one. The failure is that
  the call locks \<open>global_retired_mutex\<close> a second time, through \<open>Scan\<close>, while it already
  holds it. In every other case the call returns.\<close>

theorem RetirePointer_deadlock_iff:
  assumes "unlocked s"
  shows "(RetirePointer me p d s = Some (Inl SelfDeadlock) \<longleftrightarrow> retire_overflow me s) \<and>
     (\<not> retire_overflow me s \<longrightarrow> (\<exists>s'. RetirePointer me p d s = Some (Inr s')))"
  by (cases "retire_overflow me s")
    (simp_all add: RetirePointer_overflow [OF assms] RetirePointer_ok [OF assms])

theorem RetirePointer_deadlock_iff_witness:
  "RetirePointer 0 (Some (9::nat)) (1::nat) (HazPtrDomain_init\<lparr>
     global_retired := replicate 4901 \<lparr>ptr = Some 7, deleter = 1\<rparr>,
     tl_thread_data := (\<lambda>_. ThreadData_init\<lparr>
       retired_list := replicate 99 \<lparr>ptr = Some 8, deleter = 1\<rparr>\<rparr>)\<rparr>)
   = Some (Inl SelfDeadlock)"
  using RetirePointer_deadlock_iff [of "HazPtrDomain_init\<lparr>
     global_retired := replicate 4901 \<lparr>ptr = Some 7, deleter = 1\<rparr>,
     tl_thread_data := (\<lambda>_. ThreadData_init\<lparr>
       retired_list := replicate 99 \<lparr>ptr = Some 8, deleter = 1\<rparr>\<rparr>)\<rparr>" 0 "Some (9::nat)" "1::nat"]
  by (simp add: unlocked_def retire_overflow_def HazPtrDomain_init_def ThreadData_init_def
      del: replicate.simps)

text \<open>C17: in every run of the domain, by any number of threads whose calls follow one another,
  the deleter calls made so far are, with multiplicity, among the retirements made so far: no retired pointer is
  deleted twice and nothing is deleted that was not retired.\<close>

theorem deleted_at_most_once:
  assumes "reach hp_init (hp_step {t. t < n}) (s, l)"
  shows "mset (deleter_calls s) \<subseteq># mset l"
proof -
  from hp.reach_inv [OF assms] have "ledger {t. t < n} s = mset l" by (simp add: hp_inv_def)
  then show ?thesis unfolding ledger_def by (metis mset_subset_eq_add_right)
qed

theorem deleted_at_most_once_witness:
  "\<exists>s. reach hp_init (hp_step {t. t < 1}) (s, [(1::nat, Some (7::nat))]) \<and>
     deleter_calls s = [(1, Some 7)] \<and> mset (deleter_calls s) \<subseteq># mset [(1, Some 7)]"
proof -
  let ?R = "reach hp_init (hp_step {t. t < 1}) :: (nat, nat) HazPtrDomain \<times> _ \<Rightarrow> bool"
  let ?s0 = "HazPtrDomain_init :: (nat, nat) HazPtrDomain"
  let ?s1 = "(upd_tl 0 (\<lambda>d. d\<lparr>thread_id := Some 0\<rparr>) ?s0)\<lparr>all_thread_data := [0]\<rparr>"
  let ?s2 = "push_retired 0 (Some 7) 1 ?s1"
  have 0: "?R (?s0, [])" by (rule reach.reach_init) (simp add: hp_init_def)
  have "RegisterThread 0 ?s0 = Inr ?s1"
    by (simp add: RegisterThread_def Let_def HazPtrDomain_init_def upd_tl_def)
  then have 1: "?R (?s1, [])"
    by (intro reach.reach_step [OF 0] hp_step.step_register) simp_all
  have "unlocked ?s1" "\<not> retire_overflow 0 ?s1"
    by (simp_all add: unlocked_def retire_overflow_def HazPtrDomain_init_def ThreadData_init_def)
  then have "RetirePointer 0 (Some 7) 1 ?s1 = Some (Inr ?s2)"
    by (subst RetirePointer_ok) (simp_all add: HazPtrDomain_init_def ThreadData_init_def)
  then have "?R (?s2, [] @ [(1, Some 7)])"
    by (intro reach.reach_step [OF 1] hp_step.step_retire) simp_all
  then have 2: "?R (?s2, [(1, Some 7)])" by (simp only: append_Nil)
  have "dom_wf ?s2" by (simp add: push_retired_def dom_wf_init)
  moreover have "global_retired_mutex ?s2 = None" by (simp add: HazPtrDomain_init_def)
  ultimately obtain s3 where s3: "Scan 0 ?s2 = Some (Inr s3)" "deleter_calls s3 = [(1, Some 7)]"
    by (simp add: Scan_partition protected_by_def retired_key_def HazPtrDomain_init_def
        ThreadData_init_def push_retired_def)
  then have "?R (s3, [(1, Some 7)])"
    by (intro reach.reach_step [OF 2] hp_step.step_scan [of 0]) simp_all
  with s3 deleted_at_most_once show ?thesis by blast
qed

text \<open>A holder that was given a slot, published a pointer and is moved from behaves as
  the tests expect: the source yields \<open>nullptr\<close> and releasing it does nothing, the target
  yields the pointer, and releasing the target by its owner frees and clears the slot.\<close>

theorem holder_move_and_release:
  assumes "hazard_ptr_slot h = Some a" and "slots s a = Some hp" and "owner hp = Some me"
    and "protect h p s = Inr s1" and "holder_move h = (h2, h1)"
  shows "get h1 s1 = Inr None \<and> get h2 s1 = Inr p \<and> holder_release me h1 s1 = Inr (h1, s1) \<and>
     (\<exists>h3 s2. holder_release me h2 s1 = Inr (h3, s2) \<and> hazard_ptr_slot h3 = None \<and>
        slots s2 a = Some (hp\<lparr>hazard_ptr := None, owner := None\<rparr>) \<and>
        (\<forall>b. b \<noteq> a \<longrightarrow> slots s2 b = slots s b))"
  using assms
  by (auto simp: protect_def holder_move_def get_def holder_release_def release_def Let_def)

theorem holder_move_and_release_witness:
  "\<exists>s1 h3 s2. protect \<lparr>hazard_ptr_slot = Some 1\<rparr> (Some 6)
       ((HazPtrDomain_init :: (nat, nat) HazPtrDomain)\<lparr>slots := [1 \<mapsto>
          \<lparr>hazard_ptr = Some 5, owner = Some 4, next_slot = None\<rparr>]\<rparr>) = Inr s1 \<and>
     holder_release 4 \<lparr>hazard_ptr_slot = Some 1\<rparr> s1 = Inr (h3, s2) \<and> hazard_ptr_slot h3 = None"
proof -
  let ?h = "\<lparr>hazard_ptr_slot = Some 1\<rparr>"
  let ?hp = "\<lparr>hazard_ptr = Some 5, owner = Some 4, next_slot = None\<rparr>"
  let ?s = "(HazPtrDomain_init :: (nat, nat) HazPtrDomain)\<lparr>slots := [1 \<mapsto> ?hp]\<rparr>"
  obtain s1 where s1: "protect ?h (Some 6) ?s = Inr s1" by (simp add: protect_def)
  have mv: "holder_move ?h = (?h, \<lparr>hazard_ptr_slot = None\<rparr>)" by (simp add: holder_move_def)
  have "\<exists>h3 s2. holder_release 4 ?h s1 = Inr (h3, s2) \<and> hazard_ptr_slot h3 = None"
    using holder_move_and_release [OF _ _ _ s1 mv, of 1 ?hp 4] by (simp del: One_nat_def) blast
  with s1 show ?thesis by blast
qed

text \<open>A scope with a holder: constructed in a well-formed domain, used to publish a pointer, and
  destroyed at the end of the scope, it gives its slot back, free and cleared, and leaves every
  other slot as it was; what was protected elsewhere still is.\<close>

theorem holder_scope:
  assumes "dom_wf s" and "list_mutex s = None" and "slots s a = None"
  shows "\<exists>h s1 s2 s3 c hp. HazPtrHolder_new me a s = Some (Inr (h, s1)) \<and> protect h p s1 = Inr s2 \<and>
     get h s2 = Inr p \<and> HazPtrHolder_destroy me h s2 = Inr s3 \<and>
     slots s3 c = Some hp \<and> owner hp = None \<and> hazard_ptr hp = None \<and>
     (\<forall>b. b \<noteq> c \<longrightarrow> slots s3 b = slots s b)"
  using assms
proof (cases rule: acquire_cases [where me = me])
  case (reuse c hp)
  then show ?thesis
    by (simp add: HazPtrHolder_new_def protect_def get_def HazPtrHolder_destroy_def holder_release_def
        release_def upd_slot_def Let_def) auto
next
  case fresh
  then show ?thesis
    by (simp add: HazPtrHolder_new_def protect_def get_def HazPtrHolder_destroy_def holder_release_def
        release_def upd_slot_def Let_def) auto
qed

text \<open>The destructor of a well-formed domain returns and frees every slot, each once.\<close>

theorem destroy_frees_all:
  assumes "dom_wf s" and "list_mutex s = None"
  shows "HazPtrDomain_destroy me s = Some (Inr Map.empty)"
proof -
  from assms(1) obtain xs where xs: "slot_list (slots s) (head s) xs" "distinct xs"
    "dom (slots s) = set xs" by (auto simp: dom_wf_def)
  then have "destroy_loop (slots s) (head s) = Some (Inr (\<lambda>a. if a \<in> set xs then None else slots s a))"
    by (intro destroy_loop_list)
  moreover from xs(3) have "(\<lambda>a. if a \<in> set xs then None else slots s a) = Map.empty"
    by (auto simp: fun_eq_iff dom_def)
  ultimately show ?thesis using assms(2) by (simp add: HazPtrDomain_destroy_def)
qed

theorem destroy_frees_all_witness:
  "HazPtrDomain_destroy 0 (HazPtrDomain_init :: (nat, nat) HazPtrDomain) = Some (Inr Map.empty)"
  by (rule destroy_frees_all [OF dom_wf_init]) (simp add: HazPtrDomain_init_def)

end
