(* ===== verification/MPMC_Queue.thy ===== *)
theory MPMC_Queue
  imports Hazard_Pointer
begin

text \<open>
  Model of \<open>src/common/include/mpmc_queue.hpp\<close>: the linked queue with its dummy node, as
  a machine whose steps are the single atomic accesses of \<open>enqueue\<close> and \<open>dequeue\<close>,
  interleaved between any number of threads. The queue runs on the hazard-pointer domain of
  theory \<open>Hazard_Pointer\<close>: holders acquire, publish and release slots through its operations
  and a popped node is retired with the two parts of \<open>RetirePointer\<close>. \<open>Scan\<close> is unfolded here into
  the lists it splices and the loads of its walk over the slots, so that a scan races with
  dequeues. \<open>acquire\<close> is one step; \<open>MPMC_Acquire\<close> unfolds it.

  The header names \<open>TestObject\<close> where the node type is meant and calls
  \<open>release_hazard_pointer\<close>, which it does not declare; the model reads them as
  \<open>Node<T>\<close> and the holder's \<open>release\<close>. Accesses are sequentially consistent.
  \<open>compare_exchange_weak\<close> may fail spuriously: the flag \<open>sp\<close> of a step. A node keeps
  its contents after it was deleted and joins \<open>freed\<close>; reading it then sends the thread to
  \<open>Crashed\<close>. The addresses that \<open>new\<close> returns are arguments, and are not reused.
\<close>

subsection \<open>State\<close>

text \<open>\<open>data\<close> is \<open>None\<close> in the dummy node, whose \<open>T\<close> is default-constructed.\<close>

record 'a Node =
  data :: "'a option"
  next_node :: "addr ptr"

datatype mq_error = UseAfterFree

datatype 'a outcome = NoCall | Enqueued | Popped "'a option" | WasEmpty

type_synonym retired = "(addr, unit) RetiredPtr"

text \<open>
  Program counters, with the locals that are alive there: \<open>n\<close> the new node, \<open>ct\<close>
  \<open>curr_tail\<close>, \<open>ch\<close> \<open>curr_head\<close>, \<open>nx\<close> \<open>next\<close>, \<open>sh\<close> and \<open>sn\<close> the slots
  of the holders \<open>hp_head\<close> and \<open>hp_next\<close>.
\<close>

datatype 'a pc =
    Idle "'a outcome"
  | Enq_LoadTail addr
  | Enq_LoadNext addr addr
  | Enq_Check addr addr "addr ptr"
  | Enq_CasNext addr addr
  | Enq_CasTail addr addr
  | Enq_Help addr addr addr
  | Deq_AcqHead
  | Deq_AcqNext addr
  | Deq_LoadHead addr addr
  | Deq_ProtHead addr addr addr
  | Deq_Check1 addr addr addr
  | Deq_LoadTail addr addr addr
  | Deq_LoadNext addr addr addr addr
  | Deq_ProtNext addr addr addr addr "addr ptr"
  | Deq_Check2 addr addr addr addr "addr ptr"
  | Deq_Empty1 addr addr
  | Deq_Empty2 addr
  | Deq_Help addr addr addr addr
  | Deq_CasHead addr addr addr addr
  | Deq_Read addr addr addr addr
  | Deq_Rel1 addr addr addr "'a option"
  | Deq_Rel2 addr addr "'a option"
  | Deq_Retire addr "'a option"
  | Deq_Commit "'a option"
  | Scan_Splice "tid list"
  | Scan_Lock
  | Scan_Loop "retired list" "retired list" "retired list"
  | Scan_Walk retired "retired list" "retired list" "retired list" "addr ptr"
  | Scan_Free "retired list"
  | Stuck hp_error
  | Crashed

record 'a MPMCQueue =
  nodes :: "addr \<rightharpoonup> 'a Node"
  qhead :: addr
  qtail :: addr
  hpd :: "(addr, unit) HazPtrDomain"
  freed :: "addr set"
  pcs :: "tid \<Rightarrow> 'a pc"

definition MPMCQueue_new :: "addr \<Rightarrow> 'a MPMCQueue" where
  "MPMCQueue_new dummy =
     \<lparr>nodes = [dummy \<mapsto> \<lparr>data = None, next_node = None\<rparr>], qhead = dummy, qtail = dummy,
      hpd = HazPtrDomain_init, freed = {}, pcs = (\<lambda>_. Idle NoCall)\<rparr>"

subsection \<open>Accesses\<close>

definition goto :: "tid \<Rightarrow> 'a pc \<Rightarrow> 'a MPMCQueue \<Rightarrow> 'a MPMCQueue" where
  "goto t p s = s\<lparr>pcs := (pcs s)(t := p)\<rparr>"

text \<open>A read through a node pointer: \<open>None\<close> if the node was deleted or never existed.\<close>

definition load_node :: "'a MPMCQueue \<Rightarrow> addr \<Rightarrow> 'a Node option" where
  "load_node s a = (if a \<in> freed s then None else nodes s a)"

definition store_next :: "addr \<Rightarrow> addr \<Rightarrow> 'a MPMCQueue \<Rightarrow> 'a MPMCQueue" where
  "store_next a n s = s\<lparr>nodes := (nodes s)(a := map_option (\<lambda>nd. nd\<lparr>next_node := Some n\<rparr>) (nodes s a))\<rparr>"

definition cas_tail :: "bool \<Rightarrow> addr \<Rightarrow> addr \<Rightarrow> 'a MPMCQueue \<Rightarrow> 'a MPMCQueue" where
  "cas_tail sp expected desired s =
     (if qtail s = expected \<and> \<not> sp then s\<lparr>qtail := desired\<rparr> else s)"

definition publish :: "addr \<Rightarrow> addr ptr \<Rightarrow> 'a MPMCQueue \<Rightarrow> hp_error + 'a MPMCQueue" where
  "publish slot p s =
     try_bind (protect \<lparr>hazard_ptr_slot = Some slot\<rparr> p (hpd s)) (\<lambda>d. Inr (s\<lparr>hpd := d\<rparr>))"

definition unpublish :: "tid \<Rightarrow> addr \<Rightarrow> 'a MPMCQueue \<Rightarrow> hp_error + 'a MPMCQueue" where
  "unpublish t slot s =
     try_bind (holder_release t \<lparr>hazard_ptr_slot = Some slot\<rparr> (hpd s))
       (\<lambda>(h, d). Inr (s\<lparr>hpd := d\<rparr>))"

definition and_goto :: "tid \<Rightarrow> 'a pc \<Rightarrow> 'a MPMCQueue \<Rightarrow> hp_error + 'a MPMCQueue \<Rightarrow> 'a MPMCQueue" where
  "and_goto t p s r = (case r of Inl e \<Rightarrow> goto t (Stuck e) s | Inr s' \<Rightarrow> goto t p s')"

definition acquire_into :: "tid \<Rightarrow> addr \<Rightarrow> (addr \<Rightarrow> 'a pc) \<Rightarrow> 'a MPMCQueue \<Rightarrow> 'a MPMCQueue" where
  "acquire_into t a k s =
     (case acquire t a (hpd s) of
        None \<Rightarrow> s
      | Some (Inl e) \<Rightarrow> goto t (Stuck e) s
      | Some (Inr (slot, d)) \<Rightarrow> goto t (k slot) (s\<lparr>hpd := d\<rparr>))"

subsection \<open>The steps of enqueue\<close>

fun enqueue_step :: "tid \<Rightarrow> bool \<Rightarrow> 'a MPMCQueue \<Rightarrow> 'a pc \<Rightarrow> 'a MPMCQueue" where
  "enqueue_step t sp s (Enq_LoadTail n) = goto t (Enq_LoadNext n (qtail s)) s"
| "enqueue_step t sp s (Enq_LoadNext n ct) =
     (case load_node s ct of
        None \<Rightarrow> goto t Crashed s
      | Some nd \<Rightarrow> goto t (Enq_Check n ct (next_node nd)) s)"
| "enqueue_step t sp s (Enq_Check n ct nx) =
     (if ct = qtail s then
        (case nx of None \<Rightarrow> goto t (Enq_CasNext n ct) s | Some m \<Rightarrow> goto t (Enq_Help n ct m) s)
      else goto t (Enq_LoadTail n) s)"
| "enqueue_step t sp s (Enq_CasNext n ct) =
     (case load_node s ct of
        None \<Rightarrow> goto t Crashed s
      | Some nd \<Rightarrow>
          if next_node nd = None \<and> \<not> sp then goto t (Enq_CasTail n ct) (store_next ct n s)
          else goto t (Enq_LoadTail n) s)"
| "enqueue_step t sp s (Enq_CasTail n ct) = goto t (Idle Enqueued) (cas_tail sp ct n s)"
| "enqueue_step t sp s (Enq_Help n ct m) = goto t (Enq_LoadTail n) (cas_tail sp ct m s)"
| "enqueue_step t sp s _ = s"

subsection \<open>The steps of dequeue\<close>

text \<open>
  The two stores of \<open>release\<close>, the hazard and the owner, are one step. A retirement that deadlocks
  on its own mutex leaves the thread stuck; that the mutex stays locked and the list spliced is
  left out, so the other threads can do more in the model than in the program.
\<close>

fun dequeue_step :: "tid \<Rightarrow> addr \<Rightarrow> bool \<Rightarrow> 'a MPMCQueue \<Rightarrow> 'a pc \<Rightarrow> 'a MPMCQueue" where
  "dequeue_step t a sp s Deq_AcqHead = acquire_into t a Deq_AcqNext s"
| "dequeue_step t a sp s (Deq_AcqNext sh) = acquire_into t a (Deq_LoadHead sh) s"
| "dequeue_step t a sp s (Deq_LoadHead sh sn) = goto t (Deq_ProtHead sh sn (qhead s)) s"
| "dequeue_step t a sp s (Deq_ProtHead sh sn ch) =
     and_goto t (Deq_Check1 sh sn ch) s (publish sh (Some ch) s)"
| "dequeue_step t a sp s (Deq_Check1 sh sn ch) =
     (if ch \<noteq> qhead s then goto t (Deq_LoadHead sh sn) s else goto t (Deq_LoadTail sh sn ch) s)"
| "dequeue_step t a sp s (Deq_LoadTail sh sn ch) = goto t (Deq_LoadNext sh sn ch (qtail s)) s"
| "dequeue_step t a sp s (Deq_LoadNext sh sn ch ct) =
     (case load_node s ch of
        None \<Rightarrow> goto t Crashed s
      | Some nd \<Rightarrow> goto t (Deq_ProtNext sh sn ch ct (next_node nd)) s)"
| "dequeue_step t a sp s (Deq_ProtNext sh sn ch ct nx) =
     and_goto t (Deq_Check2 sh sn ch ct nx) s (publish sn nx s)"
| "dequeue_step t a sp s (Deq_Check2 sh sn ch ct nx) =
     (if ch \<noteq> qhead s then goto t (Deq_LoadHead sh sn) s
      else case nx of
          None \<Rightarrow> goto t (Deq_Empty1 sh sn) s
        | Some m \<Rightarrow>
            if ch = ct then goto t (Deq_Help sh sn ct m) s else goto t (Deq_CasHead sh sn ch m) s)"
| "dequeue_step t a sp s (Deq_Empty1 sh sn) = and_goto t (Deq_Empty2 sn) s (unpublish t sh s)"
| "dequeue_step t a sp s (Deq_Empty2 sn) = and_goto t (Idle WasEmpty) s (unpublish t sn s)"
| "dequeue_step t a sp s (Deq_Help sh sn ct m) = goto t (Deq_LoadHead sh sn) (cas_tail sp ct m s)"
| "dequeue_step t a sp s (Deq_CasHead sh sn ch m) =
     (if qhead s = ch \<and> \<not> sp then goto t (Deq_Read sh sn ch m) (s\<lparr>qhead := m\<rparr>)
      else goto t (Deq_LoadHead sh sn) s)"
| "dequeue_step t a sp s (Deq_Read sh sn ch m) =
     (case load_node s m of
        None \<Rightarrow> goto t Crashed s
      | Some nd \<Rightarrow> goto t (Deq_Rel1 sh sn ch (data nd)) s)"
| "dequeue_step t a sp s (Deq_Rel1 sh sn ch v) = and_goto t (Deq_Rel2 sn ch v) s (unpublish t sh s)"
| "dequeue_step t a sp s (Deq_Rel2 sn ch v) = and_goto t (Deq_Retire ch v) s (unpublish t sn s)"
| "dequeue_step t a sp s (Deq_Retire ch v) =
     (let d = push_retired t (Some ch) () (hpd s)
      in goto t (if list_full t d then Deq_Commit v else Idle (Popped v)) (s\<lparr>hpd := d\<rparr>))"
| "dequeue_step t a sp s (Deq_Commit v) =
     (case commit_retired t (hpd s) of
        None \<Rightarrow> s
      | Some (Inl Blocked) \<Rightarrow> s
      | Some (Inl e) \<Rightarrow> goto t (Stuck e) s
      | Some (Inr d) \<Rightarrow> goto t (Idle (Popped v)) (s\<lparr>hpd := d\<rparr>))"
| "dequeue_step t a sp s _ = s"

subsection \<open>The steps of a scan\<close>

text \<open>
  The first block of \<open>Scan\<close> holds the mutex and splices one list in each step. \<open>reclaim_all\<close>
  holds the mutex through its loop, in which each slot is one load; the deleters run after it.
\<close>

definition delete_node :: "retired \<Rightarrow> 'a MPMCQueue \<Rightarrow> 'a MPMCQueue" where
  "delete_node r s =
     s\<lparr>freed := freed s \<union> set_option (ptr r),
       hpd := (hpd s)\<lparr>deleter_calls := deleter_calls (hpd s) @ [retired_key r]\<rparr>\<rparr>"

definition scan_begin :: "tid \<Rightarrow> 'a MPMCQueue \<Rightarrow> 'a MPMCQueue" where
  "scan_begin t s =
     (case lock (global_retired_mutex (hpd s)) t of
        Inl Blocked \<Rightarrow> s
      | Inl e \<Rightarrow> goto t (Stuck e) s
      | Inr m \<Rightarrow> goto t (Scan_Splice (all_thread_data (hpd s)))
                   (s\<lparr>hpd := (hpd s)\<lparr>global_retired_mutex := m\<rparr>\<rparr>))"

fun scan_step :: "tid \<Rightarrow> 'a MPMCQueue \<Rightarrow> 'a pc \<Rightarrow> 'a MPMCQueue" where
  "scan_step t s (Scan_Splice []) = goto t Scan_Lock (s\<lparr>hpd := (hpd s)\<lparr>global_retired_mutex := None\<rparr>\<rparr>)"
| "scan_step t s (Scan_Splice (u # us)) =
     goto t (Scan_Splice us)
       (s\<lparr>hpd := (if retired_list (tl_thread_data (hpd s) u) \<noteq> [] then splice_local u (hpd s) else hpd s)\<rparr>)"
| "scan_step t s Scan_Lock =
     (case lock (global_retired_mutex (hpd s)) t of
        Inl Blocked \<Rightarrow> s
      | Inl e \<Rightarrow> goto t (Stuck e) s
      | Inr m \<Rightarrow> goto t (Scan_Loop (global_retired (hpd s)) [] [])
                   (s\<lparr>hpd := (hpd s)\<lparr>global_retired_mutex := m\<rparr>\<rparr>))"
| "scan_step t s (Scan_Loop [] kept rec) =
     goto t (Scan_Free rec)
       (s\<lparr>hpd := (hpd s)\<lparr>global_retired := kept, global_retired_mutex := None\<rparr>\<rparr>)"
| "scan_step t s (Scan_Loop (r # rs) kept rec) =
     goto t (Scan_Walk r rs kept rec (Hazard_Pointer.head (hpd s))) s"
| "scan_step t s (Scan_Walk r rs kept rec None) = goto t (Scan_Loop rs kept (rec @ [r])) s"
| "scan_step t s (Scan_Walk r rs kept rec (Some a)) =
     (case slots (hpd s) a of
        None \<Rightarrow> goto t (Stuck DanglingSlot) s
      | Some hp \<Rightarrow>
          if hazard_ptr hp = ptr r then goto t (Scan_Loop rs (kept @ [r]) rec) s
          else goto t (Scan_Walk r rs kept rec (next_slot hp)) s)"
| "scan_step t s (Scan_Free []) = goto t (Idle NoCall) s"
| "scan_step t s (Scan_Free (r # rs)) = goto t (Scan_Free rs) (delete_node r s)"
| "scan_step t s _ = s"

subsection \<open>The machine\<close>

datatype 'a op = Enqueue 'a | Dequeue | StartScan | Register

definition mq_start :: "tid \<Rightarrow> addr \<Rightarrow> 'a op \<Rightarrow> 'a MPMCQueue \<Rightarrow> 'a MPMCQueue" where
  "mq_start t a op s =
     (case op of
        Enqueue x \<Rightarrow> goto t (Enq_LoadTail a)
                       (s\<lparr>nodes := (nodes s)(a \<mapsto> \<lparr>data = Some x, next_node = None\<rparr>)\<rparr>)
      | Dequeue \<Rightarrow> goto t Deq_AcqHead s
      | StartScan \<Rightarrow> scan_begin t s
      | Register \<Rightarrow> and_goto t (Idle NoCall) s
          (try_bind (RegisterThread t (hpd s)) (\<lambda>d. Inr (s\<lparr>hpd := d\<rparr>))))"

definition is_enqueue :: "'a pc \<Rightarrow> bool" where
  "is_enqueue p = (case p of
      Enq_LoadTail _ \<Rightarrow> True | Enq_LoadNext _ _ \<Rightarrow> True | Enq_Check _ _ _ \<Rightarrow> True
    | Enq_CasNext _ _ \<Rightarrow> True | Enq_CasTail _ _ \<Rightarrow> True | Enq_Help _ _ _ \<Rightarrow> True | _ \<Rightarrow> False)"

definition is_scan :: "'a pc \<Rightarrow> bool" where
  "is_scan p = (case p of
      Scan_Splice _ \<Rightarrow> True | Scan_Lock \<Rightarrow> True | Scan_Loop _ _ _ \<Rightarrow> True | Scan_Walk _ _ _ _ _ \<Rightarrow> True
    | Scan_Free _ \<Rightarrow> True | _ \<Rightarrow> False)"

definition mq_exec :: "tid \<Rightarrow> addr \<Rightarrow> bool \<Rightarrow> 'a MPMCQueue \<Rightarrow> 'a MPMCQueue" where
  "mq_exec t a sp s =
     (if is_enqueue (pcs s t) then enqueue_step t sp s (pcs s t)
      else if is_scan (pcs s t) then scan_step t s (pcs s t)
      else dequeue_step t a sp s (pcs s t))"

inductive mq_step :: "'a MPMCQueue \<Rightarrow> 'a MPMCQueue \<Rightarrow> bool" where
  call: "pcs s t = Idle r \<Longrightarrow> nodes s a = None \<Longrightarrow> mq_step s (mq_start t a op s)"
| run: "slots (hpd s) a = None \<Longrightarrow> mq_step s (mq_exec t a sp s)"

definition mq_init :: "'a MPMCQueue \<Rightarrow> bool" where
  "mq_init s \<longleftrightarrow> (\<exists>dummy. s = MPMCQueue_new dummy)"

text \<open>The destructor deletes the remaining nodes from the head on.\<close>

partial_function (option) destroy_nodes ::
  "(addr \<rightharpoonup> 'a Node) \<Rightarrow> addr set \<Rightarrow> addr ptr \<Rightarrow> (mq_error + addr set) option" where
  "destroy_nodes ns del cur =
     (case cur of
        None \<Rightarrow> Some (Inr del)
      | Some a \<Rightarrow>
          if a \<in> del then Some (Inl UseAfterFree)
          else (case ns a of
             None \<Rightarrow> Some (Inl UseAfterFree)
           | Some nd \<Rightarrow> destroy_nodes ns (insert a del) (next_node nd)))"

definition MPMCQueue_destroy :: "'a MPMCQueue \<Rightarrow> (mq_error + addr set) option" where
  "MPMCQueue_destroy s = destroy_nodes (nodes s) (freed s) (Some (qhead s))"

subsection \<open>Schedules\<close>

text \<open>An explicit interleaving, checked against the guards of \<open>mq_step\<close>.\<close>

datatype 'a move = Call tid addr "'a op" | Run tid addr bool

fun mq_move :: "'a move \<Rightarrow> 'a MPMCQueue \<Rightarrow> 'a MPMCQueue option" where
  "mq_move (Call t a op) s =
     (case pcs s t of
        Idle r \<Rightarrow> if nodes s a = None then Some (mq_start t a op s) else None
      | _ \<Rightarrow> None)"
| "mq_move (Run t a sp) s =
     (if slots (hpd s) a = None then Some (mq_exec t a sp s) else None)"

fun mq_run :: "'a move list \<Rightarrow> 'a MPMCQueue \<Rightarrow> 'a MPMCQueue option" where
  "mq_run [] s = Some s"
| "mq_run (x # xs) s = (case mq_move x s of None \<Rightarrow> None | Some s' \<Rightarrow> mq_run xs s')"

declare destroy_nodes.simps [code]

lemma mq_move_step: "mq_move x s = Some s' \<Longrightarrow> mq_step s s'"
  by (cases x) (auto intro: mq_step.intros split: pc.splits if_splits)

lemma mq_run_reach:
  "mq_run xs s = Some s' \<Longrightarrow> reach mq_init mq_step s \<Longrightarrow> reach mq_init mq_step s'"
  by (induction xs arbitrary: s)
    (auto split: option.splits dest: mq_move_step intro: reach.reach_step)

lemma reach_new: "reach mq_init mq_step (MPMCQueue_new d)"
  by (rule reach.reach_init) (auto simp: mq_init_def)

end
