(* ===== verification/MPMC_Linear.thy ===== *)
theory MPMC_Linear
  imports MPMC_Queue
begin

text \<open>
  The queue refines a sequential FIFO queue. The proof keeps the chain \<open>c\<close> of all nodes
  ever linked, in order, with the positions of the head and the tail in it; the contents
  of the queue are the data behind the head. Every step of every thread either leaves the
  contents alone, appends at its successful \<open>CAS\<close> on a \<open>next\<close> field, or removes the first
  element at its successful \<open>CAS\<close> on the head.
\<close>

subsection \<open>The abstract queue\<close>

text \<open>The nodes from a pointer to the end of the list, and the contents of the queue.\<close>

fun node_list :: "(addr \<rightharpoonup> 'a Node) \<Rightarrow> addr ptr \<Rightarrow> addr list \<Rightarrow> bool" where
  "node_list ns cur [] = (cur = None)"
| "node_list ns cur (a # as) =
     (cur = Some a \<and> (case ns a of None \<Rightarrow> False | Some nd \<Rightarrow> node_list ns (next_node nd) as))"

definition contents :: "'a MPMCQueue \<Rightarrow> 'a option list \<Rightarrow> bool" where
  "contents s xs \<longleftrightarrow>
     (\<exists>as. node_list (nodes s) (Some (qhead s)) (qhead s # as) \<and>
           xs = map (\<lambda>a. Option.bind (nodes s a) data) as)"

datatype 'a event = Silent | EnqueueAt tid "'a option" | DequeueAt tid "'a option"

fun fifo_step :: "'a option list \<Rightarrow> 'a event \<Rightarrow> 'a option list \<Rightarrow> bool" where
  "fifo_step q Silent q' = (q' = q)"
| "fifo_step q (EnqueueAt t x) q' = (q' = q @ [x])"
| "fifo_step q (DequeueAt t x) q' = (q = x # q')"

text \<open>The linearisation points, read off the step that is taken.\<close>

definition event_of :: "tid \<Rightarrow> bool \<Rightarrow> 'a MPMCQueue \<Rightarrow> 'a event" where
  "event_of t sp s =
     (case pcs s t of
        Enq_CasNext n ct \<Rightarrow>
          (case load_node s ct of
             Some nd \<Rightarrow> if next_node nd = None \<and> \<not> sp
                        then EnqueueAt t (Option.bind (nodes s n) data) else Silent
           | None \<Rightarrow> Silent)
      | Deq_CasHead sh sn ch m \<Rightarrow>
          if qhead s = ch \<and> \<not> sp then DequeueAt t (Option.bind (nodes s m) data) else Silent
      | _ \<Rightarrow> Silent)"

subsection \<open>What a thread knows about the chain\<close>

definition reached :: "addr list \<Rightarrow> nat \<Rightarrow> addr \<Rightarrow> bool" where
  "reached c k a \<longleftrightarrow> (\<exists>i \<le> k. i < length c \<and> c ! i = a)"

definition before :: "addr list \<Rightarrow> nat \<Rightarrow> addr \<Rightarrow> bool" where
  "before c k a \<longleftrightarrow> (\<exists>i < k. i < length c \<and> c ! i = a)"

definition linked :: "addr list \<Rightarrow> addr \<Rightarrow> addr \<Rightarrow> bool" where
  "linked c a b \<longleftrightarrow> (\<exists>i. Suc i < length c \<and> c ! i = a \<and> c ! Suc i = b)"

definition in_order :: "addr list \<Rightarrow> nat \<Rightarrow> addr \<Rightarrow> addr \<Rightarrow> bool" where
  "in_order c k a b \<longleftrightarrow> (\<exists>i j. i \<le> j \<and> j \<le> k \<and> j < length c \<and> c ! i = a \<and> c ! j = b)"

fun new_of :: "'a pc \<Rightarrow> addr option" where
  "new_of (Enq_LoadTail n) = Some n"
| "new_of (Enq_LoadNext n ct) = Some n"
| "new_of (Enq_Check n ct nx) = Some n"
| "new_of (Enq_CasNext n ct) = Some n"
| "new_of (Enq_Help n ct m) = Some n"
| "new_of _ = None"

fun knows :: "addr list \<Rightarrow> nat \<Rightarrow> nat \<Rightarrow> 'a pc \<Rightarrow> bool" where
  "knows c hi ti (Enq_LoadNext n ct) = reached c ti ct"
| "knows c hi ti (Enq_Check n ct nx) = (reached c ti ct \<and> (\<forall>m \<in> set_option nx. linked c ct m))"
| "knows c hi ti (Enq_CasNext n ct) = reached c ti ct"
| "knows c hi ti (Enq_CasTail n ct) = linked c ct n"
| "knows c hi ti (Enq_Help n ct m) = linked c ct m"
| "knows c hi ti (Deq_ProtHead sh sn ch) = reached c hi ch"
| "knows c hi ti (Deq_Check1 sh sn ch) = reached c hi ch"
| "knows c hi ti (Deq_LoadTail sh sn ch) = reached c hi ch"
| "knows c hi ti (Deq_LoadNext sh sn ch ct) = (reached c hi ch \<and> in_order c ti ch ct)"
| "knows c hi ti (Deq_ProtNext sh sn ch ct nx) =
     (reached c hi ch \<and> in_order c ti ch ct \<and> (\<forall>m \<in> set_option nx. linked c ch m))"
| "knows c hi ti (Deq_Check2 sh sn ch ct nx) =
     (reached c hi ch \<and> in_order c ti ch ct \<and> (\<forall>m \<in> set_option nx. linked c ch m))"
| "knows c hi ti (Deq_Help sh sn ct m) = linked c ct m"
| "knows c hi ti (Deq_CasHead sh sn ch m) = (linked c ch m \<and> before c ti ch)"
| "knows c hi ti (Deq_Read sh sn ch m) = (linked c ch m \<and> before c hi ch)"
| "knows c hi ti (Deq_Rel1 sh sn ch v) = before c hi ch"
| "knows c hi ti (Deq_Rel2 sn ch v) = before c hi ch"
| "knows c hi ti (Deq_Retire ch v) = before c hi ch"
| "knows c hi ti _ = True"

definition shape :: "addr list \<Rightarrow> nat \<Rightarrow> nat \<Rightarrow> 'a MPMCQueue \<Rightarrow> bool" where
  "shape c hi ti s \<longleftrightarrow>
     distinct c \<and> hi \<le> ti \<and> ti < length c \<and> qhead s = c ! hi \<and> qtail s = c ! ti \<and>
     (\<forall>i < length c. \<exists>nd. nodes s (c ! i) = Some nd \<and>
        next_node nd = (if Suc i < length c then Some (c ! Suc i) else None))"

definition private_nodes :: "addr list \<Rightarrow> 'a MPMCQueue \<Rightarrow> bool" where
  "private_nodes c s \<longleftrightarrow>
     (\<forall>t n. new_of (pcs s t) = Some n \<longrightarrow>
        n \<notin> set c \<and> map_option next_node (nodes s n) = Some None \<and>
        (\<forall>t'. t' \<noteq> t \<longrightarrow> new_of (pcs s t') \<noteq> Some n))"

definition chain_inv :: "addr list \<Rightarrow> nat \<Rightarrow> nat \<Rightarrow> 'a MPMCQueue \<Rightarrow> bool" where
  "chain_inv c hi ti s \<longleftrightarrow>
     shape c hi ti s \<and> private_nodes c s \<and> (\<forall>t. knows c hi ti (pcs s t))"

text \<open>The contents along the chain, and one simulated step.\<close>

definition chain_data :: "addr list \<Rightarrow> nat \<Rightarrow> 'a MPMCQueue \<Rightarrow> 'a option list" where
  "chain_data c hi s = map (\<lambda>a. Option.bind (nodes s a) data) (drop (Suc hi) c)"

definition simulates :: "addr list \<Rightarrow> nat \<Rightarrow> 'a MPMCQueue \<Rightarrow> 'a event \<Rightarrow> 'a MPMCQueue \<Rightarrow> bool" where
  "simulates c hi s e s' \<longleftrightarrow>
     (\<exists>d hi' ti'. hi \<le> hi' \<and> chain_inv (c @ d) hi' ti' s' \<and>
        fifo_step (chain_data c hi s) e (chain_data (c @ d) hi' s'))"

text \<open>Some chain explains the state.\<close>

definition chained :: "'a MPMCQueue \<Rightarrow> bool" where
  "chained s \<longleftrightarrow> (\<exists>c hi ti. chain_inv c hi ti s)"

subsection \<open>Monotonicity\<close>

lemma reached_mono: "reached c k a \<Longrightarrow> k \<le> k' \<Longrightarrow> reached (c @ d) k' a"
  unfolding reached_def by (metis le_trans length_append nth_append trans_less_add1)

lemma before_mono: "before c k a \<Longrightarrow> k \<le> k' \<Longrightarrow> before (c @ d) k' a"
  unfolding before_def by (metis length_append less_le_trans nth_append trans_less_add1)

lemma linked_mono: "linked c a b \<Longrightarrow> linked (c @ d) a b"
  unfolding linked_def by (metis Suc_lessD length_append nth_append trans_less_add1)

lemma in_order_mono:
  assumes "in_order c k a b" and "k \<le> k'"
  shows "in_order (c @ d) k' a b"
proof -
  from assms obtain i j where "i \<le> j" "j \<le> k" "j < length c" "c ! i = a" "c ! j = b"
    by (auto simp: in_order_def)
  with assms(2) show ?thesis
    unfolding in_order_def by (intro exI [of _ i] exI [of _ j]) (simp add: nth_append)
qed

lemma knows_mono:
  "knows c hi ti p \<Longrightarrow> hi \<le> hi' \<Longrightarrow> ti \<le> ti' \<Longrightarrow> knows (c @ d) hi' ti' p"
  by (cases p) (auto intro: reached_mono before_mono linked_mono in_order_mono)

lemma knows_mono_idx: "knows c hi ti p \<Longrightarrow> hi \<le> hi' \<Longrightarrow> ti \<le> ti' \<Longrightarrow> knows c hi' ti' p"
  using knows_mono [of c hi ti p hi' ti' "[]"] by simp

subsection \<open>Accessors\<close>

lemma goto_sel [simp]:
  "nodes (goto t p s) = nodes s" "qhead (goto t p s) = qhead s" "qtail (goto t p s) = qtail s"
  "hpd (goto t p s) = hpd s" "freed (goto t p s) = freed s"
  "pcs (goto t p s) = (pcs s)(t := p)"
  by (simp_all add: goto_def)

lemma store_next_sel [simp]:
  "nodes (store_next a n s) =
     (nodes s)(a := map_option (\<lambda>nd. nd\<lparr>next_node := Some n\<rparr>) (nodes s a))"
  "qhead (store_next a n s) = qhead s" "qtail (store_next a n s) = qtail s"
  "hpd (store_next a n s) = hpd s" "freed (store_next a n s) = freed s"
  "pcs (store_next a n s) = pcs s"
  by (simp_all add: store_next_def)

lemma cas_tail_sel [simp]:
  "nodes (cas_tail sp e d s) = nodes s" "qhead (cas_tail sp e d s) = qhead s"
  "qtail (cas_tail sp e d s) = (if qtail s = e \<and> \<not> sp then d else qtail s)"
  "hpd (cas_tail sp e d s) = hpd s" "freed (cas_tail sp e d s) = freed s"
  "pcs (cas_tail sp e d s) = pcs s"
  by (simp_all add: cas_tail_def)

lemma delete_node_sel [simp]:
  "nodes (delete_node r s) = nodes s" "qhead (delete_node r s) = qhead s"
  "qtail (delete_node r s) = qtail s" "pcs (delete_node r s) = pcs s"
  "freed (delete_node r s) = freed s \<union> set_option (ptr r)"
  "hpd (delete_node r s) = (hpd s)\<lparr>deleter_calls := deleter_calls (hpd s) @ [retired_key r]\<rparr>"
  by (simp_all add: delete_node_def)

text \<open>Steps that touch neither the nodes nor the two ends keep the chain.\<close>

lemma shape_cong:
  "nodes s' = nodes s \<Longrightarrow> qhead s' = qhead s \<Longrightarrow> qtail s' = qtail s \<Longrightarrow>
   shape c hi ti s' = shape c hi ti s"
  by (simp add: shape_def)

lemma private_nodes_goto:
  assumes "private_nodes c s" and "nodes s' = nodes s" and "pcs s' = (pcs s)(t := p)"
    and "new_of p = None \<or> new_of p = new_of (pcs s t)"
  shows "private_nodes c s'"
  unfolding private_nodes_def
proof (intro allI impI)
  fix u n
  assume n: "new_of (pcs s' u) = Some n"
  have sub: "new_of (pcs s v) = Some m" if "new_of (pcs s' v) = Some m" for v m
    using that assms(3,4) by (cases "v = t") auto
  from assms(1) sub [OF n] have "n \<notin> set c" "map_option next_node (nodes s n) = Some None"
    "\<forall>v. v \<noteq> u \<longrightarrow> new_of (pcs s v) \<noteq> Some n"
    by (simp_all add: private_nodes_def)
  with sub assms(2) show "n \<notin> set c \<and> map_option next_node (nodes s' n) = Some None \<and>
      (\<forall>t'. t' \<noteq> u \<longrightarrow> new_of (pcs s' t') \<noteq> Some n)" by auto
qed

lemma chain_inv_goto:
  assumes "chain_inv c hi ti s" and "nodes s' = nodes s" "qhead s' = qhead s" "qtail s' = qtail s"
    and "pcs s' = (pcs s)(t := p)" and "knows c hi ti p"
    and "new_of p = None \<or> new_of p = new_of (pcs s t)"
  shows "chain_inv c hi ti s'"
  using assms shape_cong [OF assms(2-4), of c hi ti] private_nodes_goto [of c s s' t p]
  by (auto simp: chain_inv_def)

lemma chain_inv_same:
  "chain_inv c hi ti s \<Longrightarrow> nodes s' = nodes s \<Longrightarrow> qhead s' = qhead s \<Longrightarrow> qtail s' = qtail s \<Longrightarrow>
   pcs s' = pcs s \<Longrightarrow> chain_inv c hi ti s'"
  by (simp add: chain_inv_def shape_def private_nodes_def)

subsection \<open>The three writes\<close>

lemma shape_nth_inj:
  "shape c hi ti s \<Longrightarrow> i < length c \<Longrightarrow> j < length c \<Longrightarrow> c ! i = c ! j \<Longrightarrow> i = j"
  by (auto simp: shape_def nth_eq_iff_index_eq)

lemma shape_node:
  "shape c hi ti s \<Longrightarrow> i < length c \<Longrightarrow> nodes s (c ! i) = Some nd \<Longrightarrow>
   next_node nd = (if Suc i < length c then Some (c ! Suc i) else None)"
  by (auto simp: shape_def)

lemma next_is_linked:
  assumes "shape c hi ti s" and "reached c k a" and "nodes s a = Some nd" and "next_node nd = Some m"
  shows "linked c a m"
proof -
  from assms(2) obtain i where "i < length c" "c ! i = a" by (auto simp: reached_def)
  with shape_node [OF assms(1)] assms(3,4) show ?thesis
    by (auto simp: linked_def split: if_splits)
qed

lemma shape_tail:
  "shape c hi ti s \<Longrightarrow> Suc ti < length c \<Longrightarrow> shape c hi (Suc ti) (s\<lparr>qtail := c ! Suc ti\<rparr>)"
  by (simp add: shape_def)

lemma shape_head:
  "shape c hi ti s \<Longrightarrow> hi < ti \<Longrightarrow> shape c (Suc hi) ti (s\<lparr>qhead := c ! Suc hi\<rparr>)"
  by (simp add: shape_def)

lemma shape_ends:
  "shape c hi ti s \<Longrightarrow> hi < length c \<and> ti < length c \<and> qhead s = c ! hi \<and> qtail s = c ! ti"
  by (simp add: shape_def)

text \<open>Advancing the tail along one link, when it still is where the thread saw it.\<close>

lemma chain_inv_cas_tail:
  assumes "chain_inv c hi ti s" and "linked c e d"
  shows "\<exists>ti'. chain_inv c hi ti' (cas_tail sp e d s)"
proof (cases "qtail s = e \<and> \<not> sp")
  case False
  then have "cas_tail sp e d s = s" by (auto simp: cas_tail_def)
  with assms(1) show ?thesis by auto
next
  case True
  from assms(1) have sh: "shape c hi ti s" by (simp add: chain_inv_def)
  from assms(2) obtain i where i: "Suc i < length c" "c ! i = e" "c ! Suc i = d"
    by (auto simp: linked_def)
  have "i = ti"
    using shape_ends [OF sh] i True by (auto dest: shape_nth_inj [OF sh, of i ti, rotated 2])
  with shape_tail [OF sh] i True have "shape c hi (Suc ti) (cas_tail sp e d s)"
    by (simp add: cas_tail_def)
  moreover from assms(1) have "\<forall>t. knows c hi (Suc ti) (pcs s t)"
    by (auto simp: chain_inv_def intro: knows_mono_idx)
  ultimately show ?thesis
    using assms(1) by (auto simp: chain_inv_def private_nodes_def)
qed

lemma chain_inv_cas_head:
  assumes "chain_inv c hi ti s" and "linked c (qhead s) m" and "before c ti (qhead s)"
  shows "chain_inv c (Suc hi) ti (s\<lparr>qhead := m\<rparr>) \<and> c ! hi = qhead s \<and> c ! Suc hi = m"
proof -
  from assms(1) have sh: "shape c hi ti s" by (simp add: chain_inv_def)
  then have hd: "hi < length c" "qhead s = c ! hi" by (simp_all add: shape_ends)
  from assms(2) obtain i where i: "Suc i < length c" "c ! i = qhead s" "c ! Suc i = m"
    by (auto simp: linked_def)
  with hd have "i = hi" by (auto dest: shape_nth_inj [OF sh, of i hi, rotated 2])
  moreover from assms(3) obtain j where "j < ti" "j < length c" "c ! j = qhead s"
    by (auto simp: before_def)
  with hd have "hi < ti" using shape_nth_inj [OF sh, of j hi] by auto
  ultimately have "shape c (Suc hi) ti (s\<lparr>qhead := m\<rparr>)"
    using shape_head [OF sh] i by simp
  moreover from assms(1) have "\<forall>t. knows c (Suc hi) ti (pcs s t)"
    by (auto simp: chain_inv_def intro: knows_mono_idx)
  ultimately show ?thesis
    using assms(1) hd i \<open>i = hi\<close> by (auto simp: chain_inv_def private_nodes_def)
qed

text \<open>
  Linking the new node behind the last one. A node whose \<open>next\<close> is still null and that the
  tail once reached is the last of the chain, wherever the tail is now.
\<close>

lemma last_of_chain:
  assumes "shape c hi ti s" and "reached c ti ct" and "nodes s ct = Some nd" and "next_node nd = None"
  shows "Suc ti = length c \<and> ct = c ! ti"
proof -
  from assms(2) obtain i where i: "i \<le> ti" "i < length c" "c ! i = ct" by (auto simp: reached_def)
  with shape_node [OF assms(1), of i nd] assms(3,4) have "\<not> Suc i < length c" by auto
  with i shape_ends [OF assms(1)] have "i = ti" "Suc ti = length c" by linarith+
  with i show ?thesis by simp
qed

lemma shape_link:
  assumes "shape c hi ti s" and "Suc ti = length c" and "n \<notin> set c"
    and "map_option next_node (nodes s n) = Some None"
  shows "shape (c @ [n]) hi ti (store_next (c ! ti) n s)"
proof -
  from assms(1) have d: "distinct c" and ti: "ti < length c"
    and nx: "\<And>i. i < length c \<Longrightarrow> \<exists>nd. nodes s (c ! i) = Some nd \<and>
        next_node nd = (if Suc i < length c then Some (c ! Suc i) else None)"
    by (auto simp: shape_def)
  have "\<exists>nd. nodes (store_next (c ! ti) n s) ((c @ [n]) ! i) = Some nd \<and>
      next_node nd = (if Suc i < length (c @ [n]) then Some ((c @ [n]) ! Suc i) else None)"
    if i: "i < length (c @ [n])" for i
  proof -
    consider "i < ti" | "i = ti" | "i = length c" using i assms(2) by fastforce
    then show ?thesis
    proof cases
      case 1
      with d ti have "c ! i \<noteq> c ! ti" by (simp add: nth_eq_iff_index_eq)
      with 1 nx [of i] assms(2) show ?thesis by (auto simp: nth_append)
    next
      case 2
      with nx [of ti] ti assms(2) show ?thesis by (auto simp: nth_append)
    next
      case 3
      from assms(3) ti have "n \<noteq> c ! ti" by auto
      with 3 assms(4) show ?thesis by (auto simp: nth_append)
    qed
  qed
  with assms(1,3) show ?thesis by (auto simp: shape_def nth_append)
qed

lemma private_nodes_link:
  assumes "private_nodes c s" and "new_of (pcs s t) = Some n" and "a \<in> set c"
    and "new_of p = None"
  shows "private_nodes (c @ [n]) (goto t p (store_next a n s))"
  unfolding private_nodes_def
proof (intro allI impI)
  fix u m
  assume "new_of (pcs (goto t p (store_next a n s)) u) = Some m"
  with assms(4) have "u \<noteq> t" and m: "new_of (pcs s u) = Some m" by (auto split: if_splits)
  with assms(1,2) have "m \<noteq> n" and "m \<notin> set c" and "map_option next_node (nodes s m) = Some None"
    and "\<forall>v. v \<noteq> u \<longrightarrow> new_of (pcs s v) \<noteq> Some m" by (fastforce simp: private_nodes_def)+
  with assms(3,4) show "m \<notin> set (c @ [n]) \<and>
      map_option next_node (nodes (goto t p (store_next a n s)) m) = Some None \<and>
      (\<forall>t'. t' \<noteq> u \<longrightarrow> new_of (pcs (goto t p (store_next a n s)) t') \<noteq> Some m)"
    by auto
qed

lemma chain_inv_link:
  assumes "chain_inv c hi ti s" and "pcs s t = Enq_CasNext n ct"
    and "nodes s ct = Some nd" and "next_node nd = None"
  shows "chain_inv (c @ [n]) hi ti (goto t (Enq_CasTail n ct) (store_next ct n s))"
proof -
  from assms(1) have sh: "shape c hi ti s" and pr: "private_nodes c s"
    and kn: "\<And>u. knows c hi ti (pcs s u)" by (simp_all add: chain_inv_def)
  from kn [of t] assms(2) have "reached c ti ct" by simp
  from last_of_chain [OF sh this assms(3,4)] have last: "Suc ti = length c" "ct = c ! ti" by auto
  from assms(2) have "new_of (pcs s t) = Some n" by simp
  with pr have n: "n \<notin> set c" "map_option next_node (nodes s n) = Some None"
    unfolding private_nodes_def by blast+
  from shape_link [OF sh last(1) n] last(2) have "shape (c @ [n]) hi ti (store_next ct n s)" by simp
  then have "shape (c @ [n]) hi ti (goto t (Enq_CasTail n ct) (store_next ct n s))"
    by (simp add: shape_def)
  moreover have "private_nodes (c @ [n]) (goto t (Enq_CasTail n ct) (store_next ct n s))"
    using pr assms(2) last by (intro private_nodes_link) auto
  moreover have "linked (c @ [n]) ct n"
    using last unfolding linked_def by (intro exI [of _ ti]) (auto simp: nth_append)
  ultimately show ?thesis
    using kn by (auto simp: chain_inv_def intro: knows_mono)
qed

subsection \<open>Every step simulates\<close>

lemma simulates_sameI:
  "chain_inv c hi ti s' \<Longrightarrow> fifo_step (chain_data c hi s) e (chain_data c hi s') \<Longrightarrow>
   simulates c hi s e s'"
  unfolding simulates_def
  by (intro exI [of _ "[]"] exI [of _ hi] exI [of _ ti]) simp

lemma simulates_silent:
  assumes "chain_inv c hi ti s" and "nodes s' = nodes s" "qhead s' = qhead s" "qtail s' = qtail s"
    and "pcs s' = (pcs s)(t := p)" and "knows c hi ti p"
    and "new_of p = None \<or> new_of p = new_of (pcs s t)"
  shows "simulates c hi s Silent s'"
proof -
  from assms have "chain_inv c hi ti s'" by (rule chain_inv_goto)
  moreover from assms(2) have "chain_data c hi s' = chain_data c hi s" by (simp add: chain_data_def)
  ultimately show ?thesis by (auto intro: simulates_sameI)
qed

lemma simulates_refl: "chain_inv c hi ti s \<Longrightarrow> simulates c hi s Silent s"
  by (auto intro: simulates_sameI)

lemma simulates_cas_tail:
  assumes "chain_inv c hi ti s" and "linked c e d" and "new_of p = None \<or> new_of p = new_of (pcs s t)"
    and "\<And>ti. knows c hi ti p"
  shows "simulates c hi s Silent (goto t p (cas_tail sp e d s))"
proof -
  from chain_inv_cas_tail [OF assms(1,2)] obtain ti' where
    inv: "chain_inv c hi ti' (cas_tail sp e d s)" by blast
  have "chain_inv c hi ti' (goto t p (cas_tail sp e d s))"
    by (rule chain_inv_goto [OF inv]) (use assms in auto)
  moreover have "chain_data c hi (goto t p (cas_tail sp e d s)) = chain_data c hi s"
    by (simp add: chain_data_def)
  ultimately show ?thesis by (auto intro: simulates_sameI)
qed

text \<open>Operations on the domain change the domain only, and leave the thread at the next
  program point, stuck, or where it was.\<close>

lemma and_goto_publish:
  "\<exists>q d. and_goto t p s (publish sl v s) = goto t q (s\<lparr>hpd := d\<rparr>) \<and> (q = p \<or> (\<exists>e. q = Stuck e))"
proof (cases "protect \<lparr>hazard_ptr_slot = Some sl\<rparr> v (hpd s)")
  case (Inl e)
  then show ?thesis
    by (intro exI [of _ "Stuck e"] exI [of _ "hpd s"]) (simp add: and_goto_def publish_def)
next
  case (Inr d)
  then show ?thesis
    by (intro exI [of _ p] exI [of _ d]) (simp add: and_goto_def publish_def)
qed

lemma and_goto_unpublish:
  "\<exists>q d. and_goto t p s (unpublish t sl s) = goto t q (s\<lparr>hpd := d\<rparr>) \<and> (q = p \<or> (\<exists>e. q = Stuck e))"
proof (cases "holder_release t \<lparr>hazard_ptr_slot = Some sl\<rparr> (hpd s)")
  case (Inl e)
  then show ?thesis
    by (intro exI [of _ "Stuck e"] exI [of _ "hpd s"]) (simp add: and_goto_def unpublish_def)
next
  case (Inr hd)
  then show ?thesis
    by (cases hd) (auto simp: and_goto_def unpublish_def)
qed

lemma acquire_into_shape:
  "acquire_into t a k s = s \<or>
   (\<exists>q d. acquire_into t a k s = goto t q (s\<lparr>hpd := d\<rparr>) \<and> ((\<exists>sl. q = k sl) \<or> (\<exists>e. q = Stuck e)))"
proof (cases "acquire t a (hpd s)")
  case None
  then show ?thesis by (simp add: acquire_into_def)
next
  case (Some r)
  show ?thesis
  proof (cases r)
    case (Inl e)
    with Some have "acquire_into t a k s = goto t (Stuck e) (s\<lparr>hpd := hpd s\<rparr>)"
      by (simp add: acquire_into_def)
    then show ?thesis by blast
  next
    case (Inr x)
    with Some show ?thesis by (cases x) (auto simp: acquire_into_def)
  qed
qed

lemma simulates_goto_hpd:
  assumes "chain_inv c hi ti s" and "knows c hi ti p" and "new_of p = None"
  shows "simulates c hi s Silent (goto t p (s\<lparr>hpd := d\<rparr>))"
  by (rule simulates_silent [OF assms(1), where t = t and p = p]) (use assms in auto)

lemma simulates_hpd_or_stuck:
  assumes "chain_inv c hi ti s" and "knows c hi ti p" and "new_of p = None"
    and "\<exists>q d. s' = goto t q (s\<lparr>hpd := d\<rparr>) \<and> (q = p \<or> (\<exists>e. q = Stuck e))"
  shows "simulates c hi s Silent s'"
  using assms by (auto intro!: simulates_goto_hpd)

lemma simulates_acquire_into:
  assumes "chain_inv c hi ti s" and "\<And>sl. knows c hi ti (k sl) \<and> new_of (k sl) = None"
  shows "simulates c hi s Silent (acquire_into t a k s)"
  using acquire_into_shape [of t a k s] assms(2)
  by (auto intro: simulates_refl [OF assms(1)] intro!: simulates_goto_hpd [OF assms(1)])

lemma simulates_link:
  assumes "chain_inv c hi ti s" and "pcs s t = Enq_CasNext n ct"
    and "nodes s ct = Some nd" and "next_node nd = None"
  shows "simulates c hi s (EnqueueAt t (Option.bind (nodes s n) data))
           (goto t (Enq_CasTail n ct) (store_next ct n s))"
proof -
  have dat: "Option.bind (map_option (next_node_update f) x) data = Option.bind x data"
    for f and x :: "'a Node option"
    by (cases x) simp_all
  from assms(1) have "Suc hi \<le> length c" by (auto simp: chain_inv_def shape_def)
  then have "chain_data (c @ [n]) hi (goto t (Enq_CasTail n ct) (store_next ct n s))
      = chain_data c hi s @ [Option.bind (nodes s n) data]"
    by (simp add: chain_data_def dat)
  with chain_inv_link [OF assms] show ?thesis
    unfolding simulates_def by (intro exI [of _ "[n]"] exI [of _ hi] exI [of _ ti]) simp
qed

lemma simulates_pop:
  assumes "chain_inv c hi ti s" and "pcs s t = Deq_CasHead sh sn (qhead s) m"
  shows "simulates c hi s (DequeueAt t (Option.bind (nodes s m) data))
           (goto t (Deq_Read sh sn (qhead s) m) (s\<lparr>qhead := m\<rparr>))"
proof -
  from assms have "knows c hi ti (Deq_CasHead sh sn (qhead s) m :: 'a pc)"
    unfolding chain_inv_def by metis
  then have k: "linked c (qhead s) m" "before c ti (qhead s)" by simp_all
  from chain_inv_cas_head [OF assms(1) k] have
    inv: "chain_inv c (Suc hi) ti (s\<lparr>qhead := m\<rparr>)" and c: "c ! hi = qhead s" "c ! Suc hi = m"
    by auto
  then have len: "Suc hi < length c" by (auto simp: chain_inv_def shape_def)
  then have "before c (Suc hi) (qhead s)" using c by (auto simp: before_def)
  with k have "chain_inv c (Suc hi) ti (goto t (Deq_Read sh sn (qhead s) m) (s\<lparr>qhead := m\<rparr>))"
    by (intro chain_inv_goto [OF inv, where t = t]) auto
  moreover have "chain_data c hi s = Option.bind (nodes s m) data #
      chain_data c (Suc hi) (goto t (Deq_Read sh sn (qhead s) m) (s\<lparr>qhead := m\<rparr>))"
    using len c by (simp add: chain_data_def Cons_nth_drop_Suc [symmetric])
  ultimately show ?thesis
    unfolding simulates_def by (intro exI [of _ "[]"] exI [of _ "Suc hi"] exI [of _ ti]) simp
qed

lemma chain_knows: "chain_inv c hi ti s \<Longrightarrow> pcs s t = p \<Longrightarrow> knows c hi ti p"
  by (auto simp: chain_inv_def)

lemma reached_ends: "chain_inv c hi ti s \<Longrightarrow> reached c ti (qtail s) \<and> reached c hi (qhead s)"
  by (auto simp: chain_inv_def shape_def reached_def)

lemma loaded_link:
  "chain_inv c hi ti s \<Longrightarrow> reached c k a \<Longrightarrow> load_node s a = Some nd \<Longrightarrow>
   \<forall>m \<in> set_option (next_node nd). linked c a m"
  by (auto simp: chain_inv_def load_node_def intro: next_is_linked split: if_splits)

lemma enqueue_simulates:
  assumes inv: "chain_inv c hi ti s" and "is_enqueue (pcs s t)"
  shows "simulates c hi s (event_of t sp s) (enqueue_step t sp s (pcs s t))"
proof -
  note silent = simulates_silent [OF inv, where t = t]
  show ?thesis
  proof (cases "pcs s t")
    case (Enq_LoadTail n)
    then show ?thesis using reached_ends [OF inv] by (auto simp: event_of_def intro!: silent)
  next
    case (Enq_LoadNext n ct)
    with chain_knows [OF inv this] loaded_link [OF inv, of ti ct] show ?thesis
      by (auto simp: event_of_def intro!: silent split: option.split)
  next
    case (Enq_Check n ct nx)
    with chain_knows [OF inv this] show ?thesis
      by (auto simp: event_of_def intro!: silent split: option.split)
  next
    case (Enq_CasNext n ct)
    show ?thesis
    proof (cases "load_node s ct")
      case None
      with Enq_CasNext show ?thesis by (auto simp: event_of_def intro!: silent)
    next
      case (Some nd)
      then have "nodes s ct = Some nd" by (auto simp: load_node_def split: if_splits)
      with Some Enq_CasNext simulates_link [OF inv Enq_CasNext this] show ?thesis
        by (auto simp: event_of_def intro!: silent)
    qed
  next
    case (Enq_CasTail n ct)
    with chain_knows [OF inv this] show ?thesis
      by (auto simp: event_of_def intro!: simulates_cas_tail [OF inv])
  next
    case (Enq_Help n ct m)
    with chain_knows [OF inv this] show ?thesis
      by (auto simp: event_of_def intro!: simulates_cas_tail [OF inv])
  qed (use assms(2) in \<open>simp_all add: is_enqueue_def\<close>)
qed

lemma scan_simulates:
  assumes inv: "chain_inv c hi ti s"
  shows "simulates c hi s Silent (scan_step t s p)"
proof -
  note silent = simulates_silent [OF inv, where t = t] simulates_refl [OF inv]
  show ?thesis
  proof (cases p)
    case (Scan_Splice us)
    then show ?thesis by (cases us) (auto intro!: silent)
  next
    case Scan_Lock
    then show ?thesis
      by (auto intro!: silent simp: lock_def split: option.split)
  next
    case (Scan_Loop rs kept rec)
    then show ?thesis by (cases rs) (auto intro!: silent)
  next
    case (Scan_Walk r rs kept rec cur)
    then show ?thesis by (cases cur) (auto intro!: silent split: option.split)
  next
    case (Scan_Free rs)
    then show ?thesis by (cases rs) (auto intro!: silent)
  qed (auto intro!: silent)
qed

lemma dequeue_simulates:
  assumes inv: "chain_inv c hi ti s" and "\<not> is_enqueue (pcs s t)" "\<not> is_scan (pcs s t)"
  shows "simulates c hi s (event_of t sp s) (dequeue_step t a sp s (pcs s t))"
proof -
  note silent = simulates_silent [OF inv, where t = t] simulates_refl [OF inv]
  note hpd = simulates_hpd_or_stuck [OF inv _ _ and_goto_publish]
    simulates_hpd_or_stuck [OF inv _ _ and_goto_unpublish]
  note ev [simp] = event_of_def
  have le: "hi \<le> ti" and tl: "ti < length c" "qtail s = c ! ti"
    using inv by (auto simp: chain_inv_def shape_def)
  show ?thesis
  proof (cases "pcs s t")
    case Deq_AcqHead
    then show ?thesis by (auto intro!: simulates_acquire_into [OF inv])
  next
    case (Deq_AcqNext sh)
    then show ?thesis by (auto intro!: simulates_acquire_into [OF inv])
  next
    case (Deq_LoadHead sh sn)
    then show ?thesis using reached_ends [OF inv] by (auto intro!: silent)
  next
    case (Deq_ProtHead sh sn ch)
    with chain_knows [OF inv this] show ?thesis by (auto intro!: hpd)
  next
    case (Deq_Check1 sh sn ch)
    with chain_knows [OF inv this] show ?thesis by (auto intro!: silent)
  next
    case (Deq_LoadTail sh sn ch)
    with chain_knows [OF inv this] obtain i where "i \<le> hi" "c ! i = ch"
      by (auto simp: reached_def)
    with le tl have "in_order c ti ch (qtail s)"
      unfolding in_order_def by (intro exI [of _ i] exI [of _ ti]) simp
    with Deq_LoadTail chain_knows [OF inv Deq_LoadTail] show ?thesis by (auto intro!: silent)
  next
    case (Deq_LoadNext sh sn ch ct)
    with chain_knows [OF inv this] loaded_link [OF inv, of hi ch] show ?thesis
      by (auto intro!: silent split: option.split)
  next
    case (Deq_ProtNext sh sn ch ct nx)
    with chain_knows [OF inv this] show ?thesis by (auto intro!: hpd)
  next
    case (Deq_Check2 sh sn ch ct nx)
    have "before c ti ch" if "in_order c ti ch ct" "ch \<noteq> ct"
      using that unfolding in_order_def before_def by (metis le_neq_implies_less
          less_le_trans order.strict_trans)
    with Deq_Check2 chain_knows [OF inv Deq_Check2] show ?thesis
      by (auto intro!: silent split: option.split)
  next
    case (Deq_Empty1 sh sn)
    then show ?thesis by (auto intro!: hpd)
  next
    case (Deq_Empty2 sn)
    then show ?thesis by (auto intro!: hpd)
  next
    case (Deq_Help sh sn ct m)
    with chain_knows [OF inv this] show ?thesis
      by (auto intro!: simulates_cas_tail [OF inv])
  next
    case (Deq_CasHead sh sn ch m)
    then show ?thesis
      using simulates_pop [OF inv, of t sh sn m] by (auto intro!: silent)
  next
    case (Deq_Read sh sn ch m)
    with chain_knows [OF inv this] show ?thesis by (auto intro!: silent split: option.split)
  next
    case (Deq_Rel1 sh sn ch v)
    with chain_knows [OF inv this] show ?thesis by (auto intro!: hpd)
  next
    case (Deq_Rel2 sn ch v)
    with chain_knows [OF inv this] show ?thesis by (auto intro!: hpd)
  next
    case (Deq_Retire ch v)
    then show ?thesis by (auto simp: Let_def intro!: silent)
  next
    case (Deq_Commit v)
    then show ?thesis
      by (auto intro!: silent split: option.split sum.split hp_error.split)
  qed (use assms(2,3) in \<open>auto simp: is_enqueue_def is_scan_def intro!: silent\<close>)
qed

lemma exec_simulates:
  "chain_inv c hi ti s \<Longrightarrow> simulates c hi s (event_of t sp s) (mq_exec t a sp s)"
proof -
  assume inv: "chain_inv c hi ti s"
  have "event_of t sp s = Silent" if "is_scan (pcs s t)"
    using that by (cases "pcs s t") (simp_all add: event_of_def is_scan_def)
  with enqueue_simulates [OF inv] dequeue_simulates [OF inv] scan_simulates [OF inv]
  show ?thesis unfolding mq_exec_def by auto
qed

lemma private_nodes_alloc:
  assumes "private_nodes c s" and "nodes s a = None" and "a \<notin> set c"
  shows "private_nodes c (goto t (Enq_LoadTail a) (s\<lparr>nodes := (nodes s)(a \<mapsto> \<lparr>data = x, next_node = None\<rparr>)\<rparr>))"
proof -
  have "new_of (pcs s u) \<noteq> Some a" for u
    using assms(1,2) unfolding private_nodes_def by fastforce
  with assms(1,3) show ?thesis
    by (auto simp: private_nodes_def)
qed

lemma chain_allocated: "shape c hi ti s \<Longrightarrow> a \<in> set c \<Longrightarrow> nodes s a \<noteq> None"
  by (fastforce simp: shape_def in_set_conv_nth)

lemma call_simulates:
  assumes inv: "chain_inv c hi ti s" and "nodes s a = None"
  shows "simulates c hi s Silent (mq_start t a op s)"
proof -
  note silent = simulates_silent [OF inv, where t = t] simulates_refl [OF inv]
  show ?thesis
  proof (cases op)
    case (Enqueue x)
    let ?s = "goto t (Enq_LoadTail a) (s\<lparr>nodes := (nodes s)(a \<mapsto> \<lparr>data = Some x, next_node = None\<rparr>)\<rparr>)"
    from inv have sh: "shape c hi ti s" by (simp add: chain_inv_def)
    from assms(2) chain_allocated [OF sh] have a: "a \<notin> set c" by metis
    then have "c ! i \<noteq> a" if "i < length c" for i using that nth_mem by metis
    with sh have "shape c hi ti ?s" by (simp add: shape_def)
    with inv private_nodes_alloc [OF _ assms(2) a] have "chain_inv c hi ti ?s"
      by (simp add: chain_inv_def)
    moreover have "chain_data c hi ?s = chain_data c hi s"
      using a by (auto simp: chain_data_def dest: in_set_dropD)
    ultimately show ?thesis using Enqueue by (auto simp: mq_start_def intro: simulates_sameI)
  next
    case Dequeue
    then show ?thesis by (auto simp: mq_start_def intro!: silent)
  next
    case StartScan
    then show ?thesis
      by (auto simp: mq_start_def scan_begin_def lock_def intro!: silent split: option.split)
  next
    case Register
    then show ?thesis
      by (cases "RegisterThread t (hpd s)")
        (auto simp: mq_start_def and_goto_def intro!: silent)
  qed
qed

lemma chain_inv_init: "chain_inv [d] 0 0 (MPMCQueue_new d)"
  by (simp add: chain_inv_def shape_def private_nodes_def MPMCQueue_new_def)

lemma mq_step_simulates:
  assumes "mq_step s s'" and "chain_inv c hi ti s"
  shows "\<exists>e. simulates c hi s e s'"
  using assms by cases (auto intro: call_simulates exec_simulates)

interpretation mq_chain: invariant_system mq_init mq_step chained
proof unfold_locales
  fix s :: "'a MPMCQueue"
  assume "mq_init s"
  then show "chained s" by (auto simp: mq_init_def chained_def intro: chain_inv_init)
next
  fix s s' :: "'a MPMCQueue"
  assume "mq_step s s'" "chained s"
  then obtain c hi ti where "chain_inv c hi ti s" by (auto simp: chained_def)
  from mq_step_simulates [OF \<open>mq_step s s'\<close> this] show "chained s'"
    by (auto simp: simulates_def chained_def)
qed

subsection \<open>Contents\<close>

lemma node_list_drop:
  assumes "shape c hi ti s" and "i < length c"
  shows "node_list (nodes s) (Some (c ! i)) (drop i c)"
  using assms(2)
proof (induction "length c - i" arbitrary: i)
  case 0
  then show ?case by simp
next
  case (Suc k)
  from assms(1) Suc.prems obtain nd where nd: "nodes s (c ! i) = Some nd"
    "next_node nd = (if Suc i < length c then Some (c ! Suc i) else None)"
    by (auto simp: shape_def)
  show ?case
  proof (cases "Suc i < length c")
    case True
    with Suc nd show ?thesis by (simp add: Cons_nth_drop_Suc [symmetric])
  next
    case False
    with Suc nd have "drop i c = [c ! i]" by (simp add: Cons_nth_drop_Suc [symmetric])
    with False nd show ?thesis by simp
  qed
qed

lemma node_list_unique: "node_list ns p xs \<Longrightarrow> node_list ns p ys \<Longrightarrow> xs = ys"
proof (induction xs arbitrary: p ys)
  case Nil
  then show ?case by (cases ys) auto
next
  case (Cons a as)
  then show ?case by (cases ys) (auto split: option.splits)
qed

lemma contents_chain:
  assumes "chain_inv c hi ti s"
  shows "contents s xs \<longleftrightarrow> xs = chain_data c hi s"
proof -
  from assms have sh: "shape c hi ti s" by (simp add: chain_inv_def)
  then have hd: "qhead s = c ! hi" "hi < length c" by (simp_all add: shape_ends)
  with node_list_drop [OF sh hd(2)]
  have l: "node_list (nodes s) (Some (qhead s)) (qhead s # drop (Suc hi) c)"
    by (simp add: Cons_nth_drop_Suc)
  show ?thesis
    unfolding contents_def chain_data_def using l node_list_unique by blast
qed

lemma empty_chain:
  assumes "chain_inv c hi ti s" and "reached c hi ch" and "load_node s ch = Some nd"
    and "next_node nd = None"
  shows "chain_data c hi s = []"
proof -
  from assms(1) have sh: "shape c hi ti s" by (simp add: chain_inv_def)
  from assms(2) obtain i where i: "i \<le> hi" "i < length c" "c ! i = ch" by (auto simp: reached_def)
  from assms(3) have "nodes s ch = Some nd" by (auto simp: load_node_def split: if_splits)
  with shape_node [OF sh i(2)] i assms(4) have "\<not> Suc i < length c" by auto
  with i show ?thesis by (simp add: chain_data_def)
qed

subsection \<open>Properties\<close>

text \<open>In every reachable state of the queue, under every interleaving, the nodes behind
  the head form a list with definite contents, and every step of every thread is a step of
  the sequential FIFO queue on these contents: the successful \<open>CAS\<close> on a \<open>next\<close> field appends
  the enqueued element, the successful \<open>CAS\<close> on the head removes the first element, and all
  other accesses, spurious failures and helping included, change nothing.\<close>

theorem queue_linearizable:
  assumes "reach mq_init mq_step s"
  shows "\<exists>q q'. (\<forall>x. contents s x \<longleftrightarrow> x = q) \<and> (\<forall>x. contents (mq_exec t a sp s) x \<longleftrightarrow> x = q') \<and>
     fifo_step q (event_of t sp s) q'"
proof -
  from mq_chain.reach_inv [OF assms] obtain c hi ti where inv: "chain_inv c hi ti s"
    by (auto simp: chained_def)
  from exec_simulates [OF inv, of t sp a] obtain d hi' ti' where
    "chain_inv (c @ d) hi' ti' (mq_exec t a sp s)"
    "fifo_step (chain_data c hi s) (event_of t sp s) (chain_data (c @ d) hi' (mq_exec t a sp s))"
    by (auto simp: simulates_def)
  with contents_chain [OF inv] contents_chain show ?thesis by blast
qed

theorem queue_linearizable_witness:
  "\<exists>s q. reach mq_init mq_step (s :: nat MPMCQueue) \<and>
     contents s q \<and> contents (mq_exec 0 9 False s) (q @ [Some 10])"
proof -
  let ?xs = "[Call 0 1 (Enqueue 10), Run 0 9 False, Run 0 9 False, Run 0 9 False] :: nat move list"
  have "map_option (event_of 0 False) (mq_run ?xs (MPMCQueue_new 0)) = Some (EnqueueAt 0 (Some 10))"
    by code_simp
  then obtain s where "mq_run ?xs (MPMCQueue_new 0) = Some s"
    and ev: "event_of 0 False s = EnqueueAt 0 (Some 10)" by auto
  from mq_run_reach [OF this(1) reach_new] have r: "reach mq_init mq_step s" .
  from queue_linearizable [OF r, of 0 9 False] ev r show ?thesis by auto
qed

text \<open>A \<open>dequeue\<close> that reads a null \<open>next\<close> behind the head it loaded, which is the only
  way it can report an empty queue, reads it at a moment when the queue is empty.\<close>

theorem null_next_means_empty:
  assumes "reach mq_init mq_step s" and "pcs s t = Deq_LoadNext sh sn ch ct"
    and "pcs (mq_exec t a sp s) t = Deq_ProtNext sh sn ch ct None"
  shows "contents s []"
proof -
  from mq_chain.reach_inv [OF assms(1)] obtain c hi ti where inv: "chain_inv c hi ti s"
    by (auto simp: chained_def)
  from assms(2,3) obtain nd where "load_node s ch = Some nd" "next_node nd = None"
    by (auto simp: mq_exec_def is_enqueue_def is_scan_def split: option.splits)
  with inv chain_knows [OF inv assms(2)] have "chain_data c hi s = []"
    by (intro empty_chain) auto
  with contents_chain [OF inv] show ?thesis by simp
qed

theorem null_next_means_empty_witness:
  "\<exists>s. reach mq_init mq_step (s :: nat MPMCQueue) \<and> pcs s 0 = Deq_LoadNext 7 8 0 0 \<and> contents s []"
proof -
  let ?xs = "[Call 0 5 Dequeue, Run 0 7 False, Run 0 8 False, Run 0 9 False, Run 0 9 False,
    Run 0 9 False, Run 0 9 False] :: nat move list"
  have "map_option (\<lambda>s. (pcs s 0, pcs (mq_exec 0 9 False s) 0)) (mq_run ?xs (MPMCQueue_new 0))
      = Some (Deq_LoadNext 7 8 0 0, Deq_ProtNext 7 8 0 0 None)"
    by code_simp
  then obtain s where "mq_run ?xs (MPMCQueue_new 0) = Some s" and pc: "pcs s 0 = Deq_LoadNext 7 8 0 0"
    "pcs (mq_exec 0 9 False s) 0 = Deq_ProtNext 7 8 0 0 None" by auto
  from mq_run_reach [OF this(1) reach_new] have r: "reach mq_init mq_step s" .
  from null_next_means_empty [OF r pc] r pc(1) show ?thesis by blast
qed

end
