(* ===== verification/MPMC_Reclaim.thy ===== *)
theory MPMC_Reclaim
  imports MPMC_Linear
begin

text \<open>
  Memory reclamation in the queue. Dequeues publish the head and its successor before they
  read through them and check the head again; this theory shows that no scan, however it
  interleaves with them, deletes a node that such a dequeue is about to read. Enqueues
  publish nothing: a schedule in which one reads a deleted node is exhibited. Slots are acquired in
  one step here; \<open>MPMC_Acquire\<close> shows what is left of these results when they are not.
\<close>

subsection \<open>Where retired nodes are, and what threads rely on\<close>

fun scanned :: "'a pc \<Rightarrow> retired set" where
  "scanned (Scan_Loop rs kept rec) = set rs \<union> set kept \<union> set rec"
| "scanned (Scan_Walk r rs kept rec cur) = insert r (set rs \<union> set kept \<union> set rec)"
| "scanned (Scan_Free rec) = set rec"
| "scanned _ = {}"

text \<open>Retired nodes that the scan has already found unprotected.\<close>

fun doomed :: "'a pc \<Rightarrow> retired set" where
  "doomed (Scan_Loop rs kept rec) = set rec"
| "doomed (Scan_Walk r rs kept rec cur) = set rec"
| "doomed (Scan_Free rec) = set rec"
| "doomed _ = {}"

fun walking :: "'a pc \<Rightarrow> (retired \<times> addr ptr) option" where
  "walking (Scan_Walk r rs kept rec cur) = Some (r, cur)"
| "walking _ = None"

definition limbo :: "'a MPMCQueue \<Rightarrow> retired set" where
  "limbo s = (\<Union>t. set (retired_list (tl_thread_data (hpd s) t))) \<union>
     set (global_retired (hpd s)) \<union> (\<Union>t. scanned (pcs s t))"

text \<open>Slots a thread holds, pointers it has published, and publications it has validated
  by finding the head unchanged afterwards.\<close>

fun holds :: "'a pc \<Rightarrow> addr list" where
  "holds (Deq_AcqNext sh) = [sh]"
| "holds (Deq_LoadHead sh sn) = [sh, sn]"
| "holds (Deq_ProtHead sh sn ch) = [sh, sn]"
| "holds (Deq_Check1 sh sn ch) = [sh, sn]"
| "holds (Deq_LoadTail sh sn ch) = [sh, sn]"
| "holds (Deq_LoadNext sh sn ch ct) = [sh, sn]"
| "holds (Deq_ProtNext sh sn ch ct nx) = [sh, sn]"
| "holds (Deq_Check2 sh sn ch ct nx) = [sh, sn]"
| "holds (Deq_Empty1 sh sn) = [sh, sn]"
| "holds (Deq_Empty2 sn) = [sn]"
| "holds (Deq_Help sh sn ct m) = [sh, sn]"
| "holds (Deq_CasHead sh sn ch m) = [sh, sn]"
| "holds (Deq_Read sh sn ch m) = [sh, sn]"
| "holds (Deq_Rel1 sh sn ch v) = [sh, sn]"
| "holds (Deq_Rel2 sn ch v) = [sn]"
| "holds _ = []"

fun published :: "'a pc \<Rightarrow> (addr \<times> addr ptr) set" where
  "published (Deq_Check1 sh sn ch) = {(sh, Some ch)}"
| "published (Deq_LoadTail sh sn ch) = {(sh, Some ch)}"
| "published (Deq_LoadNext sh sn ch ct) = {(sh, Some ch)}"
| "published (Deq_ProtNext sh sn ch ct nx) = {(sh, Some ch)}"
| "published (Deq_Check2 sh sn ch ct nx) = {(sh, Some ch), (sn, nx)}"
| "published (Deq_CasHead sh sn ch m) = {(sn, Some m)}"
| "published (Deq_Read sh sn ch m) = {(sn, Some m)}"
| "published _ = {}"

fun validated :: "'a pc \<Rightarrow> (addr \<times> addr) set" where
  "validated (Deq_LoadTail sh sn ch) = {(sh, ch)}"
| "validated (Deq_LoadNext sh sn ch ct) = {(sh, ch)}"
| "validated (Deq_ProtNext sh sn ch ct nx) = {(sh, ch)}"
| "validated (Deq_Check2 sh sn ch ct nx) = {(sh, ch)}"
| "validated (Deq_CasHead sh sn ch m) = {(sn, m)}"
| "validated (Deq_Read sh sn ch m) = {(sn, m)}"
| "validated _ = {}"

definition popped_inv :: "addr list \<Rightarrow> nat \<Rightarrow> 'a MPMCQueue \<Rightarrow> bool" where
  "popped_inv c hi s \<longleftrightarrow>
     (\<forall>a \<in> freed s. before c hi a) \<and> (\<forall>r \<in> limbo s. \<exists>a. ptr r = Some a \<and> before c hi a)"

definition slots_inv :: "'a MPMCQueue \<Rightarrow> bool" where
  "slots_inv s \<longleftrightarrow>
     dom_wf (hpd s) \<and> list_mutex (hpd s) = None \<and>
     (\<forall>t. distinct (holds (pcs s t)) \<and>
        (\<forall>a \<in> set (holds (pcs s t)). map_option owner (slots (hpd s) a) = Some (Some t)) \<and>
        (\<forall>(a, p) \<in> published (pcs s t). map_option hazard_ptr (slots (hpd s) a) = Some p))"

text \<open>A walk that checks a retired node still has a slot ahead of it.\<close>

definition ahead :: "'a MPMCQueue \<Rightarrow> addr ptr \<Rightarrow> addr \<Rightarrow> bool" where
  "ahead s cur a \<longleftrightarrow> (\<exists>xs. slot_list (slots (hpd s)) cur xs \<and> a \<in> set xs)"

definition safe_inv :: "'a MPMCQueue \<Rightarrow> bool" where
  "safe_inv s \<longleftrightarrow>
     (\<forall>t a n. (a, n) \<in> validated (pcs s t) \<longrightarrow>
        n \<notin> freed s \<and>
        (\<forall>u. \<forall>r \<in> doomed (pcs s u). ptr r \<noteq> Some n) \<and>
        (\<forall>u r cur. walking (pcs s u) = Some (r, cur) \<longrightarrow> ptr r = Some n \<longrightarrow> ahead s cur a))"

text \<open>Neither retired nor deleted.\<close>

definition clean :: "'a MPMCQueue \<Rightarrow> addr \<Rightarrow> bool" where
  "clean s n \<longleftrightarrow> n \<notin> freed s \<and> (\<forall>r \<in> limbo s. ptr r \<noteq> Some n)"

definition mem_inv :: "addr list \<Rightarrow> nat \<Rightarrow> 'a MPMCQueue \<Rightarrow> bool" where
  "mem_inv c hi s \<longleftrightarrow> popped_inv c hi s \<and> slots_inv s \<and> safe_inv s"

text \<open>The state of the queue together with its chain.\<close>

definition reclaim_inv :: "'a MPMCQueue \<Rightarrow> bool" where
  "reclaim_inv s \<longleftrightarrow> (\<exists>c hi ti. chain_inv c hi ti s \<and> mem_inv c hi s)"

text \<open>
  What a thread may resume with once it holds one more slot.
\<close>

definition resumes :: "'a pc \<Rightarrow> (addr \<Rightarrow> 'a pc) \<Rightarrow> bool" where
  "resumes p k \<longleftrightarrow> scanned p = {} \<and>
     (\<forall>sl. set (holds (k sl)) = insert sl (set (holds p)) \<and> (sl \<notin> set (holds p) \<longrightarrow> distinct (holds (k sl))) \<and>
       scanned (k sl) = {} \<and> published (k sl) = {} \<and> validated (k sl) = {})"

text \<open>What the next access of a \<open>dequeue\<close> reads through is there.\<close>

definition reads_alive :: "'a MPMCQueue \<Rightarrow> tid \<Rightarrow> bool" where
  "reads_alive s t \<longleftrightarrow>
     (case pcs s t of
        Deq_LoadNext sh sn ch ct \<Rightarrow> \<exists>nd. load_node s ch = Some nd
      | Deq_Read sh sn ch m \<Rightarrow> \<exists>nd. load_node s m = Some nd \<and> nodes s m = Some nd
      | _ \<Rightarrow> True)"

subsection \<open>Elementary consequences\<close>

lemma validated_holds: "(a, n) \<in> validated p \<Longrightarrow> a \<in> set (holds p)"
  by (cases p) auto

lemma validated_published: "(a, n) \<in> validated p \<Longrightarrow> (a, Some n) \<in> published p"
  by (cases p) auto

lemma published_holds: "(a, q) \<in> published p \<Longrightarrow> a \<in> set (holds p)"
  by (cases p) auto

lemma doomed_scanned: "doomed p \<subseteq> scanned p"
  by (cases p) auto

lemma walking_scanned: "walking p = Some (r, cur) \<Longrightarrow> r \<in> scanned p"
  by (cases p) auto

lemma popped_inv_mono: "popped_inv c hi s \<Longrightarrow> hi \<le> hi' \<Longrightarrow> popped_inv (c @ d) hi' s"
  unfolding popped_inv_def by (meson before_mono)

lemma holds_exclusive:
  assumes "slots_inv s" and "a \<in> set (holds (pcs s t))" and "a \<in> set (holds (pcs s u))"
  shows "t = u"
proof -
  from assms have "map_option owner (slots (hpd s) a) = Some (Some t)"
    "map_option owner (slots (hpd s) a) = Some (Some u)"
    unfolding slots_inv_def by blast+
  then show ?thesis by simp
qed

text \<open>A node that is not behind the head is neither retired nor deleted.\<close>

lemma not_popped:
  assumes "popped_inv c hi s" and "\<not> before c hi n"
  shows "n \<notin> freed s" and "r \<in> limbo s \<Longrightarrow> ptr r \<noteq> Some n"
  using assms by (auto simp: popped_inv_def)

lemma head_not_popped:
  assumes "chain_inv c hi ti s"
  shows "\<not> before c hi (qhead s)" and "linked c (qhead s) m \<Longrightarrow> \<not> before c hi m"
proof -
  from assms have sh: "shape c hi ti s" by (simp add: chain_inv_def)
  note hd = shape_ends [OF sh]
  show "\<not> before c hi (qhead s)"
    using shape_nth_inj [OF sh, of _ hi] hd by (auto simp: before_def)
  assume "linked c (qhead s) m"
  then obtain i where i: "Suc i < length c" "c ! i = qhead s" "c ! Suc i = m"
    by (auto simp: linked_def)
  with hd have "i = hi" by (auto dest: shape_nth_inj [OF sh, of i hi, rotated 2])
  with i show "\<not> before c hi m"
    using shape_nth_inj [OF sh, of _ "Suc hi"] by (fastforce simp: before_def)
qed

lemma ahead_head:
  assumes "slots_inv s" and "a \<in> dom (slots (hpd s))"
  shows "ahead s (Hazard_Pointer.head (hpd s)) a"
  using assms by (auto simp: slots_inv_def dom_wf_def ahead_def)

lemma ahead_step:
  assumes "ahead s (Some b) a" and "slots (hpd s) b = Some hp" and "b \<noteq> a"
  shows "ahead s (next_slot hp) a"
proof -
  from assms(1) obtain xs where "slot_list (slots (hpd s)) (Some b) xs" "a \<in> set xs"
    by (auto simp: ahead_def)
  with assms(2,3) show ?thesis
    by (cases xs) (auto simp: ahead_def)
qed

lemma not_ahead_None [simp]: "\<not> ahead s None a"
  unfolding ahead_def by (metis list.set_cases option.distinct(1) slot_list.simps(2))

subsection \<open>Frame rules\<close>

lemma popped_frame:
  "popped_inv c hi s \<Longrightarrow> freed s' = freed s \<Longrightarrow> limbo s' \<subseteq> limbo s \<Longrightarrow> popped_inv c hi s'"
  by (auto simp: popped_inv_def)

lemma limbo_goto:
  assumes "pcs s' = (pcs s)(t := q)" and "scanned q \<subseteq> limbo s"
    and "\<And>u. set (retired_list (tl_thread_data (hpd s') u)) \<subseteq> limbo s"
    and "set (global_retired (hpd s')) \<subseteq> limbo s"
  shows "limbo s' \<subseteq> limbo s"
proof -
  have "scanned (pcs s' u) \<subseteq> limbo s" for u
    using assms(1,2) by (cases "u = t") (auto simp: limbo_def)
  with assms(3,4) show ?thesis unfolding limbo_def [of s'] by blast
qed

lemma limbo_parts:
  "set (retired_list (tl_thread_data (hpd s) u)) \<subseteq> limbo s"
  "set (global_retired (hpd s)) \<subseteq> limbo s"
  "scanned (pcs s u) \<subseteq> limbo s"
  by (auto simp: limbo_def)

lemma slots_frame:
  assumes "slots_inv s" and "pcs s' = (pcs s)(t := q)"
    and "slots (hpd s') = slots (hpd s)" "Hazard_Pointer.head (hpd s') = Hazard_Pointer.head (hpd s)"
    and "list_mutex (hpd s') = list_mutex (hpd s)"
    and "distinct (holds q)" "set (holds q) \<subseteq> set (holds (pcs s t))"
    and "published q \<subseteq> published (pcs s t)"
  shows "slots_inv s'"
proof -
  have "dom_wf (hpd s') = dom_wf (hpd s)" using assms(3,4) by (rule dom_wf_cong)
  with assms show ?thesis unfolding slots_inv_def by (auto 4 4)
qed

lemma safe_frame:
  assumes "safe_inv s" and "freed s' = freed s" and "pcs s' = (pcs s)(t := q)"
    and "doomed q = doomed (pcs s t)" and "walking q = walking (pcs s t)"
    and "\<And>cur a. ahead s cur a \<Longrightarrow> ahead s' cur a"
    and "\<And>a n. (a, n) \<in> validated q \<Longrightarrow> (a, n) \<in> validated (pcs s t) \<or> clean s n"
  shows "safe_inv s'"
  unfolding safe_inv_def
proof (intro allI impI)
  fix u a n
  assume "(a, n) \<in> validated (pcs s' u)"
  with assms(3,7) have *: "(a, n) \<in> validated (pcs s u) \<or> clean s n"
    by (cases "u = t") auto
  have d: "doomed (pcs s' v) = doomed (pcs s v)" and w: "walking (pcs s' v) = walking (pcs s v)" for v
    using assms(3-5) by (auto split: if_splits)
  from * show "n \<notin> freed s' \<and> (\<forall>u. \<forall>r\<in>doomed (pcs s' u). ptr r \<noteq> Some n) \<and>
      (\<forall>u r cur. walking (pcs s' u) = Some (r, cur) \<longrightarrow> ptr r = Some n \<longrightarrow> ahead s' cur a)"
  proof
    assume "(a, n) \<in> validated (pcs s u)"
    with assms(1,2,6) show ?thesis unfolding d w safe_inv_def by metis
  next
    assume "clean s n"
    then show ?thesis
      using assms(2) doomed_scanned walking_scanned limbo_parts(3) unfolding d w clean_def by blast
  qed
qed

text \<open>
  A step of thread \<open>t\<close> that retires and deletes nothing, keeps the walks of the scans on
  their way, and validates only what it validated before or what is still clean.
\<close>

lemma mem_step:
  assumes "mem_inv c hi s" and "pcs s' = (pcs s)(t := q)" and "freed s' = freed s"
    and "scanned q = {}" "scanned (pcs s t) = {}"
    and "tl_thread_data (hpd s') = tl_thread_data (hpd s)"
    and "global_retired (hpd s') = global_retired (hpd s)"
    and "slots_inv s'" and "\<And>cur a. ahead s cur a \<Longrightarrow> ahead s' cur a"
    and "\<And>a n. (a, n) \<in> validated q \<Longrightarrow> (a, n) \<in> validated (pcs s t) \<or> clean s n"
  shows "mem_inv c hi s'"
proof -
  have "doomed q = {}" "doomed (pcs s t) = {}" using assms(4,5) doomed_scanned by blast+
  moreover have "walking q = None" "walking (pcs s t) = None"
    using assms(4,5) walking_scanned by (metis empty_iff option.exhaust surj_pair)+
  ultimately have "safe_inv s'"
    using assms by (intro safe_frame [of s s' t q]) (auto simp: mem_inv_def)
  moreover have "limbo s' \<subseteq> limbo s"
    by (rule limbo_goto [OF assms(2)]) (simp_all add: assms(4,6,7) limbo_parts)
  then have "popped_inv c hi s'"
    using assms(1,3) by (intro popped_frame [of c hi s s']) (auto simp: mem_inv_def)
  ultimately show ?thesis using assms(8) by (simp add: mem_inv_def)
qed

lemma ahead_cong:
  assumes "\<And>b. map_option next_slot (slots (hpd s') b) = map_option next_slot (slots (hpd s) b)"
  shows "ahead s cur a \<Longrightarrow> ahead s' cur a"
  unfolding ahead_def using slot_list_cong [of _ "slots (hpd s')" "slots (hpd s)" cur] assms by blast

text \<open>A step that leaves the domain alone.\<close>

lemma mem_goto:
  assumes "mem_inv c hi s" and "pcs s' = (pcs s)(t := q)" and "hpd s' = hpd s" "freed s' = freed s"
    and "scanned q = {}" "scanned (pcs s t) = {}"
    and "distinct (holds q)" "set (holds q) \<subseteq> set (holds (pcs s t))"
    and "published q \<subseteq> published (pcs s t)"
    and "\<And>a n. (a, n) \<in> validated q \<Longrightarrow> (a, n) \<in> validated (pcs s t) \<or> clean s n"
  shows "mem_inv c hi s'"
proof (rule mem_step [OF assms(1,2,4,5,6)])
  show "slots_inv s'"
    using assms by (intro slots_frame [of s s' t q]) (auto simp: mem_inv_def)
  show "ahead s' cur a" if "ahead s cur a" for cur a
    using ahead_cong [OF _ that, of s'] assms(3) by simp
qed (use assms(3,10) in auto)

subsection \<open>Operations on the slots\<close>

lemma slots_step:
  assumes inv: "slots_inv s" and pcs: "pcs s' = (pcs s)(t := q)"
    and dom: "dom_wf (hpd s')" "list_mutex (hpd s') = None"
    and others: "\<And>u b. u \<noteq> t \<Longrightarrow> b \<in> set (holds (pcs s u)) \<Longrightarrow>
      slots (hpd s') b = slots (hpd s) b"
    and own: "distinct (holds q)"
      "\<And>b. b \<in> set (holds q) \<Longrightarrow> map_option owner (slots (hpd s') b) = Some (Some t)"
      "\<And>b p. (b, p) \<in> published q \<Longrightarrow> map_option hazard_ptr (slots (hpd s') b) = Some p"
  shows "slots_inv s'"
  unfolding slots_inv_def
proof (intro conjI allI dom ballI)
  fix u
  show "distinct (holds (pcs s' u))"
    using inv own(1) by (auto simp: slots_inv_def pcs)
  show "map_option owner (slots (hpd s') b) = Some (Some u)" if "b \<in> set (holds (pcs s' u))" for b
    using that inv own(2) others [of u b] by (cases "u = t") (auto simp: slots_inv_def pcs)
  show "case x of (b, p) \<Rightarrow> map_option hazard_ptr (slots (hpd s') b) = Some p"
    if "x \<in> published (pcs s' u)" for x
  proof (cases "u = t")
    case True
    with that own(3) show ?thesis by (auto simp: pcs)
  next
    case False
    with that have x: "x \<in> published (pcs s u)" by (simp add: pcs)
    obtain b p where bp: "x = (b, p)" by (cases x)
    with x published_holds False have "slots (hpd s') b = slots (hpd s) b" by (auto intro: others)
    with x bp inv show ?thesis unfolding slots_inv_def by fastforce
  qed
qed

lemma held_slot:
  assumes "slots_inv s" and "sl \<in> set (holds (pcs s t))"
  obtains hp where "slots (hpd s) sl = Some hp" "owner hp = Some t"
    "\<And>u. u \<noteq> t \<Longrightarrow> sl \<notin> set (holds (pcs s u))"
proof -
  from assms have "map_option owner (slots (hpd s) sl) = Some (Some t)"
    by (auto simp: slots_inv_def)
  with that holds_exclusive [OF assms] show thesis by fastforce
qed

lemma mem_publish:
  assumes inv: "mem_inv c hi s" and sl: "sl \<in> set (holds (pcs s t))"
    and q: "holds q = holds (pcs s t)" "scanned q = {}" "scanned (pcs s t) = {}"
      "validated q \<subseteq> validated (pcs s t)"
    and pub: "\<And>a p. (a, p) \<in> published q \<Longrightarrow> (a = sl \<and> p = v) \<or> (a \<noteq> sl \<and> (a, p) \<in> published (pcs s t))"
  shows "mem_inv c hi (and_goto t q s (publish sl v s))"
proof -
  from inv have si: "slots_inv s" by (simp add: mem_inv_def)
  from held_slot [OF si sl] obtain hp where hp: "slots (hpd s) sl = Some hp" "owner hp = Some t"
    and other: "\<And>u. u \<noteq> t \<Longrightarrow> sl \<notin> set (holds (pcs s u))" by blast
  let ?s = "goto t q (s\<lparr>hpd := upd_slot sl (\<lambda>h. h\<lparr>hazard_ptr := v\<rparr>) (hpd s)\<rparr>)"
  have eq: "and_goto t q s (publish sl v s) = ?s"
    using hp by (simp add: and_goto_def publish_def protect_def)
  have "slots_inv ?s"
  proof (rule slots_step [OF si])
    show "dom_wf (hpd ?s)" using si by (auto simp: slots_inv_def intro: dom_wf_upd_slot)
    fix b p assume "(b, p) \<in> published q"
    from pub [OF this] si hp show "map_option hazard_ptr (slots (hpd ?s) b) = Some p"
      by (auto simp: slots_inv_def)
  qed (use si hp q other in \<open>auto simp: slots_inv_def\<close>)
  moreover have "ahead ?s cur a" if "ahead s cur a" for cur a
    using that by (rule ahead_cong [rotated]) (simp add: option.map_comp comp_def)
  ultimately show ?thesis
    unfolding eq using q by (intro mem_step [OF inv, of _ t q]) auto
qed

lemma mem_unpublish:
  assumes inv: "mem_inv c hi s" and sl: "sl \<in> set (holds (pcs s t))"
    and q: "distinct (holds q)" "set (holds q) \<subseteq> set (holds (pcs s t)) - {sl}"
      "scanned q = {}" "scanned (pcs s t) = {}" "published q = {}"
  shows "mem_inv c hi (and_goto t q s (unpublish t sl s))"
proof -
  from inv have si: "slots_inv s" by (simp add: mem_inv_def)
  from held_slot [OF si sl] obtain hp where hp: "slots (hpd s) sl = Some hp" "owner hp = Some t"
    and other: "\<And>u. u \<noteq> t \<Longrightarrow> sl \<notin> set (holds (pcs s u))" by blast
  let ?d = "upd_slot sl (\<lambda>h. h\<lparr>owner := None\<rparr>) (upd_slot sl (\<lambda>h. h\<lparr>hazard_ptr := None\<rparr>) (hpd s))"
  let ?s = "goto t q (s\<lparr>hpd := ?d\<rparr>)"
  have eq: "and_goto t q s (unpublish t sl s) = ?s"
    using hp by (simp add: and_goto_def unpublish_def holder_release_def release_def Let_def)
  have "slots_inv ?s"
  proof (rule slots_step [OF si])
    show "dom_wf (hpd ?s)" using si by (auto simp: slots_inv_def intro!: dom_wf_upd_slot)
    fix b assume "b \<in> set (holds q)"
    with q(2) si show "map_option owner (slots (hpd ?s) b) = Some (Some t)"
      by (auto simp: slots_inv_def)
  qed (use si hp q other in \<open>auto simp: slots_inv_def\<close>)
  moreover have "ahead ?s cur a" if "ahead s cur a" for cur a
    using that by (rule ahead_cong [rotated]) (simp add: option.map_comp comp_def)
  moreover have "validated q = {}" using q(5) validated_published by fast
  ultimately show ?thesis
    unfolding eq using q by (intro mem_step [OF inv, of _ t q]) auto
qed

lemma mem_reuse:
  assumes inv: "mem_inv c hi s" and k: "resumes (pcs s t) k"
    and sl: "slots (hpd s) sl = Some hp" "owner hp = None"
  shows "mem_inv c hi (goto t (k sl) (s\<lparr>hpd := upd_slot sl (\<lambda>h. h\<lparr>owner := Some t\<rparr>) (hpd s)\<rparr>))"
    (is "mem_inv c hi ?s")
proof -
  from inv have si: "slots_inv s" by (simp add: mem_inv_def)
  have owned: "map_option owner (slots (hpd s) b) = Some (Some u)" if "b \<in> set (holds (pcs s u))" for u b
    using that si by (auto simp: slots_inv_def)
  have free: "sl \<notin> set (holds (pcs s u))" for u
    using owned [of sl u] sl by auto
  have "slots_inv ?s"
  proof (rule slots_step [OF si])
    show "dom_wf (hpd ?s)" using si by (auto simp: slots_inv_def intro: dom_wf_upd_slot)
    show "distinct (holds (k sl))" using free k by (simp add: resumes_def)
  qed (use si sl free owned k in \<open>auto simp: slots_inv_def resumes_def\<close>)
  moreover have "ahead ?s cur b" if "ahead s cur b" for cur b
    using that by (rule ahead_cong [rotated]) (simp add: option.map_comp comp_def)
  ultimately show ?thesis
    using k by (intro mem_step [OF inv, of _ t "k sl"]) (auto simp: resumes_def)
qed

lemma mem_fresh:
  assumes inv: "mem_inv c hi s" and k: "resumes (pcs s t) k" and a: "slots (hpd s) a = None"
  shows "mem_inv c hi (goto t (k a) (s\<lparr>hpd := (hpd s)\<lparr>slots := (slots (hpd s))(a \<mapsto> \<lparr>hazard_ptr = None,
      owner = Some t, next_slot = Hazard_Pointer.head (hpd s)\<rparr>), head := Some a\<rparr>\<rparr>))"
    (is "mem_inv c hi ?s")
proof -
  from inv have si: "slots_inv s" by (simp add: mem_inv_def)
  have owned: "map_option owner (slots (hpd s) b) = Some (Some u)" if "b \<in> set (holds (pcs s u))" for u b
    using that si by (auto simp: slots_inv_def)
  have free: "a \<notin> set (holds (pcs s u))" for u
    using owned [of a u] a by auto
  have "slots_inv ?s"
  proof (rule slots_step [OF si])
    show "dom_wf (hpd ?s)" using si a by (auto simp: slots_inv_def intro: dom_wf_push)
    show "distinct (holds (k a))" using free k by (simp add: resumes_def)
  qed (use si free owned k in \<open>auto simp: slots_inv_def resumes_def\<close>)
  moreover have "ahead ?s cur b" if "ahead s cur b" for cur b
  proof -
    from that obtain xs where xs: "slot_list (slots (hpd s)) cur xs" "b \<in> set xs"
      by (auto simp: ahead_def)
    have "a \<notin> set xs" using slot_list_dom [OF xs(1)] a by blast
    with xs show ?thesis
      by (auto simp: ahead_def intro!: exI [of _ xs] slot_list_fresh [THEN iffD2])
  qed
  ultimately show ?thesis
    using k by (intro mem_step [OF inv, of _ t "k a"]) (auto simp: resumes_def)
qed

lemma mem_acquire:
  assumes inv: "mem_inv c hi s" and a: "slots (hpd s) a = None" and k: "resumes (pcs s t) k"
  shows "mem_inv c hi (acquire_into t a k s)"
proof -
  from inv have "dom_wf (hpd s)" "list_mutex (hpd s) = None" by (simp_all add: mem_inv_def slots_inv_def)
  then show ?thesis
    using a
  proof (cases rule: acquire_cases [where me = t])
    case (reuse sl hp)
    with mem_reuse [OF inv k reuse(1,2)] show ?thesis by (simp add: acquire_into_def)
  next
    case fresh
    with mem_fresh [OF inv k a] show ?thesis by (simp add: acquire_into_def)
  qed
qed

subsection \<open>Enqueue and dequeue\<close>

lemma clean_head:
  assumes "chain_inv c hi ti s" and "mem_inv c hi s"
  shows "clean s (qhead s)" and "linked c (qhead s) m \<Longrightarrow> clean s m"
  using not_popped [of c hi s] head_not_popped [OF assms(1)] assms(2)
  by (auto simp: clean_def mem_inv_def)

lemma enqueue_mem:
  assumes "mem_inv c hi s" and "is_enqueue (pcs s t)"
  shows "mem_inv c hi (enqueue_step t sp s (pcs s t))"
  using assms(2)
  by (cases "pcs s t")
    (auto simp: is_enqueue_def intro!: mem_goto [OF assms(1), of _ t] split: option.split)

lemma mem_retire:
  assumes inv: "mem_inv c hi s" and pc: "pcs s t = Deq_Retire ch v" and ch: "before c hi ch"
    and q: "q = Deq_Commit v \<or> q = Idle o'"
  shows "mem_inv c hi (goto t q (s\<lparr>hpd := push_retired t (Some ch) () (hpd s)\<rparr>))" (is "mem_inv c hi ?s")
proof -
  have "r \<in> limbo s \<or> ptr r = Some ch" if "r \<in> limbo ?s" for r
    using that q by (auto simp: limbo_def push_retired_def split: if_splits)
  then have "popped_inv c hi ?s" using inv ch by (auto simp: mem_inv_def popped_inv_def)
  moreover have "slots_inv ?s"
    using inv pc q by (intro slots_frame [of s ?s t q]) (auto simp: mem_inv_def)
  moreover have "safe_inv ?s"
    using inv pc q ahead_cong [of ?s s] by (intro safe_frame [of s ?s t q]) (auto simp: mem_inv_def)
  ultimately show ?thesis by (simp add: mem_inv_def)
qed

lemma limbo_splice:
  "set (global_retired (splice_local u (hpd s))) \<subseteq> limbo s"
  "set (retired_list (tl_thread_data (splice_local u (hpd s)) v)) \<subseteq> limbo s"
  using limbo_parts [of s] by auto

lemma mem_commit:
  assumes inv: "mem_inv c hi s" and pc: "pcs s t = Deq_Commit v"
    and d: "commit_retired t (hpd s) = Some (Inr d)"
  shows "mem_inv c hi (goto t (Idle o') (s\<lparr>hpd := d\<rparr>))" (is "mem_inv c hi ?s")
proof -
  have d: "d = splice_local t (hpd s)" using d by (rule commit_retired_Inr)
  have "limbo ?s \<subseteq> limbo s" by (rule limbo_goto) (use limbo_splice in \<open>auto simp: d\<close>)
  then have "popped_inv c hi ?s" using inv by (intro popped_frame [of c hi s ?s]) (auto simp: mem_inv_def)
  moreover have "slots_inv ?s"
    using inv pc by (intro slots_frame [of s ?s t "Idle o'"]) (auto simp: mem_inv_def d)
  moreover have "safe_inv ?s"
    using inv pc ahead_cong [of ?s s] by (intro safe_frame [of s ?s t "Idle o'"]) (auto simp: mem_inv_def d)
  ultimately show ?thesis by (simp add: mem_inv_def)
qed

lemma holds_distinct: "mem_inv c hi s \<Longrightarrow> pcs s t = p \<Longrightarrow> distinct (holds p)"
  by (auto simp: mem_inv_def slots_inv_def)

lemma dequeue_mem:
  assumes inv: "mem_inv c hi s" and ch: "chain_inv c hi ti s" and a: "slots (hpd s) a = None"
    and pc: "\<not> is_scan (pcs s t)"
  shows "mem_inv c hi (dequeue_step t a sp s (pcs s t))"
proof -
  note go = mem_goto [OF inv, of _ t] and clean = clean_head [OF ch inv]
  show ?thesis
  proof (cases "pcs s t")
    case Deq_AcqHead
    then show ?thesis using a by (auto simp: resumes_def intro!: mem_acquire [OF inv])
  next
    case (Deq_AcqNext sh)
    then show ?thesis using a by (auto simp: resumes_def intro!: mem_acquire [OF inv])
  next
    case (Deq_ProtHead sh sn x)
    then show ?thesis by (auto intro!: mem_publish [OF inv])
  next
    case (Deq_ProtNext sh sn x ct nx)
    with holds_distinct [OF inv this] show ?thesis by (auto intro!: mem_publish [OF inv])
  next
    case (Deq_Check1 sh sn x)
    with holds_distinct [OF inv this] clean show ?thesis by (auto intro!: go)
  next
    case (Deq_Check2 sh sn x ct nx)
    with holds_distinct [OF inv this] clean chain_knows [OF ch Deq_Check2] show ?thesis
      by (auto intro!: go split: option.split)
  next
    case (Deq_Empty1 sh sn)
    with holds_distinct [OF inv this] show ?thesis by (auto intro!: mem_unpublish [OF inv])
  next
    case (Deq_Empty2 sn)
    then show ?thesis by (auto intro!: mem_unpublish [OF inv])
  next
    case (Deq_Rel1 sh sn x v)
    with holds_distinct [OF inv this] show ?thesis by (auto intro!: mem_unpublish [OF inv])
  next
    case (Deq_Rel2 sn x v)
    then show ?thesis by (auto intro!: mem_unpublish [OF inv])
  next
    case (Deq_Retire x v)
    with chain_knows [OF ch this] show ?thesis by (auto simp: Let_def intro!: mem_retire [OF inv])
  next
    case (Deq_Commit v)
    with inv show ?thesis
      by (auto intro!: go mem_commit split: option.split sum.split hp_error.split)
  qed (use holds_distinct [OF inv, of t] pc inv in
      \<open>auto simp: is_scan_def intro!: go split: option.split\<close>)
qed

subsection \<open>Scans\<close>

lemma mem_scan:
  assumes inv: "mem_inv c hi s" and pcs: "pcs s' = (pcs s)(t := q)"
    and dom: "slots (hpd s') = slots (hpd s)"
      "Hazard_Pointer.head (hpd s') = Hazard_Pointer.head (hpd s)"
      "list_mutex (hpd s') = list_mutex (hpd s)"
    and lim: "scanned q \<subseteq> limbo s" "\<And>u. set (retired_list (tl_thread_data (hpd s') u)) \<subseteq> limbo s"
      "set (global_retired (hpd s')) \<subseteq> limbo s"
    and fr: "\<And>a. a \<in> freed s' \<Longrightarrow> a \<in> freed s \<or> (\<exists>r \<in> limbo s. ptr r = Some a)"
    and q: "holds q = []" "published q = {}"
    and safe: "\<And>u a n. (a, n) \<in> validated (pcs s u) \<Longrightarrow> n \<notin> freed s' \<and>
      (\<forall>r \<in> doomed q. ptr r \<noteq> Some n) \<and>
      (\<forall>r cur. walking q = Some (r, cur) \<longrightarrow> ptr r = Some n \<longrightarrow> ahead s cur a)"
  shows "mem_inv c hi s'"
proof -
  have "limbo s' \<subseteq> limbo s" using pcs lim by (rule limbo_goto)
  with inv fr have "popped_inv c hi s'" unfolding mem_inv_def popped_inv_def by fastforce
  moreover have "slots_inv s'"
    using inv dom q by (intro slots_frame [OF _ pcs]) (auto simp: mem_inv_def)
  moreover have "safe_inv s'"
    unfolding safe_inv_def
  proof (intro allI impI)
    fix u a n
    assume "(a, n) \<in> validated (pcs s' u)"
    with q have v: "(a, n) \<in> validated (pcs s u)"
      using validated_published by (cases "u = t") (fastforce simp: pcs)+
    have "ahead s' cur a = ahead s cur a" for cur by (simp add: ahead_def dom)
    with safe [OF v] v inv show "n \<notin> freed s' \<and> (\<forall>u. \<forall>r\<in>doomed (pcs s' u). ptr r \<noteq> Some n) \<and>
        (\<forall>u r cur. walking (pcs s' u) = Some (r, cur) \<longrightarrow> ptr r = Some n \<longrightarrow> ahead s' cur a)"
      by (auto simp: mem_inv_def safe_inv_def pcs split: if_splits)
  qed
  ultimately show ?thesis by (simp add: mem_inv_def)
qed

lemma safe_invD:
  assumes "mem_inv c hi s" and "(a, n) \<in> validated (pcs s u)"
  shows "n \<notin> freed s" and "r \<in> doomed (pcs s v) \<Longrightarrow> ptr r \<noteq> Some n"
    and "walking (pcs s v) = Some (r, cur) \<Longrightarrow> ptr r = Some n \<Longrightarrow> ahead s cur a"
  using assms by (auto simp: mem_inv_def safe_inv_def)

lemma validated_slot:
  assumes "mem_inv c hi s" and "(a, n) \<in> validated (pcs s u)"
  shows "\<exists>hp. slots (hpd s) a = Some hp \<and> hazard_ptr hp = Some n"
  using assms validated_published [OF assms(2)] unfolding mem_inv_def slots_inv_def
  by fastforce

text \<open>A scan step that only moves retired nodes between the scan's own lists.\<close>

lemma mem_scan_local:
  assumes inv: "mem_inv c hi s" and "scanned q \<subseteq> scanned (pcs s t)"
    and "holds q = []" "published q = {}"
    and "\<And>u a n r. (a, n) \<in> validated (pcs s u) \<Longrightarrow> r \<in> doomed q \<Longrightarrow> ptr r \<noteq> Some n"
    and "\<And>u a n r cur. (a, n) \<in> validated (pcs s u) \<Longrightarrow> walking q = Some (r, cur) \<Longrightarrow>
      ptr r = Some n \<Longrightarrow> ahead s cur a"
  shows "mem_inv c hi (goto t q s)"
proof (rule mem_scan [OF inv, of _ t q])
  show "scanned q \<subseteq> limbo s" using assms(2) limbo_parts(3) by blast
qed (use assms safe_invD(1) [OF inv] in \<open>auto simp: limbo_parts\<close>)

lemma scan_mem_walk:
  assumes inv: "mem_inv c hi s" and pc: "pcs s t = Scan_Walk r rs kept rec cur"
  shows "mem_inv c hi (scan_step t s (pcs s t))"
proof -
  have doom: "ptr r' \<noteq> Some n" if "(a, n) \<in> validated (pcs s u)" "r' \<in> set rec" for u a n r'
    using safe_invD(2) [OF inv that(1), of r' t] that(2) pc by simp
  have walk: "ahead s cur a" if "(a, n) \<in> validated (pcs s u)" "ptr r = Some n" for u a n
    using safe_invD(3) [OF inv that(1), of t r cur] that(2) pc by simp
  show ?thesis
  proof (cases cur)
    case None
    have "ptr r' \<noteq> Some n" if "(a, n) \<in> validated (pcs s u)" "r' \<in> set (rec @ [r])" for u a n r'
      using walk [OF that(1)] doom [OF that(1)] that(2) None by auto
    then have "mem_inv c hi (goto t (Scan_Loop rs kept (rec @ [r])) s)"
      by (intro mem_scan_local [OF inv]) (auto simp: pc)
    with None pc show ?thesis by simp
  next
    case (Some b)
    have step: "ahead s (next_slot hp) a"
      if "(a, n) \<in> validated (pcs s u)" "ptr r = Some n" "slots (hpd s) b = Some hp"
        "hazard_ptr hp \<noteq> ptr r" for u a n hp
    proof -
      from validated_slot [OF inv that(1)] that have "b \<noteq> a" by auto
      with walk [OF that(1,2)] that(3) Some show ?thesis by (auto intro: ahead_step)
    qed
    have "mem_inv c hi (goto t (Stuck DanglingSlot) s)"
      by (intro mem_scan_local [OF inv]) simp_all
    moreover have "mem_inv c hi (goto t (Scan_Loop rs (kept @ [r]) rec) s)"
      using doom by (intro mem_scan_local [OF inv]) (auto simp: pc)
    moreover have "mem_inv c hi (goto t (Scan_Walk r rs kept rec (next_slot hp)) s)"
      if "slots (hpd s) b = Some hp" "hazard_ptr hp \<noteq> ptr r" for hp
      using doom step [OF _ _ that] by (intro mem_scan_local [OF inv]) (auto simp: pc)
    ultimately show ?thesis using pc Some by (simp split: option.split)
  qed
qed

lemma scan_mem_free:
  assumes inv: "mem_inv c hi s" and pc: "pcs s t = Scan_Free (r # rs)"
  shows "mem_inv c hi (goto t (Scan_Free rs) (delete_node r s))"
proof (rule mem_scan [OF inv, of _ t "Scan_Free rs"])
  show "scanned (Scan_Free rs) \<subseteq> limbo s" using limbo_parts(3) [of s t] pc by simp
  have r: "r \<in> limbo s" using limbo_parts(3) [of s t] pc by simp
  show "a \<in> freed s \<or> (\<exists>r \<in> limbo s. ptr r = Some a)"
    if "a \<in> freed (goto t (Scan_Free rs) (delete_node r s))" for a
    using that r by auto
  fix u a n
  assume v: "(a, n) \<in> validated (pcs s u)"
  have "ptr r' \<noteq> Some n" if "r' \<in> set (r # rs)" for r'
    using safe_invD(2) [OF inv v, of r' t] that pc by simp
  with safe_invD(1) [OF inv v] show "n \<notin> freed (goto t (Scan_Free rs) (delete_node r s)) \<and>
      (\<forall>r \<in> doomed (Scan_Free rs). ptr r \<noteq> Some n) \<and>
      (\<forall>r cur. walking (Scan_Free rs) = Some (r, cur) \<longrightarrow> ptr r = Some n \<longrightarrow> ahead s cur a)"
    by auto
qed (auto simp: limbo_parts)

lemma scan_mem:
  assumes inv: "mem_inv c hi s" and "is_scan (pcs s t)"
  shows "mem_inv c hi (scan_step t s (pcs s t))"
proof -
  note scan = mem_scan [OF inv, of _ t] and loc = mem_scan_local [OF inv]
  note fr = safe_invD(1) [OF inv]
  show ?thesis
  proof (cases "pcs s t")
    case (Scan_Splice us)
    show ?thesis
    proof (cases us)
      case Nil
      have "mem_inv c hi (goto t Scan_Lock (s\<lparr>hpd := (hpd s)\<lparr>global_retired_mutex := None\<rparr>\<rparr>))"
        using fr by (intro scan) (auto simp: limbo_parts)
      with Scan_Splice Nil show ?thesis by simp
    next
      case (Cons u us')
      have "mem_inv c hi (goto t (Scan_Splice us') (s\<lparr>hpd := splice_local u (hpd s)\<rparr>))"
        using fr limbo_splice [of u s] by (intro scan) auto
      moreover have "mem_inv c hi (goto t (Scan_Splice us') s)" by (intro loc) simp_all
      ultimately show ?thesis using Scan_Splice Cons by simp
    qed
  next
    case Scan_Lock
    with limbo_parts [THEN subsetD] fr inv show ?thesis
      by (auto simp: lock_def intro!: scan split: option.split)
  next
    case (Scan_Loop rs kept rec)
    have doom: "ptr r' \<noteq> Some n" if "(a, n) \<in> validated (pcs s u)" "r' \<in> set rec" for u a n r'
      using safe_invD(2) [OF inv that(1), of r' t] that(2) Scan_Loop by simp
    have hd: "ahead s (Hazard_Pointer.head (hpd s)) a" if "(a, n) \<in> validated (pcs s u)" for u a n
      using validated_slot [OF inv that] inv by (auto simp: mem_inv_def intro: ahead_head)
    have sub: "set kept \<subseteq> limbo s" "set rec \<subseteq> limbo s"
      using limbo_parts(3) [of s t] Scan_Loop by auto
    show ?thesis
    proof (cases rs)
      case Nil
      have "mem_inv c hi (goto t (Scan_Free rec)
          (s\<lparr>hpd := (hpd s)\<lparr>global_retired := kept, global_retired_mutex := None\<rparr>\<rparr>))"
        using doom fr sub by (intro scan) (auto simp: limbo_parts)
      with Scan_Loop Nil show ?thesis by simp
    next
      case (Cons r rs')
      have "mem_inv c hi (goto t (Scan_Walk r rs' kept rec (Hazard_Pointer.head (hpd s))) s)"
        using doom hd by (intro loc) (auto simp: Scan_Loop Cons)
      with Scan_Loop Cons show ?thesis by simp
    qed
  next
    case (Scan_Walk r rs kept rec cur)
    with scan_mem_walk [OF inv] show ?thesis by blast
  next
    case (Scan_Free rs)
    have "mem_inv c hi (goto t (Idle NoCall) s)" by (intro loc) simp_all
    with scan_mem_free [OF inv] Scan_Free show ?thesis by (cases rs) simp_all
  qed (use assms(2) in \<open>simp_all add: is_scan_def\<close>)
qed

subsection \<open>The whole machine\<close>

lemma call_mem:
  assumes inv: "mem_inv c hi s" and pc: "pcs s t = Idle r"
  shows "mem_inv c hi (mq_start t a op s)"
proof -
  note scan = mem_scan [OF inv, of _ t] and go = mem_goto [OF inv, of _ t]
  show ?thesis
  proof (cases op)
    case (Enqueue x)
    with pc show ?thesis by (auto simp: mq_start_def intro!: go)
  next
    case Dequeue
    with pc show ?thesis by (auto simp: mq_start_def intro!: go)
  next
    case StartScan
    have "mem_inv c hi (goto t (Scan_Splice us) (s\<lparr>hpd := (hpd s)\<lparr>global_retired_mutex := m\<rparr>\<rparr>))" for us m
      using safe_invD(1) [OF inv] by (intro scan) (auto simp: limbo_parts)
    with StartScan inv pc show ?thesis
      by (auto simp: mq_start_def scan_begin_def lock_def intro!: go split: option.split)
  next
    case Register
    have "mem_inv c hi (goto t (Idle NoCall) (s\<lparr>hpd := d\<rparr>))" if "RegisterThread t (hpd s) = Inr d" for d
      using that limbo_parts [of s, THEN subsetD] safe_invD(1) [OF inv]
      by (intro scan) (auto simp: RegisterThread_def Let_def try_bind_Inr_iff split: if_splits)
    with Register pc show ?thesis
      by (cases "RegisterThread t (hpd s)") (auto simp: mq_start_def and_goto_def intro!: go)
  qed
qed

lemma mem_exec:
  "mem_inv c hi s \<Longrightarrow> chain_inv c hi ti s \<Longrightarrow> slots (hpd s) a = None \<Longrightarrow>
   mem_inv c hi (mq_exec t a sp s)"
  by (simp add: mq_exec_def enqueue_mem scan_mem dequeue_mem)

lemma mem_inv_mono: "mem_inv c hi s \<Longrightarrow> hi \<le> hi' \<Longrightarrow> mem_inv (c @ d) hi' s"
  by (auto simp: mem_inv_def intro: popped_inv_mono)

lemma limbo_init: "limbo (MPMCQueue_new d) = {}"
  by (simp add: limbo_def MPMCQueue_new_def HazPtrDomain_init_def ThreadData_init_def)

lemma mem_inv_init: "mem_inv [d] 0 (MPMCQueue_new d)"
proof -
  have "popped_inv [d] 0 (MPMCQueue_new d)"
    by (simp add: popped_inv_def limbo_init) (simp add: MPMCQueue_new_def)
  moreover have "slots_inv (MPMCQueue_new d)"
    using dom_wf_init by (simp add: slots_inv_def MPMCQueue_new_def)
      (simp add: HazPtrDomain_init_def)
  moreover have "safe_inv (MPMCQueue_new d)"
    by (simp add: safe_inv_def MPMCQueue_new_def)
  ultimately show ?thesis by (simp add: mem_inv_def)
qed

interpretation mq_mem: invariant_system mq_init mq_step reclaim_inv
proof unfold_locales
  fix s :: "'a MPMCQueue"
  assume "mq_init s"
  then show "reclaim_inv s"
    unfolding mq_init_def reclaim_inv_def using chain_inv_init mem_inv_init by blast
next
  fix s s' :: "'a MPMCQueue"
  assume step: "mq_step s s'" and "reclaim_inv s"
  then obtain c hi ti where inv: "chain_inv c hi ti s" "mem_inv c hi s"
    by (auto simp: reclaim_inv_def)
  from step inv have "mem_inv c hi s'" by cases (auto intro: call_mem mem_exec)
  with mq_step_simulates [OF step inv(1)] show "reclaim_inv s'"
    by (auto simp: simulates_def reclaim_inv_def intro: mem_inv_mono)
qed

subsection \<open>The destructor\<close>

lemma destroy_nodes_list:
  "node_list ns cur xs \<Longrightarrow> distinct xs \<Longrightarrow> set xs \<inter> del = {} \<Longrightarrow>
   destroy_nodes ns del cur = Some (Inr (del \<union> set xs))"
proof (induction xs arbitrary: cur del)
  case Nil
  then show ?case by (simp add: destroy_nodes.simps)
next
  case (Cons a as)
  then obtain nd where "cur = Some a" "ns a = Some nd" "node_list ns (next_node nd) as"
    by (auto split: option.splits)
  moreover from Cons.prems have "set as \<inter> insert a del = {}" by auto
  ultimately show ?case
    using Cons.IH [of "next_node nd" "insert a del"] Cons.prems
    by (simp add: destroy_nodes.simps [of ns del])
qed

lemma validated_load:
  assumes "chain_inv c hi ti s" and "mem_inv c hi s" and "(a, n) \<in> validated (pcs s t)"
    and "reached c k n \<or> linked c m n"
  shows "\<exists>nd. load_node s n = Some nd \<and> nodes s n = Some nd"
proof -
  from assms(4) have "n \<in> set c" by (auto simp: reached_def linked_def)
  with assms(1) have "nodes s n \<noteq> None" by (auto simp: chain_inv_def dest: chain_allocated)
  with safe_invD(1) [OF assms(2,3)] show ?thesis by (auto simp: load_node_def)
qed

lemma dequeue_reads:
  assumes "reclaim_inv s"
  shows "reads_alive s t"
proof -
  from assms obtain c hi ti where
    ch: "chain_inv c hi ti s" and inv: "mem_inv c hi s" by (auto simp: reclaim_inv_def)
  note load = validated_load [OF ch inv]
  show ?thesis
  proof (cases "pcs s t")
    case (Deq_LoadNext sh sn x ct)
    with load [of sh x t hi] chain_knows [OF ch this] show ?thesis by (auto simp: reads_alive_def)
  next
    case (Deq_Read sh sn x m)
    with load [of sn m t hi x] chain_knows [OF ch this] show ?thesis by (auto simp: reads_alive_def)
  qed (simp_all add: reads_alive_def)
qed

lemma reads_no_crash:
  assumes "reads_alive s t" and "\<not> is_enqueue (pcs s t)" and "pcs s t \<noteq> Crashed"
  shows "pcs (mq_exec t a sp s) t \<noteq> Crashed \<and>
     (\<forall>sh sn ch m. pcs s t = Deq_Read sh sn ch m \<longrightarrow>
        (\<exists>nd. nodes s m = Some nd \<and> pcs (mq_exec t a sp s) t = Deq_Rel1 sh sn ch (data nd)))"
proof (cases "pcs s t")
  case (Scan_Splice us)
  then show ?thesis by (cases us) (auto simp: mq_exec_def is_enqueue_def is_scan_def)
next
  case (Scan_Loop rs kept rec)
  then show ?thesis by (cases rs) (auto simp: mq_exec_def is_enqueue_def is_scan_def)
next
  case (Scan_Walk r rs kept rec cur)
  then show ?thesis
    by (cases cur) (auto simp: mq_exec_def is_enqueue_def is_scan_def split: option.split)
next
  case (Scan_Free rs)
  then show ?thesis by (cases rs) (auto simp: mq_exec_def is_enqueue_def is_scan_def)
qed (use assms in \<open>auto simp: reads_alive_def mq_exec_def is_enqueue_def is_scan_def acquire_into_def
    and_goto_def lock_def Let_def split: option.split sum.split prod.split hp_error.split\<close>)

subsection \<open>Properties\<close>

text \<open>In every reachable state, under every interleaving of enqueues, dequeues and
  scans in which slots are acquired in one step, the next access of a \<open>dequeue\<close> does not read a deleted node, and the node whose
  data it returns still holds the element that was enqueued there.\<close>

theorem dequeue_no_use_after_free:
  assumes "reach mq_init mq_step s" and "\<not> is_enqueue (pcs s t)" and "pcs s t \<noteq> Crashed"
  shows "pcs (mq_exec t a sp s) t \<noteq> Crashed \<and>
     (\<forall>sh sn ch m. pcs s t = Deq_Read sh sn ch m \<longrightarrow>
        (\<exists>nd. nodes s m = Some nd \<and> pcs (mq_exec t a sp s) t = Deq_Rel1 sh sn ch (data nd)))"
  using reads_no_crash [OF dequeue_reads [OF mq_mem.reach_inv [OF assms(1)]] assms(2,3)] .

theorem dequeue_no_use_after_free_witness:
  "\<exists>s nd. reach mq_init mq_step (s :: nat MPMCQueue) \<and> pcs s 0 = Deq_Read 7 8 0 1 \<and>
     nodes s 1 = Some nd \<and> pcs (mq_exec 0 9 False s) 0 = Deq_Rel1 7 8 0 (data nd)"
proof -
  let ?xs = "Call 0 1 (Enqueue 10) # replicate 5 (Run 0 9 False) @
    [Call 0 5 Dequeue, Run 0 7 False, Run 0 8 False] @ replicate 8 (Run 0 9 False) :: nat move list"
  have "map_option (\<lambda>s. pcs s 0) (mq_run ?xs (MPMCQueue_new 0)) = Some (Deq_Read 7 8 0 1)"
    by code_simp
  then obtain s where "mq_run ?xs (MPMCQueue_new 0) = Some s" and pc: "pcs s 0 = Deq_Read 7 8 0 1"
    by auto
  from mq_run_reach [OF this(1) reach_new] have r: "reach mq_init mq_step s" .
  from dequeue_no_use_after_free [OF r, of 0 9 False] pc r show ?thesis
    by (auto simp: is_enqueue_def)
qed

text \<open>C25: enqueues publish no hazard pointer, and the same guarantee fails for them: there
  is an interleaving of two threads in which one loads the tail, the other enqueues,
  dequeues, retires the node and scans, and the first then reads \<open>next\<close> of the deleted
  node.\<close>

theorem enqueue_use_after_free:
  "\<exists>s. reach mq_init mq_step (s :: nat MPMCQueue) \<and> pcs s 0 = Enq_LoadNext 1 0 \<and>
     0 \<in> freed s \<and> (\<forall>a sp. pcs (mq_exec 0 a sp s) 0 = Crashed)"
proof -
  let ?xs = "[Call 0 1 (Enqueue 10), Run 0 9 False, Call 1 5 Register, Call 1 2 (Enqueue 20)]
    @ replicate 5 (Run 1 9 False) @ [Call 1 5 Dequeue, Run 1 7 False, Run 1 8 False]
    @ replicate 12 (Run 1 9 False) @ [Call 1 5 StartScan] @ replicate 9 (Run 1 9 False) :: nat move list"
  have "map_option (\<lambda>s. (pcs s 0, 0 \<in> freed s)) (mq_run ?xs (MPMCQueue_new 0)) =
      Some (Enq_LoadNext 1 0, True)"
    by code_simp
  then obtain s where "mq_run ?xs (MPMCQueue_new 0) = Some s" and pc: "pcs s 0 = Enq_LoadNext 1 0"
    and fr: "0 \<in> freed s" by auto
  from mq_run_reach [OF this(1) reach_new] have "reach mq_init mq_step s" .
  with pc fr show ?thesis by (auto simp: mq_exec_def is_enqueue_def load_node_def)
qed

text \<open>C28: the destructor, run in any reachable state, returns, deletes exactly the nodes from
  the head on, and none of them was deleted before.\<close>

theorem destroy_deletes_rest:
  assumes "reach mq_init mq_step s"
  shows "\<exists>as. node_list (nodes s) (Some (qhead s)) as \<and> distinct as \<and> set as \<inter> freed s = {} \<and>
     MPMCQueue_destroy s = Some (Inr (freed s \<union> set as))"
proof -
  from mq_mem.reach_inv [OF assms] obtain c hi ti where
    ch: "chain_inv c hi ti s" and inv: "mem_inv c hi s" by (auto simp: reclaim_inv_def)
  from ch have sh: "shape c hi ti s" by (simp add: chain_inv_def)
  note ends = shape_ends [OF sh]
  have "node_list (nodes s) (Some (qhead s)) (drop hi c)"
    using node_list_drop [OF sh, of hi] ends by simp
  moreover from sh have "distinct (drop hi c)" by (simp add: shape_def)
  moreover have "set (drop hi c) \<inter> freed s = {}"
  proof -
    have "\<not> before c hi a" if "a \<in> set (drop hi c)" for a
    proof
      assume "before c hi a"
      then obtain i where i: "i < hi" "i < length c" "c ! i = a" by (auto simp: before_def)
      then have "a \<in> set (take hi c)" by (auto simp: in_set_conv_nth intro!: exI [of _ i])
      moreover have "set (take hi c) \<inter> set (drop hi c) = {}"
        using sh by (intro set_take_disj_set_drop_if_distinct) (simp_all add: shape_def)
      ultimately show False using that by blast
    qed
    with inv show ?thesis by (auto simp: mem_inv_def popped_inv_def)
  qed
  ultimately show ?thesis
    unfolding MPMCQueue_destroy_def using destroy_nodes_list by blast
qed

theorem destroy_deletes_rest_witness:
  "\<exists>s. reach mq_init mq_step (s :: nat MPMCQueue) \<and> MPMCQueue_destroy s = Some (Inr {0, 1})"
proof -
  let ?xs = "Call 0 1 (Enqueue 10) # replicate 5 (Run 0 9 False) :: nat move list"
  have "map_option (\<lambda>s. (freed s, qhead s, map_option next_node (nodes s 0), map_option next_node (nodes s 1)))
      (mq_run ?xs (MPMCQueue_new 0)) = Some ({}, 0, Some (Some 1), Some None)"
    by code_simp
  then obtain s where "mq_run ?xs (MPMCQueue_new 0) = Some s" and fr: "freed s = {}" "qhead s = 0"
    and nd: "map_option next_node (nodes s 0) = Some (Some 1)" "map_option next_node (nodes s 1) = Some None"
    by auto
  from mq_run_reach [OF this(1) reach_new] have r: "reach mq_init mq_step s" .
  have "node_list (nodes s) (Some 0) [0, 1]" using nd by auto
  with destroy_deletes_rest [OF r] fr node_list_unique r show ?thesis
    by (metis Un_empty_left empty_set list.simps(15))
qed

end
