(* ===== verification/MPMC_Progress.thy ===== *)
theory MPMC_Progress
  imports MPMC_Reclaim
begin

text \<open>
  The loops of the queue end. A thread that is scheduled alone, from any reachable state and
  wherever the other threads stand, completes its \<open>enqueue\<close>, unless the next statement reads a tail
  that was deleted since it was loaded, and from the head of its loop its \<open>dequeue\<close> up to the
  retirement of the node, which may wait for a mutex; and its operation does to the contents what
  the operation of the sequential queue does. The only loop that may turn more than once is
  that of \<open>enqueue\<close>: it moves the tail forward by one node in each turn.
\<close>

subsection \<open>Running alone\<close>

text \<open>Steps of thread \<open>t\<close> only, without spurious failures.\<close>

definition runs_alone :: "tid \<Rightarrow> addr \<Rightarrow> 'a MPMCQueue \<Rightarrow> 'a MPMCQueue \<Rightarrow> bool" where
  "runs_alone t a s s' \<longleftrightarrow> (\<exists>k. s' = (mq_exec t a False ^^ k) s)"

text \<open>Alone, the thread returns from \<open>enqueue\<close> and leaves the contents \<open>q\<close>.\<close>

definition appends_alone :: "tid \<Rightarrow> addr \<Rightarrow> 'a MPMCQueue \<Rightarrow> 'a option list \<Rightarrow> bool" where
  "appends_alone t a s q \<longleftrightarrow> (\<exists>s'. runs_alone t a s s' \<and> pcs s' t = Idle Enqueued \<and> contents s' q)"

text \<open>The next access of an \<open>enqueue\<close> is to a node that was deleted.\<close>

definition reads_deleted :: "tid \<Rightarrow> 'a MPMCQueue \<Rightarrow> bool" where
  "reads_deleted t s =
     (case pcs s t of
        Enq_LoadNext n ct \<Rightarrow> load_node s ct = None
      | Enq_CasNext n ct \<Rightarrow> load_node s ct = None
      | _ \<Rightarrow> False)"

definition owns :: "'a MPMCQueue \<Rightarrow> tid \<Rightarrow> addr \<Rightarrow> bool" where
  "owns s t sl \<longleftrightarrow> map_option owner (slots (hpd s) sl) = Some (Some t)"

lemma runs_refl: "runs_alone t a s s"
  unfolding runs_alone_def by (rule exI [of _ 0]) simp

lemma runs_step: "runs_alone t a (mq_exec t a False s) s' \<Longrightarrow> runs_alone t a s s'"
  unfolding runs_alone_def by (metis comp_apply funpow_Suc_right)

lemma runs_trans: "runs_alone t a s s' \<Longrightarrow> runs_alone t a s' s'' \<Longrightarrow> runs_alone t a s s''"
  unfolding runs_alone_def by (metis comp_apply funpow_add)

lemma goto_goto [simp]: "goto t p (goto t q s) = goto t p s"
  by (simp add: goto_def)

lemma goto_upd [simp]:
  "(goto t p s)\<lparr>hpd := d\<rparr> = goto t p (s\<lparr>hpd := d\<rparr>)"
  "(goto t p s)\<lparr>qhead := h\<rparr> = goto t p (s\<lparr>qhead := h\<rparr>)"
  "cas_tail sp e d' (goto t p s) = goto t p (cas_tail sp e d' s)"
  "store_next b n (goto t p s) = goto t p (store_next b n s)"
  "load_node (goto t p s) b = load_node s b"
  by (simp_all add: goto_def cas_tail_def store_next_def load_node_def)

lemma load_hpd [simp]: "load_node (s\<lparr>hpd := d\<rparr>) b = load_node s b"
  by (simp add: load_node_def)

lemma upd_order:
  "s\<lparr>hpd := d, qhead := h\<rparr> = s\<lparr>qhead := h, hpd := d\<rparr>"
  "s\<lparr>qtail := e, qhead := h, hpd := d\<rparr> = s\<lparr>qhead := h, qtail := e, hpd := d\<rparr>"
  by simp_all

lemma contents_list:
  assumes "node_list (nodes s) (Some (qhead s)) (qhead s # xs)" and "contents s q"
  shows "q = map (\<lambda>b. Option.bind (nodes s b) data) xs"
proof -
  from assms(2) obtain ys where ys: "node_list (nodes s) (Some (qhead s)) (qhead s # ys)"
    "q = map (\<lambda>b. Option.bind (nodes s b) data) ys" by (auto simp only: contents_def)
  from node_list_unique [OF assms(1) ys(1)] ys(2) show ?thesis by simp
qed

lemmas alone_step = mq_exec_def is_enqueue_def is_scan_def

lemma goto_pcs: "pcs s t = p \<Longrightarrow> s = goto t p s"
  by (cases s) (auto simp: goto_def)

text \<open>Single steps in normal form.\<close>

lemma enqueue_alone_steps:
  "mq_exec t a False (goto t (Enq_LoadTail n) s) = goto t (Enq_LoadNext n (qtail s)) s"
  "load_node s ct = Some nd \<Longrightarrow> mq_exec t a False (goto t (Enq_LoadNext n ct) s) = goto t (Enq_Check n ct (next_node nd)) s"
  "ct = qtail s \<Longrightarrow> mq_exec t a False (goto t (Enq_Check n ct None) s) = goto t (Enq_CasNext n ct) s"
  "ct = qtail s \<Longrightarrow> mq_exec t a False (goto t (Enq_Check n ct (Some m)) s) = goto t (Enq_Help n ct m) s"
  "load_node s ct = Some nd \<Longrightarrow> next_node nd = None \<Longrightarrow>
   mq_exec t a False (goto t (Enq_CasNext n ct) s) = goto t (Enq_CasTail n ct) (store_next ct n s)"
  "mq_exec t a False (goto t (Enq_CasTail n ct) s) = goto t (Idle Enqueued) (cas_tail False ct n s)"
  "mq_exec t a False (goto t (Enq_Help n ct m) s) = goto t (Enq_LoadTail n) (cas_tail False ct m s)"
  by (simp_all add: alone_step)

subsection \<open>enqueue\<close>

text \<open>The nodes from the tail on bound the turns of the loop.\<close>

lemma enqueue_alone:
  assumes "node_list (nodes s) (Some (qtail s)) (qtail s # as)" and "\<forall>b \<in> set (qtail s # as). b \<notin> freed s"
    and "pcs s t = Enq_LoadTail n"
  shows "\<exists>s'. runs_alone t a s s' \<and> pcs s' t = Idle Enqueued \<and>
     nodes s' = nodes (store_next (last (qtail s # as)) n s) \<and> qhead s' = qhead s \<and> freed s' = freed s"
  using assms
proof (induction "as" arbitrary: s)
  case Nil
  then obtain nd where nd: "next_node nd = None" "load_node s (qtail s) = Some nd"
    by (auto simp: load_node_def split: option.splits)
  let ?s = "goto t (Idle Enqueued) (cas_tail False (qtail s) n (store_next (qtail s) n s))"
  have "(mq_exec t a False ^^ 5) (goto t (Enq_LoadTail n) s) = ?s"
    using nd by (simp add: eval_nat_numeral enqueue_alone_steps)
  with goto_pcs [OF Nil.prems(3)] have "runs_alone t a s ?s" by (metis runs_alone_def)
  then show ?case by (intro exI [of _ ?s]) simp
next
  case (Cons b as)
  then obtain nd where nd: "nodes s (qtail s) = Some nd" "next_node nd = Some b" "load_node s (qtail s) = Some nd"
    and rest: "node_list (nodes s) (Some b) (b # as)"
    by (auto simp: load_node_def split: option.splits)
  let ?s = "goto t (Enq_LoadTail n) (s\<lparr>qtail := b\<rparr>)"
  have "(mq_exec t a False ^^ 4) (goto t (Enq_LoadTail n) s) = ?s"
    using nd by (simp add: eval_nat_numeral enqueue_alone_steps cas_tail_def)
  with goto_pcs [OF Cons.prems(3)] have "runs_alone t a s ?s" by (metis runs_alone_def)
  moreover have "\<exists>s'. runs_alone t a ?s s' \<and> pcs s' t = Idle Enqueued \<and>
     nodes s' = nodes (store_next (last (qtail ?s # as)) n ?s) \<and> qhead s' = qhead ?s \<and> freed s' = freed ?s"
    by (rule Cons.IH) (use Cons.prems rest in auto)
  ultimately show ?case by (auto simp: store_next_def intro: runs_trans)
qed

text \<open>Appending a private node behind the last one.\<close>

lemma node_list_append:
  assumes "node_list ns p xs" and "xs \<noteq> []" and "distinct xs" and "n \<notin> set xs" and "ns n = Some nd" and "next_node nd = None"
  shows "node_list (ns(last xs := map_option (\<lambda>x. x\<lparr>next_node := Some n\<rparr>) (ns (last xs)))) p (xs @ [n])"
  using assms
proof (induction xs arbitrary: p)
  case (Cons b xs)
  show ?case
  proof (cases "xs = []")
    case False
    with Cons.prems have "last xs \<noteq> b" by auto
    with Cons False show ?thesis by (auto split: option.splits)
  qed (use Cons.prems in \<open>auto split: option.splits\<close>)
qed simp

text \<open>What a reachable state provides: the chain from the head and from the tail, none of it deleted.\<close>

lemma reach_lists:
  assumes "reach mq_init mq_step s"
  obtains xs as where "node_list (nodes s) (Some (qhead s)) (qhead s # xs)"
    and "node_list (nodes s) (Some (qtail s)) (qtail s # as)" and "distinct (qhead s # xs)"
    and "last (qtail s # as) = last (qhead s # xs)" and "\<forall>b \<in> set (qhead s # xs). b \<notin> freed s"
    and "set (qtail s # as) \<subseteq> set (qhead s # xs)"
    and "\<And>t n. new_of (pcs s t) = Some n \<Longrightarrow> n \<notin> set (qhead s # xs) \<and> map_option next_node (nodes s n) = Some None"
proof -
  from mq_mem.reach_inv [OF assms] obtain c hi ti where
    ch: "chain_inv c hi ti s" and inv: "mem_inv c hi s" by (auto simp: reclaim_inv_def)
  then have sh: "shape c hi ti s" by (simp add: chain_inv_def)
  then have ix: "hi \<le> ti" "ti < length c" "hi < length c" "qhead s = c ! hi" "qtail s = c ! ti" "distinct c"
    by (auto simp: shape_def)
  have hd: "drop hi c = qhead s # drop (Suc hi) c" and tl: "drop ti c = qtail s # drop (Suc ti) c"
    using ix by (simp_all add: Cons_nth_drop_Suc)
  have free: "b \<notin> freed s" if "b \<in> set (drop hi c)" for b
  proof
    assume "b \<in> freed s"
    with inv have "before c hi b" by (auto simp: mem_inv_def popped_inv_def)
    then obtain i where "i < hi" "i < length c" "c ! i = b" by (auto simp: before_def)
    moreover from that have "\<exists>j. hi + j < length c \<and> c ! (hi + j) = b"
      by (force simp: in_set_conv_nth less_diff_conv add.commute)
    ultimately show False using ix(6) by (auto simp: nth_eq_iff_index_eq)
  qed
  have "drop ti c = drop (ti - hi) (drop hi c)" using ix by simp
  then have sub: "set (drop ti c) \<subseteq> set (drop hi c)" by (metis set_drop_subset)
  have lst: "last (drop ti c) = last (drop hi c)" using ix by simp
  show thesis
  proof (rule that [of "drop (Suc hi) c" "drop (Suc ti) c"])
    show "n \<notin> set (qhead s # drop (Suc hi) c) \<and> map_option next_node (nodes s n) = Some None"
      if "new_of (pcs s t) = Some n" for t n
    proof -
      have "n \<notin> set c" "map_option next_node (nodes s n) = Some None"
        using ch that by (auto simp: chain_inv_def private_nodes_def)
      then show ?thesis using set_drop_subset [of hi c] by (auto simp flip: hd)
    qed
    show "node_list (nodes s) (Some (qhead s)) (qhead s # drop (Suc hi) c)"
      using node_list_drop [OF sh ix(3)] by (simp only: hd ix(4))
    show "node_list (nodes s) (Some (qtail s)) (qtail s # drop (Suc ti) c)"
      using node_list_drop [OF sh ix(2)] by (simp only: tl ix(5))
    show "distinct (qhead s # drop (Suc hi) c)" using distinct_drop [OF ix(6), of hi] by (simp only: hd)
    show "last (qtail s # drop (Suc ti) c) = last (qhead s # drop (Suc hi) c)" using lst by (simp only: hd tl)
    show "\<forall>b \<in> set (qhead s # drop (Suc hi) c). b \<notin> freed s" using free by (simp only: hd) blast
    show "set (qtail s # drop (Suc ti) c) \<subseteq> set (qhead s # drop (Suc hi) c)" using sub by (simp only: hd tl)
  qed
qed

subsection \<open>dequeue\<close>

lemma publish_own:
  assumes "owns s t sl"
  shows "\<exists>d. publish sl v s = Inr (s\<lparr>hpd := d\<rparr>) \<and>
    (\<forall>b. map_option owner (slots d b) = map_option owner (slots (hpd s) b))"
  using assms by (auto simp: owns_def publish_def protect_def option.map_comp comp_def)

lemma unpublish_own:
  assumes "owns s t sl"
  shows "\<exists>d. unpublish t sl s = Inr (s\<lparr>hpd := d\<rparr>) \<and>
    (\<forall>b. b \<noteq> sl \<longrightarrow> map_option owner (slots d b) = map_option owner (slots (hpd s) b))"
  using assms by (auto simp: owns_def unpublish_def holder_release_def release_def Let_def)

lemma publish_goto: "publish sl v (goto t p s) = map_sum id (goto t p) (publish sl v s)"
  by (simp add: publish_def try_bind_def split: sum.split)

lemma unpublish_goto: "unpublish t sl (goto t p s) = map_sum id (goto t p) (unpublish t sl s)"
  by (auto simp: unpublish_def try_bind_def split: sum.split)

lemma dequeue_alone_steps:
  "mq_exec t a False (goto t (Deq_LoadHead sh sn) s) = goto t (Deq_ProtHead sh sn (qhead s)) s"
  "publish sh (Some ch) s = Inr s' \<Longrightarrow> mq_exec t a False (goto t (Deq_ProtHead sh sn ch) s) = goto t (Deq_Check1 sh sn ch) s'"
  "ch = qhead s \<Longrightarrow> mq_exec t a False (goto t (Deq_Check1 sh sn ch) s) = goto t (Deq_LoadTail sh sn ch) s"
  "mq_exec t a False (goto t (Deq_LoadTail sh sn ch) s) = goto t (Deq_LoadNext sh sn ch (qtail s)) s"
  "load_node s ch = Some nd \<Longrightarrow>
   mq_exec t a False (goto t (Deq_LoadNext sh sn ch ct) s) = goto t (Deq_ProtNext sh sn ch ct (next_node nd)) s"
  "publish sn nx s = Inr s' \<Longrightarrow>
   mq_exec t a False (goto t (Deq_ProtNext sh sn ch ct nx) s) = goto t (Deq_Check2 sh sn ch ct nx) s'"
  "ch = qhead s \<Longrightarrow> mq_exec t a False (goto t (Deq_Check2 sh sn ch ct None) s) = goto t (Deq_Empty1 sh sn) s"
  "ch = qhead s \<Longrightarrow> mq_exec t a False (goto t (Deq_Check2 sh sn ch ct (Some m)) s) =
   (if ch = ct then goto t (Deq_Help sh sn ct m) s else goto t (Deq_CasHead sh sn ch m) s)"
  "unpublish t sh s = Inr s' \<Longrightarrow> mq_exec t a False (goto t (Deq_Empty1 sh sn) s) = goto t (Deq_Empty2 sn) s'"
  "unpublish t sn s = Inr s' \<Longrightarrow> mq_exec t a False (goto t (Deq_Empty2 sn) s) = goto t (Idle WasEmpty) s'"
  "mq_exec t a False (goto t (Deq_Help sh sn ct m) s) = goto t (Deq_LoadHead sh sn) (cas_tail False ct m s)"
  "ch = qhead s \<Longrightarrow>
   mq_exec t a False (goto t (Deq_CasHead sh sn ch m) s) = goto t (Deq_Read sh sn ch m) (s\<lparr>qhead := m\<rparr>)"
  "load_node s m = Some nd \<Longrightarrow>
   mq_exec t a False (goto t (Deq_Read sh sn ch m) s) = goto t (Deq_Rel1 sh sn ch (data nd)) s"
  "unpublish t sh s = Inr s' \<Longrightarrow> mq_exec t a False (goto t (Deq_Rel1 sh sn ch v) s) = goto t (Deq_Rel2 sn ch v) s'"
  "unpublish t sn s = Inr s' \<Longrightarrow> mq_exec t a False (goto t (Deq_Rel2 sn ch v) s) = goto t (Deq_Retire ch v) s'"
  by (simp_all add: alone_step and_goto_def publish_goto unpublish_goto)

text \<open>One turn of the loop, up to the second check of the head.\<close>

lemma dequeue_turn:
  assumes "owns s t sh" and "owns s t sn" and "load_node s (qhead s) = Some nd"
  shows "\<exists>d. runs_alone t a (goto t (Deq_LoadHead sh sn) s)
      (goto t (Deq_Check2 sh sn (qhead s) (qtail s) (next_node nd)) (s\<lparr>hpd := d\<rparr>)) \<and>
    (\<forall>b. map_option owner (slots d b) = map_option owner (slots (hpd s) b))"
proof -
  from publish_own [OF assms(1), of "Some (qhead s)"] obtain d where
    d: "publish sh (Some (qhead s)) s = Inr (s\<lparr>hpd := d\<rparr>)"
    "\<forall>b. map_option owner (slots d b) = map_option owner (slots (hpd s) b)" by blast
  with assms(2) have "owns (s\<lparr>hpd := d\<rparr>) t sn" by (simp add: owns_def)
  from publish_own [OF this, of "next_node nd"] obtain d' where
    d': "publish sn (next_node nd) (s\<lparr>hpd := d\<rparr>) = Inr (s\<lparr>hpd := d'\<rparr>)"
    "\<forall>b. map_option owner (slots d' b) = map_option owner (slots d b)" by auto
  have "(mq_exec t a False ^^ 6) (goto t (Deq_LoadHead sh sn) s) =
      goto t (Deq_Check2 sh sn (qhead s) (qtail s) (next_node nd)) (s\<lparr>hpd := d'\<rparr>)"
    using d d' assms(3) by (simp add: eval_nat_numeral dequeue_alone_steps)
  with d d' show ?thesis
    unfolding runs_alone_def by (intro exI [of _ d'] exI [of _ 6] conjI) simp_all
qed

text \<open>The two slots are released one after the other.\<close>

lemma release_both:
  assumes "owns s t sh" and "owns s t sn" and "sh \<noteq> sn"
  obtains d d' where "unpublish t sh s = Inr (s\<lparr>hpd := d\<rparr>)" and "unpublish t sn (s\<lparr>hpd := d\<rparr>) = Inr (s\<lparr>hpd := d'\<rparr>)"
proof -
  from unpublish_own [OF assms(1)] obtain d where
    d: "unpublish t sh s = Inr (s\<lparr>hpd := d\<rparr>)"
    "\<forall>b. b \<noteq> sh \<longrightarrow> map_option owner (slots d b) = map_option owner (slots (hpd s) b)" by blast
  with assms have "owns (s\<lparr>hpd := d\<rparr>) t sn" by (simp add: owns_def)
  from unpublish_own [OF this] obtain d' where "unpublish t sn (s\<lparr>hpd := d\<rparr>) = Inr (s\<lparr>hpd := d'\<rparr>)" by auto
  with d that show thesis by blast
qed

lemma dequeue_empty_alone:
  assumes own: "owns s t sh" "owns s t sn" "sh \<noteq> sn" and nd: "load_node s (qhead s) = Some nd" "next_node nd = None"
  shows "\<exists>d. runs_alone t a (goto t (Deq_LoadHead sh sn) s) (goto t (Idle WasEmpty) (s\<lparr>hpd := d\<rparr>))"
proof -
  from dequeue_turn [OF own(1,2) nd(1), of a] nd(2) obtain d where
    turn: "runs_alone t a (goto t (Deq_LoadHead sh sn) s)
      (goto t (Deq_Check2 sh sn (qhead s) (qtail s) None) (s\<lparr>hpd := d\<rparr>))"
    and d: "\<forall>b. map_option owner (slots d b) = map_option owner (slots (hpd s) b)" by auto
  have "owns (s\<lparr>hpd := d\<rparr>) t sh" "owns (s\<lparr>hpd := d\<rparr>) t sn" using own d by (simp_all add: owns_def)
  from release_both [OF this own(3)] obtain d1 d2 where
    "unpublish t sh (s\<lparr>hpd := d\<rparr>) = Inr (s\<lparr>hpd := d1\<rparr>)" "unpublish t sn (s\<lparr>hpd := d1\<rparr>) = Inr (s\<lparr>hpd := d2\<rparr>)" by auto
  then have "(mq_exec t a False ^^ 3) (goto t (Deq_Check2 sh sn (qhead s) (qtail s) None) (s\<lparr>hpd := d\<rparr>)) =
      goto t (Idle WasEmpty) (s\<lparr>hpd := d2\<rparr>)"
    by (simp add: eval_nat_numeral dequeue_alone_steps)
  with turn show ?thesis by (metis runs_alone_def runs_trans)
qed

lemma dequeue_pop_alone:
  assumes own: "owns s t sh" "owns s t sn" "sh \<noteq> sn" and nd: "load_node s (qhead s) = Some nd" "next_node nd = Some m"
    and lag: "qhead s \<noteq> qtail s" and m: "load_node s m = Some nd'"
  shows "\<exists>d. runs_alone t a (goto t (Deq_LoadHead sh sn) s)
    (goto t (Deq_Retire (qhead s) (data nd')) (s\<lparr>qhead := m, hpd := d\<rparr>))"
proof -
  from dequeue_turn [OF own(1,2) nd(1), of a] nd(2) obtain d where
    turn: "runs_alone t a (goto t (Deq_LoadHead sh sn) s)
      (goto t (Deq_Check2 sh sn (qhead s) (qtail s) (Some m)) (s\<lparr>hpd := d\<rparr>))"
    and d: "\<forall>b. map_option owner (slots d b) = map_option owner (slots (hpd s) b)" by auto
  let ?u = "s\<lparr>qhead := m, hpd := d\<rparr>"
  have "owns ?u t sh" "owns ?u t sn" using own d by (simp_all add: owns_def)
  from release_both [OF this own(3)] obtain d1 d2 where
    rel: "unpublish t sh ?u = Inr (?u\<lparr>hpd := d1\<rparr>)" "unpublish t sn (?u\<lparr>hpd := d1\<rparr>) = Inr (?u\<lparr>hpd := d2\<rparr>)" by blast
  have "load_node ?u m = Some nd'" using m by (simp add: load_node_def split: if_splits)
  with rel lag have "(mq_exec t a False ^^ 5) (goto t (Deq_Check2 sh sn (qhead s) (qtail s) (Some m)) (s\<lparr>hpd := d\<rparr>)) =
      goto t (Deq_Retire (qhead s) (data nd')) (s\<lparr>qhead := m, hpd := d2\<rparr>)"
    by (simp add: eval_nat_numeral dequeue_alone_steps upd_order)
  with turn show ?thesis by (metis runs_alone_def runs_trans)
qed

text \<open>A lagging tail costs one more turn.\<close>

lemma dequeue_help_alone:
  assumes own: "owns s t sh" "owns s t sn" "sh \<noteq> sn" and nd: "load_node s (qhead s) = Some nd" "next_node nd = Some m"
    and lag: "qhead s = qtail s" and m: "load_node s m = Some nd'" "m \<noteq> qhead s"
  shows "\<exists>d. runs_alone t a (goto t (Deq_LoadHead sh sn) s)
    (goto t (Deq_Retire (qhead s) (data nd')) (s\<lparr>qhead := m, qtail := m, hpd := d\<rparr>))"
proof -
  from dequeue_turn [OF own(1,2) nd(1), of a] nd(2) obtain d where
    turn: "runs_alone t a (goto t (Deq_LoadHead sh sn) s)
      (goto t (Deq_Check2 sh sn (qhead s) (qtail s) (Some m)) (s\<lparr>hpd := d\<rparr>))"
    and d: "\<forall>b. map_option owner (slots d b) = map_option owner (slots (hpd s) b)" by auto
  let ?u = "s\<lparr>qtail := m, hpd := d\<rparr>"
  have "(mq_exec t a False ^^ 2) (goto t (Deq_Check2 sh sn (qhead s) (qtail s) (Some m)) (s\<lparr>hpd := d\<rparr>)) =
      goto t (Deq_LoadHead sh sn) ?u"
    using lag by (simp add: eval_nat_numeral dequeue_alone_steps cas_tail_def)
  with turn have "runs_alone t a (goto t (Deq_LoadHead sh sn) s) (goto t (Deq_LoadHead sh sn) ?u)"
    by (metis runs_alone_def runs_trans)
  moreover have "\<exists>d'. runs_alone t a (goto t (Deq_LoadHead sh sn) ?u)
    (goto t (Deq_Retire (qhead ?u) (data nd')) (?u\<lparr>qhead := m, hpd := d'\<rparr>))"
    by (rule dequeue_pop_alone [where nd = nd]) (use own nd m d in \<open>auto simp: owns_def load_node_def split: if_splits\<close>)
  ultimately show ?thesis by (auto simp: upd_order intro: runs_trans)
qed

subsection \<open>enqueue from any statement of its loop\<close>

lemma appends_step: "appends_alone t a (mq_exec t a False s) q \<Longrightarrow> appends_alone t a s q"
  by (auto simp: appends_alone_def intro: runs_step)

lemma enqueue_from_head:
  assumes "reach mq_init mq_step s" and "pcs s t = Enq_LoadTail n" and "contents s q"
  shows "appends_alone t a s (q @ [Option.bind (nodes s n) data])"
proof -
  obtain xs "as" where h: "node_list (nodes s) (Some (qhead s)) (qhead s # xs)"
    and l: "node_list (nodes s) (Some (qtail s)) (qtail s # as)" "distinct (qhead s # xs)"
    "last (qtail s # as) = last (qhead s # xs)" "\<forall>b \<in> set (qhead s # xs). b \<notin> freed s"
    "set (qtail s # as) \<subseteq> set (qhead s # xs)"
    and new: "\<And>t n. new_of (pcs s t) = Some n \<Longrightarrow> n \<notin> set (qhead s # xs) \<and> map_option next_node (nodes s n) = Some None"
    using reach_lists [OF assms(1)] by metis
  from new [of t n] assms(2) obtain nd where n: "n \<notin> set (qhead s # xs)" "nodes s n = Some nd" "next_node nd = None"
    by auto
  have q: "q = map (\<lambda>b. Option.bind (nodes s b) data) xs"
    using contents_list [OF h assms(3)] .
  have "\<forall>b \<in> set (qtail s # as). b \<notin> freed s" using l(4,5) by blast
  from enqueue_alone [OF l(1) this assms(2), of a] obtain s' where
    s': "runs_alone t a s s'" "pcs s' t = Idle Enqueued" "qhead s' = qhead s"
    "nodes s' = nodes (store_next (last (qtail s # as)) n s)" by blast
  have ns: "nodes s' = (nodes s)(last (qhead s # xs) := map_option (\<lambda>x. x\<lparr>next_node := Some n\<rparr>) (nodes s (last (qhead s # xs))))"
    using s'(4) l(3) by (simp add: store_next_def)
  have "node_list (nodes s') (Some (qhead s')) (qhead s' # xs @ [n])"
    using node_list_append [OF h _ l(2) n] by (simp add: ns s'(3))
  moreover have "Option.bind (nodes s' b) data = Option.bind (nodes s b) data" for b
    by (cases "nodes s b") (auto simp: ns)
  ultimately have "contents s' (q @ [Option.bind (nodes s n) data])"
    unfolding contents_def q by (intro exI [of _ "xs @ [n]"]) simp
  with s' show ?thesis by (auto simp: appends_alone_def)
qed

lemma enqueue_reach:
  assumes "reach mq_init mq_step s" and "is_enqueue (pcs s t)"
  shows "reach mq_init mq_step (mq_exec t a sp s)"
proof -
  from mq_mem.reach_inv [OF assms(1)] have "dom_wf (hpd s)"
    by (auto simp: reclaim_inv_def mem_inv_def slots_inv_def)
  then obtain xs where "dom (slots (hpd s)) = set xs" by (auto simp: dom_wf_def)
  then obtain b where "slots (hpd s) b = None" by (metis ex_new_if_finite infinite_UNIV_nat List.finite_set domIff)
  from mq_step.run [OF this, of t sp] have "mq_step s (mq_exec t a sp s)" using assms(2) by (simp add: mq_exec_def)
  with assms(1) show ?thesis by (rule reach.reach_step)
qed

lemma enqueue_contents:
  assumes "reach mq_init mq_step s" and "contents s q" and "event_of t sp s = e"
  shows "\<exists>q'. contents (mq_exec t a sp s) q' \<and> fifo_step q e q'"
proof -
  from queue_linearizable [OF assms(1), of t a sp] obtain q0 q' where
    "\<forall>x. contents s x \<longleftrightarrow> x = q0" "\<forall>x. contents (mq_exec t a sp s) x \<longleftrightarrow> x = q'"
    "fifo_step q0 (event_of t sp s) q'" by auto
  with assms(2,3) show ?thesis by (intro exI [of _ q']) simp
qed

lemma enqueue_silent:
  assumes "reach mq_init mq_step s" and "contents s q" and "event_of t sp s = Silent"
  shows "contents (mq_exec t a sp s) q"
  using enqueue_contents [OF assms] by auto

lemmas loop_step = mq_exec_def is_enqueue_def event_of_def

lemma enqueue_help:
  assumes "reach mq_init mq_step s" and "pcs s t = Enq_Help n ct m" and "contents s q"
  shows "appends_alone t a s (q @ [Option.bind (nodes s n) data])"
proof (rule appends_step)
  let ?s = "mq_exec t a False s"
  have "reach mq_init mq_step ?s" using assms(1,2) by (intro enqueue_reach) (simp_all add: is_enqueue_def)
  moreover have "contents ?s q" using assms by (intro enqueue_silent) (simp_all add: event_of_def)
  moreover have "pcs ?s t = Enq_LoadTail n" "nodes ?s = nodes s" using assms(2) by (simp_all add: loop_step)
  ultimately show "appends_alone t a ?s (q @ [Option.bind (nodes s n) data])"
    using enqueue_from_head [of ?s t n q a] by simp
qed

lemma enqueue_cas:
  assumes "reach mq_init mq_step s" and "pcs s t = Enq_CasNext n ct" and "contents s q" and "load_node s ct = Some nd"
  shows "appends_alone t a s (q @ [Option.bind (nodes s n) data])"
proof (rule appends_step)
  let ?s = "mq_exec t a False s"
  have r: "reach mq_init mq_step ?s" using assms(1,2) by (intro enqueue_reach) (simp_all add: is_enqueue_def)
  show "appends_alone t a ?s (q @ [Option.bind (nodes s n) data])"
  proof (cases "next_node nd")
    case None
    with assms(2,4) have "event_of t False s = EnqueueAt t (Option.bind (nodes s n) data)" by (simp add: event_of_def)
    from enqueue_contents [OF assms(1,3) this, of a]
    have c: "contents ?s (q @ [Option.bind (nodes s n) data])" by auto
    have p: "pcs ?s t = Enq_CasTail n ct" using None assms(2,4) by (simp add: loop_step)
    let ?u = "mq_exec t a False ?s"
    have e: "event_of t False ?s = Silent" using p by (simp add: event_of_def)
    have "contents ?u (q @ [Option.bind (nodes s n) data])" by (rule enqueue_silent [OF r c e])
    moreover have "pcs ?u t = Idle Enqueued" using p by (simp add: mq_exec_def [of t a False ?s] is_enqueue_def)
    ultimately show ?thesis unfolding appends_alone_def by (blast intro: runs_step runs_refl)
  next
    case (Some m)
    have "contents ?s q" using Some assms by (intro enqueue_silent) (simp_all add: event_of_def)
    moreover have "pcs ?s t = Enq_LoadTail n" "nodes ?s = nodes s" using Some assms(2,4) by (simp_all add: loop_step)
    ultimately show ?thesis using enqueue_from_head [OF r, of t n q a] by simp
  qed
qed

lemma enqueue_check:
  assumes "reach mq_init mq_step s" and "pcs s t = Enq_Check n ct nx" and "contents s q"
  shows "appends_alone t a s (q @ [Option.bind (nodes s n) data])"
proof (rule appends_step)
  let ?s = "mq_exec t a False s"
  have r: "reach mq_init mq_step ?s" using assms(1,2) by (intro enqueue_reach) (simp_all add: is_enqueue_def)
  have c: "contents ?s q" using assms by (intro enqueue_silent) (simp_all add: event_of_def)
  have ns: "nodes ?s = nodes s" "freed ?s = freed s" using assms(2) by (auto simp: loop_step split: option.split)
  obtain xs "as" where "node_list (nodes s) (Some (qtail s)) (qtail s # as)" "\<forall>b \<in> set (qhead s # xs). b \<notin> freed s"
    "set (qtail s # as) \<subseteq> set (qhead s # xs)" using reach_lists [OF assms(1)] by metis
  then obtain nd where nd: "load_node s (qtail s) = Some nd" by (auto simp: load_node_def split: option.splits)
  consider "ct \<noteq> qtail s" | "ct = qtail s" "nx = None" | m where "ct = qtail s" "nx = Some m" by auto
  then show "appends_alone t a ?s (q @ [Option.bind (nodes s n) data])"
  proof cases
    case 1
    then have "pcs ?s t = Enq_LoadTail n" using assms(2) by (simp add: loop_step)
    from enqueue_from_head [OF r this c] show ?thesis by (simp add: ns)
  next
    case 2
    then have "pcs ?s t = Enq_CasNext n ct" using assms(2) by (simp add: loop_step)
    moreover have "load_node ?s ct = Some nd" using 2 nd by (simp add: load_node_def ns split: if_splits)
    ultimately show ?thesis using enqueue_cas [OF r _ c] ns by simp
  next
    case (3 m)
    then have "pcs ?s t = Enq_Help n ct m" using assms(2) by (simp add: loop_step)
    from enqueue_help [OF r this c] show ?thesis by (simp add: ns)
  qed
qed

lemma enqueue_alone_anywhere:
  assumes "reach mq_init mq_step s" and "new_of (pcs s t) = Some n" and "contents s q" and "\<not> reads_deleted t s"
  shows "appends_alone t a s (q @ [Option.bind (nodes s n) data])"
proof (cases "pcs s t")
  case (Enq_LoadNext n' ct)
  with assms(2,4) obtain nd where nd: "load_node s ct = Some nd" "n' = n" by (auto simp: reads_deleted_def)
  let ?s = "mq_exec t a False s"
  have "reach mq_init mq_step ?s" using assms(1) Enq_LoadNext by (intro enqueue_reach) (simp_all add: is_enqueue_def)
  moreover have "contents ?s q" using assms Enq_LoadNext by (intro enqueue_silent) (simp_all add: event_of_def)
  moreover have "pcs ?s t = Enq_Check n ct (next_node nd)" "nodes ?s = nodes s"
    using Enq_LoadNext nd by (simp_all add: loop_step)
  ultimately have "appends_alone t a ?s (q @ [Option.bind (nodes s n) data])"
    using enqueue_check [of ?s t n ct "next_node nd" q a] by simp
  then show ?thesis by (rule appends_step)
next
  case (Enq_CasNext n' ct)
  with assms(2,4) obtain nd where "load_node s ct = Some nd" "n' = n" by (auto simp: reads_deleted_def)
  with Enq_CasNext enqueue_cas [OF assms(1) _ assms(3)] show ?thesis by simp
qed (use assms enqueue_from_head [OF assms(1) _ assms(3)] enqueue_check [OF assms(1) _ assms(3)]
    enqueue_help [OF assms(1) _ assms(3)] in auto)

subsection \<open>Properties\<close>

text \<open>C20: \<open>enqueue\<close> is obstruction free and does what the sequential queue does: in every reachable
  state, wherever the other threads stand and at whichever statement of its loop the thread is,
  up to the linking of its node, the thread either is about to read through a tail that was
  deleted since it loaded it, and then crashes, or, scheduled alone, it returns, and the contents
  are then the old ones with its element at the end.\<close>

theorem enqueue_completes_alone:
  assumes "reach mq_init mq_step s" and "new_of (pcs s t) = Some n" and "contents s q"
  shows "if reads_deleted t s then pcs (mq_exec t a False s) t = Crashed
     else \<exists>s'. runs_alone t a s s' \<and> pcs s' t = Idle Enqueued \<and>
       contents s' (q @ [Option.bind (nodes s n) data])"
proof (cases "reads_deleted t s")
  case True
  then show ?thesis
    by (auto simp: reads_deleted_def mq_exec_def is_enqueue_def split: pc.splits)
next
  case False
  with enqueue_alone_anywhere [OF assms] show ?thesis by (simp add: appends_alone_def)
qed

theorem enqueue_completes_alone_witness:
  "\<exists>s s'. reach mq_init mq_step (s :: nat MPMCQueue) \<and> pcs s 1 = Enq_CasTail 1 0 \<and> runs_alone 0 9 s s' \<and>
     pcs s' 0 = Idle Enqueued \<and> contents s' [Some 7, Some 10]"
proof -
  let ?xs = "Call 1 1 (Enqueue 7) # replicate 4 (Run 1 9 False) @ [Call 0 2 (Enqueue 10)] :: nat move list"
  have "map_option (\<lambda>s. (pcs s 0, pcs s 1, qhead s, nodes s 0, nodes s 1, nodes s 2)) (mq_run ?xs (MPMCQueue_new 0)) =
      Some (Enq_LoadTail 2, Enq_CasTail 1 0, 0, Some \<lparr>data = None, next_node = Some 1\<rparr>,
        Some \<lparr>data = Some 7, next_node = None\<rparr>, Some \<lparr>data = Some 10, next_node = None\<rparr>)"
    by code_simp
  then obtain s where s: "mq_run ?xs (MPMCQueue_new 0) = Some s" "pcs s 0 = Enq_LoadTail 2" "pcs s 1 = Enq_CasTail 1 0"
    "qhead s = 0" "nodes s 0 = Some \<lparr>data = None, next_node = Some 1\<rparr>"
    "nodes s 1 = Some \<lparr>data = Some 7, next_node = None\<rparr>" "nodes s 2 = Some \<lparr>data = Some 10, next_node = None\<rparr>" by auto
  from mq_run_reach [OF this(1) reach_new] have r: "reach mq_init mq_step s" .
  have "contents s [Some 7]" unfolding contents_def by (rule exI [of _ "[1]"]) (simp add: s del: One_nat_def)
  moreover have "new_of (pcs s 0) = Some 2" "\<not> reads_deleted 0 s" using s(2) by (simp_all add: reads_deleted_def)
  ultimately have "\<exists>s'. runs_alone 0 9 s s' \<and> pcs s' 0 = Idle Enqueued \<and> contents s' ([Some 7] @ [Option.bind (nodes s 2) data])"
    using enqueue_completes_alone [OF r, of 0 2 "[Some 7]" 9] by simp
  with r s show ?thesis by auto
qed

text \<open>C21: the same for the loop of \<open>dequeue\<close>: scheduled alone, it reports an empty queue exactly when
  the queue is empty, and otherwise removes the first element and reaches the retirement of the
  old dummy node with that element in hand.\<close>

theorem dequeue_completes_alone:
  assumes "reach mq_init mq_step s" and "pcs s t = Deq_LoadHead sh sn" and "contents s q"
  shows "\<exists>s'. runs_alone t a s s' \<and>
     (case q of
        [] \<Rightarrow> pcs s' t = Idle WasEmpty \<and> contents s' []
      | x # q' \<Rightarrow> pcs s' t = Deq_Retire (qhead s) x \<and> contents s' q')"
proof -
  from mq_mem.reach_inv [OF assms(1)] have "slots_inv s" by (auto simp: reclaim_inv_def mem_inv_def)
  with assms(2) have own: "owns s t sh" "owns s t sn" "sh \<noteq> sn"
    unfolding slots_inv_def owns_def by (metis holds.simps(2) list.set_intros distinct_length_2_or_more)+
  obtain xs where h: "node_list (nodes s) (Some (qhead s)) (qhead s # xs)" "distinct (qhead s # xs)"
    "\<forall>b \<in> set (qhead s # xs). b \<notin> freed s"
    using reach_lists [OF assms(1)] by metis
  have q: "q = map (\<lambda>b. Option.bind (nodes s b) data) xs"
    using contents_list [OF h(1) assms(3)] .
  from h obtain nd where nd: "nodes s (qhead s) = Some nd" "load_node s (qhead s) = Some nd"
    and rest: "node_list (nodes s) (next_node nd) xs"
    by (auto simp: load_node_def split: option.splits)
  have s: "s = goto t (Deq_LoadHead sh sn) s" using goto_pcs [OF assms(2)] .
  show ?thesis
  proof (cases xs)
    case Nil
    with rest have "next_node nd = None" by simp
    from dequeue_empty_alone [OF own nd(2) this, of a] obtain d where
      "runs_alone t a s (goto t (Idle WasEmpty) (s\<lparr>hpd := d\<rparr>))" using s by metis
    moreover have "contents (goto t (Idle WasEmpty) (s\<lparr>hpd := d\<rparr>)) []"
      using assms(3) q Nil by (simp add: contents_def)
    ultimately show ?thesis using q Nil by auto
  next
    case (Cons m ys)
    with rest h obtain nd' where m: "next_node nd = Some m" "nodes s m = Some nd'" "load_node s m = Some nd'"
      "m \<noteq> qhead s" by (auto simp: load_node_def split: option.splits)
    have "\<exists>tl d. runs_alone t a s (goto t (Deq_Retire (qhead s) (data nd')) (s\<lparr>qhead := m, qtail := tl, hpd := d\<rparr>))"
    proof (cases "qhead s = qtail s")
      case True
      from dequeue_help_alone [OF own nd(2) m(1) True m(3,4), of a] s show ?thesis by metis
    next
      case False
      have "s\<lparr>qhead := m, hpd := d\<rparr> = s\<lparr>qhead := m, qtail := qtail s, hpd := d\<rparr>" for d by simp
      with dequeue_pop_alone [OF own nd(2) m(1) False m(3), of a] s show ?thesis by metis
    qed
    then obtain tl d where r: "runs_alone t a s (goto t (Deq_Retire (qhead s) (data nd')) (s\<lparr>qhead := m, qtail := tl, hpd := d\<rparr>))"
      by blast
    moreover have "contents (goto t (Deq_Retire (qhead s) (data nd')) (s\<lparr>qhead := m, qtail := tl, hpd := d\<rparr>))
        (map (\<lambda>b. Option.bind (nodes s b) data) ys)"
      using rest Cons m(1) by (auto simp: contents_def)
    ultimately show ?thesis using q Cons m(2) by (intro exI conjI) auto
  qed
qed

theorem dequeue_completes_alone_witness:
  "\<exists>s s'. reach mq_init mq_step (s :: nat MPMCQueue) \<and> pcs s 1 = Enq_CasTail 1 0 \<and> runs_alone 0 9 s s' \<and>
     pcs s' 0 = Deq_Retire 0 (Some 7) \<and> contents s' []"
proof -
  let ?xs = "Call 1 1 (Enqueue 7) # replicate 4 (Run 1 9 False) @
    [Call 0 5 Dequeue, Run 0 7 False, Run 0 8 False] :: nat move list"
  have "map_option (\<lambda>s. (pcs s 0, pcs s 1, qhead s, nodes s 0, nodes s 1)) (mq_run ?xs (MPMCQueue_new 0)) =
      Some (Deq_LoadHead 7 8, Enq_CasTail 1 0, 0, Some \<lparr>data = None, next_node = Some 1\<rparr>,
        Some \<lparr>data = Some 7, next_node = None\<rparr>)"
    by code_simp
  then obtain s where s: "mq_run ?xs (MPMCQueue_new 0) = Some s" "pcs s 0 = Deq_LoadHead 7 8" "pcs s 1 = Enq_CasTail 1 0"
    "qhead s = 0" "nodes s 0 = Some \<lparr>data = None, next_node = Some 1\<rparr>"
    "nodes s 1 = Some \<lparr>data = Some 7, next_node = None\<rparr>" by auto
  from mq_run_reach [OF this(1) reach_new] have r: "reach mq_init mq_step s" .
  have "contents s [Some 7]" unfolding contents_def by (rule exI [of _ "[1]"]) (simp add: s del: One_nat_def)
  from dequeue_completes_alone [OF r s(2) this, of 9] r s show ?thesis by auto
qed

end
