(* ===== verification/MPMC_Acquire.thy ===== *)
theory MPMC_Acquire
  imports MPMC_Progress
begin

text \<open>
  The queue with the statements of \<open>HazPtrDomain::acquire\<close>. In \<open>MPMC_Queue\<close> a holder gets its slot
  in one step; here \<open>acquire\<close> locks \<open>list_mutex_\<close>, walks over the slots, and takes over the first
  one it finds without an owner or links a new one with two stores, one to \<open>head_\<close> and then one to
  \<open>next_\<close> of the new slot. \<open>isProtected\<close> does not lock \<open>list_mutex_\<close>: a scan can enter the
  list between the two stores and then sees the new slot only.

  Linearizability holds for this machine as it stands. Memory safety of \<open>dequeue\<close> holds if no
  walk of a scan begins between the two stores, which is what locking the mutex in \<open>isProtected\<close>
  would enforce; a run without that restriction, in which a dequeue reads a node that was deleted
  although its published hazard pointer protects it, is exhibited. The proof is a simulation by
  a machine in which \<open>acquire\<close> is again one step, but may pick any free slot or a new one: slots
  may be released behind the walk.
\<close>

subsection \<open>State\<close>

text \<open>
  Where a thread stands inside \<open>acquire\<close>: not inside; at \<open>current\<close> of the walk; about to store itself
  as the owner of a free slot; about to store \<open>head_\<close>; about to store \<open>next_\<close> of the new slot.
\<close>

datatype acq_pc = Outside | A_Walk "addr ptr" | A_Own addr | A_Link addr | A_Next addr "addr ptr"

record 'a FineQueue =
  mq :: "'a MPMCQueue"
  acq :: "tid \<Rightarrow> acq_pc"

definition FineQueue_new :: "addr \<Rightarrow> 'a FineQueue" where
  "FineQueue_new dummy = \<lparr>mq = MPMCQueue_new dummy, acq = (\<lambda>_. Outside)\<rparr>"

subsection \<open>Steps\<close>

text \<open>Where \<open>dequeue\<close> goes on with the slot that \<open>acquire\<close> returns.\<close>

fun resume :: "'a pc \<Rightarrow> (addr \<Rightarrow> 'a pc) option" where
  "resume Deq_AcqHead = Some Deq_AcqNext"
| "resume (Deq_AcqNext sh) = Some (Deq_LoadHead sh)"
| "resume _ = None"

definition upd_hpd ::
  "((addr, unit) HazPtrDomain \<Rightarrow> (addr, unit) HazPtrDomain) \<Rightarrow> 'a MPMCQueue \<Rightarrow> 'a MPMCQueue" where
  "upd_hpd g s = s\<lparr>hpd := g (hpd s)\<rparr>"

text \<open>\<open>acquire\<close> returns: the guard unlocks the mutex.\<close>

definition acquired ::
  "tid \<Rightarrow> 'a pc \<Rightarrow> ((addr, unit) HazPtrDomain \<Rightarrow> (addr, unit) HazPtrDomain) \<Rightarrow> 'a FineQueue \<Rightarrow> 'a FineQueue" where
  "acquired t p g f =
     f\<lparr>mq := goto t p (upd_hpd (\<lambda>d. (g d)\<lparr>list_mutex := None\<rparr>) (mq f)), acq := (acq f)(t := Outside)\<rparr>"

definition acquire_step :: "tid \<Rightarrow> addr \<Rightarrow> (addr \<Rightarrow> 'a pc) \<Rightarrow> 'a FineQueue \<Rightarrow> 'a FineQueue" where
  "acquire_step t new_hp k f =
     (let d = hpd (mq f) in
      case acq f t of
        Outside \<Rightarrow>
          (case lock (list_mutex d) t of
             Inl Blocked \<Rightarrow> f
           | Inl e \<Rightarrow> f\<lparr>mq := goto t (Stuck e) (mq f)\<rparr>
           | Inr m \<Rightarrow> f\<lparr>mq := upd_hpd (\<lambda>d. d\<lparr>list_mutex := m\<rparr>) (mq f),
                       acq := (acq f)(t := A_Walk (Hazard_Pointer.head d))\<rparr>)
      | A_Walk None \<Rightarrow>
          f\<lparr>mq := upd_hpd (\<lambda>d. d\<lparr>slots := (slots d)(new_hp \<mapsto>
                \<lparr>hazard_ptr = None, owner = Some t, next_slot = None\<rparr>)\<rparr>) (mq f),
            acq := (acq f)(t := A_Link new_hp)\<rparr>
      | A_Walk (Some current) \<Rightarrow>
          (case slots d current of
             None \<Rightarrow> f\<lparr>mq := goto t (Stuck DanglingSlot) (mq f)\<rparr>
           | Some hp \<Rightarrow>
               if owner hp = None then f\<lparr>acq := (acq f)(t := A_Own current)\<rparr>
               else f\<lparr>acq := (acq f)(t := A_Walk (next_slot hp))\<rparr>)
      | A_Own current \<Rightarrow> acquired t (k current) (upd_slot current (\<lambda>h. h\<lparr>owner := Some t\<rparr>)) f
      | A_Link new \<Rightarrow>
          f\<lparr>mq := upd_hpd (\<lambda>d. d\<lparr>head := Some new\<rparr>) (mq f),
            acq := (acq f)(t := A_Next new (Hazard_Pointer.head d))\<rparr>
      | A_Next new old_head \<Rightarrow> acquired t (k new) (upd_slot new (\<lambda>h. h\<lparr>next_slot := old_head\<rparr>)) f)"

definition fine_exec :: "tid \<Rightarrow> addr \<Rightarrow> bool \<Rightarrow> 'a FineQueue \<Rightarrow> 'a FineQueue" where
  "fine_exec t a sp f =
     (case resume (pcs (mq f) t) of
        Some k \<Rightarrow> acquire_step t a k f
      | None \<Rightarrow> f\<lparr>mq := mq_exec t a sp (mq f)\<rparr>)"

text \<open>
  An \<open>acquire\<close> stands between its two stores; the next access of \<open>t\<close> is the load of \<open>head_\<close> in
  \<open>isProtected\<close>.
\<close>

definition half_linked :: "'a FineQueue \<Rightarrow> bool" where
  "half_linked f \<longleftrightarrow>
     (case list_mutex (hpd (mq f)) of
        None \<Rightarrow> False
      | Some u \<Rightarrow> (case acq f u of A_Next _ _ \<Rightarrow> True | _ \<Rightarrow> False))"

definition enters_list :: "tid \<Rightarrow> 'a FineQueue \<Rightarrow> bool" where
  "enters_list t f \<longleftrightarrow> (case pcs (mq f) t of Scan_Loop (r # rs) kept rec \<Rightarrow> True | _ \<Rightarrow> False)"

text \<open>The machine, and with \<open>guarded\<close> its runs in which no walk enters a half-linked list.\<close>

inductive fine_step :: "bool \<Rightarrow> 'a FineQueue \<Rightarrow> 'a FineQueue \<Rightarrow> bool" for guarded where
  call: "pcs (mq f) t = Idle r \<Longrightarrow> nodes (mq f) a = None \<Longrightarrow>
    fine_step guarded f (f\<lparr>mq := mq_start t a op (mq f)\<rparr>)"
| run: "slots (hpd (mq f)) a = None \<Longrightarrow> \<not> (guarded \<and> enters_list t f \<and> half_linked f) \<Longrightarrow>
    fine_step guarded f (fine_exec t a sp f)"

definition fine_init :: "'a FineQueue \<Rightarrow> bool" where
  "fine_init f \<longleftrightarrow> (\<exists>dummy. f = FineQueue_new dummy)"

text \<open>Explicit interleavings.\<close>

fun fine_move :: "bool \<Rightarrow> 'a move \<Rightarrow> 'a FineQueue \<Rightarrow> 'a FineQueue option" where
  "fine_move guarded (Call t a op) f =
     (case pcs (mq f) t of
        Idle r \<Rightarrow> if nodes (mq f) a = None then Some (f\<lparr>mq := mq_start t a op (mq f)\<rparr>) else None
      | _ \<Rightarrow> None)"
| "fine_move guarded (Run t a sp) f =
     (if slots (hpd (mq f)) a = None \<and> \<not> (guarded \<and> enters_list t f \<and> half_linked f)
      then Some (fine_exec t a sp f) else None)"

fun fine_run :: "bool \<Rightarrow> 'a move list \<Rightarrow> 'a FineQueue \<Rightarrow> 'a FineQueue option" where
  "fine_run guarded [] f = Some f"
| "fine_run guarded (x # xs) f =
     (case fine_move guarded x f of None \<Rightarrow> None | Some f' \<Rightarrow> fine_run guarded xs f')"

subsection \<open>Specification\<close>

text \<open>
  The machine in which \<open>acquire\<close> is one step: it takes over any slot without an owner or pushes a
  new one.
\<close>

inductive loose_step :: "'a MPMCQueue \<Rightarrow> 'a MPMCQueue \<Rightarrow> bool" where
  l_call: "pcs s t = Idle r \<Longrightarrow> nodes s a = None \<Longrightarrow> loose_step s (mq_start t a op s)"
| l_run: "resume (pcs s t) = None \<Longrightarrow> slots (hpd s) a = None \<Longrightarrow> loose_step s (mq_exec t a sp s)"
| l_reuse: "resume (pcs s t) = Some k \<Longrightarrow> slots (hpd s) sl = Some hp \<Longrightarrow> owner hp = None \<Longrightarrow>
    loose_step s (goto t (k sl) (s\<lparr>hpd := upd_slot sl (\<lambda>h. h\<lparr>owner := Some t\<rparr>) (hpd s)\<rparr>))"
| l_fresh: "resume (pcs s t) = Some k \<Longrightarrow> slots (hpd s) a = None \<Longrightarrow>
    loose_step s (goto t (k a) (s\<lparr>hpd := (hpd s)\<lparr>slots := (slots (hpd s))(a \<mapsto> \<lparr>hazard_ptr = None,
      owner = Some t, next_slot = Hazard_Pointer.head (hpd s)\<rparr>), head := Some a\<rparr>\<rparr>))"

definition walks_ok :: "'a MPMCQueue \<Rightarrow> bool" where
  "walks_ok s \<longleftrightarrow> (\<forall>u r b. walking (pcs s u) = Some (r, Some b) \<longrightarrow> b \<in> dom (slots (hpd s)))"

definition loose_inv :: "'a MPMCQueue \<Rightarrow> bool" where
  "loose_inv s \<longleftrightarrow> reclaim_inv s \<and> walks_ok s"

text \<open>The slots without the one that is being linked, as they were before it.\<close>

definition veil :: "addr ptr \<Rightarrow> addr ptr \<Rightarrow> 'a MPMCQueue \<Rightarrow> 'a MPMCQueue" where
  "veil x h = upd_hpd (\<lambda>d. d\<lparr>slots := slots d |` (- set_option x), head := h, list_mutex := None\<rparr>)"

fun new_slot :: "acq_pc \<Rightarrow> addr ptr" where
  "new_slot (A_Link n) = Some n"
| "new_slot (A_Next n old) = Some n"
| "new_slot _ = None"

fun seen_head :: "acq_pc \<Rightarrow> addr ptr \<Rightarrow> addr ptr" where
  "seen_head (A_Next n old) h = old"
| "seen_head _ h = h"

definition linker :: "'a FineQueue \<Rightarrow> acq_pc" where
  "linker f = (case list_mutex (hpd (mq f)) of None \<Rightarrow> Outside | Some u \<Rightarrow> acq f u)"

definition view :: "'a FineQueue \<Rightarrow> 'a MPMCQueue" where
  "view f = veil (new_slot (linker f)) (seen_head (linker f) (Hazard_Pointer.head (hpd (mq f)))) (mq f)"

text \<open>What a thread inside \<open>acquire\<close> knows.\<close>

fun acq_ok :: "tid \<Rightarrow> (addr, unit) HazPtrDomain \<Rightarrow> acq_pc \<Rightarrow> bool" where
  "acq_ok u d Outside \<longleftrightarrow> True"
| "acq_ok u d (A_Walk cur) \<longleftrightarrow> set_option cur \<subseteq> dom (slots d)"
| "acq_ok u d (A_Own sl) \<longleftrightarrow> map_option owner (slots d sl) = Some None"
| "acq_ok u d (A_Link n) \<longleftrightarrow> slots d n = Some \<lparr>hazard_ptr = None, owner = Some u, next_slot = None\<rparr>"
| "acq_ok u d (A_Next n old) \<longleftrightarrow>
     slots d n = Some \<lparr>hazard_ptr = None, owner = Some u, next_slot = None\<rparr> \<and> Hazard_Pointer.head d = Some n"

definition lock_ok :: "'a FineQueue \<Rightarrow> bool" where
  "lock_ok f \<longleftrightarrow> (\<forall>u. (acq f u \<noteq> Outside \<longleftrightarrow> list_mutex (hpd (mq f)) = Some u) \<and>
     (acq f u \<noteq> Outside \<longrightarrow> resume (pcs (mq f) u) \<noteq> None) \<and> acq_ok u (hpd (mq f)) (acq f u))"

definition fine_inv :: "'a FineQueue \<Rightarrow> bool" where
  "fine_inv f \<longleftrightarrow> loose_inv (view f) \<and> lock_ok f"

definition is_free :: "(addr \<rightharpoonup> 'p HazardPointer) \<Rightarrow> addr \<Rightarrow> bool" where
  "is_free h a \<longleftrightarrow> map_option owner (h a) = Some None"

text \<open>A step that leaves everything but the domain alone.\<close>

definition domain_only :: "tid \<Rightarrow> (addr \<Rightarrow> 'a pc) \<Rightarrow> 'a MPMCQueue \<Rightarrow> 'a MPMCQueue \<Rightarrow> bool" where
  "domain_only t k s s' \<longleftrightarrow>
     (\<exists>p d. s' = goto t p (s\<lparr>hpd := d\<rparr>) \<and> (p = pcs s t \<or> (\<exists>sl. p = k sl) \<or> (\<exists>e. p = Stuck e)))"

subsection \<open>The machine with acquire in one step\<close>

lemma slot_list_next:
  assumes "slot_list h cur xs" and "a \<in> set xs" and "h a = Some hp"
  shows "set_option (next_slot hp) \<subseteq> set xs"
  using assms
proof (induction xs arbitrary: cur)
  case (Cons b bs)
  then show ?case by (cases bs) (auto split: option.splits)
qed simp

lemma dom_wf_closed:
  assumes "dom_wf d"
  shows "set_option (Hazard_Pointer.head d) \<subseteq> dom (slots d)"
    and "slots d a = Some hp \<Longrightarrow> set_option (next_slot hp) \<subseteq> dom (slots d)"
proof -
  from assms obtain xs where xs: "slot_list (slots d) (Hazard_Pointer.head d) xs" "dom (slots d) = set xs"
    by (auto simp: dom_wf_def)
  show "set_option (Hazard_Pointer.head d) \<subseteq> dom (slots d)" using xs by (cases xs) auto
  show "set_option (next_slot hp) \<subseteq> dom (slots d)" if "slots d a = Some hp"
    using slot_list_next [OF xs(1) _ that] that xs(2) by blast
qed

lemma resume_cases:
  assumes "resume p = Some k"
  obtains "p = Deq_AcqHead" "k = Deq_AcqNext" | sh where "p = Deq_AcqNext sh" "k = Deq_LoadHead sh"
  using assms by (cases p) auto

lemma resume_resumes: "resume p = Some k \<Longrightarrow> resumes p k"
  by (erule resume_cases) (auto simp: resumes_def)

lemma resume_walking: "resume p = Some k \<Longrightarrow> walking p = None \<and> walking (k sl) = None"
  by (erule resume_cases) auto

lemma resume_chain: "resume p = Some k \<Longrightarrow> knows c hi ti (k sl) \<and> new_of (k sl) = None"
  by (erule resume_cases) auto

lemma goto_hpd_chain:
  assumes "chain_inv c hi ti s" and "resume (pcs s t) = Some k"
  shows "chain_inv c hi ti (goto t (k sl) (s\<lparr>hpd := d\<rparr>))"
  by (rule chain_inv_goto [OF assms(1), where t = t and p = "k sl"]) (use resume_chain [OF assms(2)] in auto)

text \<open>The steps outside \<open>acquire\<close> leave the shape of the slots alone.\<close>

lemmas hpd_defs = publish_def protect_def unpublish_def holder_release_def release_def and_goto_def

lemma commit_frame:
  assumes "commit_retired t D = Some (Inr D')"
  shows "slots D' = slots D" "Hazard_Pointer.head D' = Hazard_Pointer.head D" "list_mutex D' = list_mutex D"
  using commit_retired_Inr [OF assms] by auto

lemma dequeue_frame:
  assumes "resume (pcs s t) = None"
  shows "Hazard_Pointer.head (hpd (dequeue_step t a sp s (pcs s t))) = Hazard_Pointer.head (hpd s)"
    "list_mutex (hpd (dequeue_step t a sp s (pcs s t))) = list_mutex (hpd s)"
    "dom (slots (hpd (dequeue_step t a sp s (pcs s t)))) = dom (slots (hpd s))"
    "b \<notin> set (holds (pcs s t)) \<Longrightarrow> slots (hpd (dequeue_step t a sp s (pcs s t))) b = slots (hpd s) b"
  using assms
  by (cases "pcs s t"; auto simp: hpd_defs Let_def commit_frame split: option.splits sum.splits hp_error.splits)+

lemma enqueue_frame: "hpd (enqueue_step t sp s p) = hpd s"
  by (cases p) (auto split: option.split)

lemma scan_frame:
  "Hazard_Pointer.head (hpd (scan_step t s p)) = Hazard_Pointer.head (hpd s)"
  "list_mutex (hpd (scan_step t s p)) = list_mutex (hpd s)" "slots (hpd (scan_step t s p)) = slots (hpd s)"
  by (cases "(t, s, p)" rule: scan_step.cases; auto simp: lock_def split: option.split)+

lemma exec_frame:
  assumes "resume (pcs s t) = None"
  shows "Hazard_Pointer.head (hpd (mq_exec t a sp s)) = Hazard_Pointer.head (hpd s)"
    "list_mutex (hpd (mq_exec t a sp s)) = list_mutex (hpd s)"
    "dom (slots (hpd (mq_exec t a sp s))) = dom (slots (hpd s))"
    "b \<notin> set (holds (pcs s t)) \<Longrightarrow> slots (hpd (mq_exec t a sp s)) b = slots (hpd s) b"
  using dequeue_frame [OF assms] by (simp_all add: mq_exec_def enqueue_frame scan_frame)

lemma start_frame:
  "slots (hpd (mq_start t a op s)) = slots (hpd s)"
  "Hazard_Pointer.head (hpd (mq_start t a op s)) = Hazard_Pointer.head (hpd s)"
  "list_mutex (hpd (mq_start t a op s)) = list_mutex (hpd s)"
  by (cases op; auto simp: mq_start_def scan_begin_def RegisterThread_def and_goto_def lock_def Let_def
      split: sum.split option.split)+

lemma dequeue_others: "u \<noteq> t \<Longrightarrow> pcs (dequeue_step t a sp s p) u = pcs s u"
  by (cases p) (auto simp: hpd_defs acquire_into_def try_bind_def Let_def
      split: option.splits sum.splits hp_error.splits prod.splits)

lemma exec_others: "u \<noteq> t \<Longrightarrow> pcs (mq_exec t a sp s) u = pcs s u"
proof -
  assume u: "u \<noteq> t"
  have "pcs (enqueue_step t sp s p) u = pcs s u" for p
    using u by (cases p) (auto split: option.split)
  moreover have "pcs (scan_step t s p) u = pcs s u" for p
    using u by (cases "(t, s, p)" rule: scan_step.cases) (auto simp: lock_def split: option.split)
  ultimately show ?thesis using dequeue_others [OF u, of a sp s "pcs s t"] by (simp add: mq_exec_def)
qed

lemma start_pcs: "pcs (mq_start t a op s) u = pcs s u \<or> walking (pcs (mq_start t a op s) u) = None"
  by (cases op) (auto simp: mq_start_def scan_begin_def RegisterThread_def and_goto_def lock_def Let_def
      split: sum.split option.split)

lemma dequeue_walking: "\<not> is_scan p \<Longrightarrow> \<not> is_enqueue p \<Longrightarrow> pcs s t = p \<Longrightarrow> walking (pcs (dequeue_step t a sp s p) t) = None"
  by (cases p) (auto simp: is_scan_def is_enqueue_def hpd_defs acquire_into_def try_bind_def Let_def
      split: option.splits sum.splits hp_error.splits prod.splits)

lemma exec_walking:
  assumes "walking (pcs (mq_exec t a sp s) t) = Some (r, Some b)"
  shows "Hazard_Pointer.head (hpd s) = Some b \<or> (\<exists>c hp. slots (hpd s) c = Some hp \<and> next_slot hp = Some b)"
proof -
  have "walking (pcs (enqueue_step t sp s p) t) = None" if "is_enqueue p" "pcs s t = p" for p
    using that by (cases p) (auto simp: is_enqueue_def split: option.split)
  with assms dequeue_walking [of "pcs s t" s t a sp] have "is_scan (pcs s t)"
    "walking (pcs (scan_step t s (pcs s t)) t) = Some (r, Some b)"
    by (auto simp: mq_exec_def split: if_splits)
  then show ?thesis
    by (cases "(t, s, pcs s t)" rule: scan_step.cases)
      (auto simp: is_scan_def lock_def split: option.splits if_splits)
qed

lemma walks_ok_mono:
  assumes "walks_ok s" and "dom (slots (hpd s)) \<subseteq> dom (slots (hpd s'))"
    and "\<And>u r b. walking (pcs s' u) = Some (r, Some b) \<Longrightarrow> walking (pcs s u) = Some (r, Some b) \<or> b \<in> dom (slots (hpd s))"
  shows "walks_ok s'"
  using assms unfolding walks_ok_def by blast

lemma reclaim_dom_wf: "reclaim_inv s \<Longrightarrow> dom_wf (hpd s)"
  by (auto simp: reclaim_inv_def mem_inv_def slots_inv_def)

lemma exec_walks_ok:
  assumes "loose_inv s" and "resume (pcs s t) = None"
  shows "walks_ok (mq_exec t a sp s)"
proof (rule walks_ok_mono [of s])
  from assms(1) show "walks_ok s" by (simp add: loose_inv_def)
  from exec_frame(3) [OF assms(2)] show "dom (slots (hpd s)) \<subseteq> dom (slots (hpd (mq_exec t a sp s)))" by simp
  from assms(1) have wf: "dom_wf (hpd s)" by (simp add: loose_inv_def reclaim_dom_wf)
  fix u r b
  assume "walking (pcs (mq_exec t a sp s) u) = Some (r, Some b)"
  then show "walking (pcs s u) = Some (r, Some b) \<or> b \<in> dom (slots (hpd s))"
    using exec_walking [of t a sp s r b] dom_wf_closed [OF wf] exec_others [of u t a sp s]
    by (cases "u = t") fastforce+
qed

lemma resume_walks_ok:
  assumes "walks_ok s" and "resume (pcs s t) = Some k" and "dom (slots (hpd s)) \<subseteq> dom (slots d)"
  shows "walks_ok (goto t (k sl) (s\<lparr>hpd := d\<rparr>))"
  by (rule walks_ok_mono [OF assms(1)]) (use assms(3) resume_walking [OF assms(2)] in \<open>auto split: if_splits\<close>)

lemma reclaim_mono: "simulates c hi s e s' \<Longrightarrow> mem_inv c hi s' \<Longrightarrow> reclaim_inv s'"
  by (auto simp: simulates_def reclaim_inv_def intro: mem_inv_mono)

lemma loose_step_inv:
  assumes "loose_step s s'" and inv: "loose_inv s"
  shows "loose_inv s'"
proof -
  from inv obtain c hi ti where ch: "chain_inv c hi ti s" and mem: "mem_inv c hi s"
    by (auto simp: loose_inv_def reclaim_inv_def)
  from inv have w: "walks_ok s" by (simp add: loose_inv_def)
  from assms(1) show ?thesis
  proof cases
    case (l_call t r a op)
    have "walks_ok s'" unfolding l_call
    proof (rule walks_ok_mono [OF w])
      show "walking (pcs s u) = Some (r, Some b) \<or> b \<in> dom (slots (hpd s))"
        if "walking (pcs (mq_start t a op s) u) = Some (r, Some b)" for u r b
        using start_pcs [of t a op s u] that by auto
    qed (simp add: start_frame)
    moreover have "reclaim_inv s'" unfolding l_call
      using call_simulates [OF ch l_call(3)] call_mem [OF mem l_call(2)] by (rule reclaim_mono)
    ultimately show ?thesis by (simp add: loose_inv_def)
  next
    case (l_run t a sp)
    have "reclaim_inv s'" unfolding l_run
      using exec_simulates [OF ch] mem_exec [OF mem ch l_run(3)] by (rule reclaim_mono)
    with exec_walks_ok [OF inv l_run(2)] show ?thesis by (simp add: l_run loose_inv_def)
  next
    case (l_reuse t k sl hp)
    from mem_reuse [OF mem resume_resumes [OF l_reuse(2)] l_reuse(3,4)] goto_hpd_chain [OF ch l_reuse(2)]
    have "reclaim_inv s'" unfolding l_reuse reclaim_inv_def by blast
    moreover have "walks_ok s'" unfolding l_reuse by (rule resume_walks_ok [OF w l_reuse(2)]) auto
    ultimately show ?thesis by (simp add: loose_inv_def)
  next
    case (l_fresh t k a)
    from mem_fresh [OF mem resume_resumes [OF l_fresh(2)] l_fresh(3)] goto_hpd_chain [OF ch l_fresh(2)]
    have "reclaim_inv s'" unfolding l_fresh reclaim_inv_def by blast
    moreover have "walks_ok s'" unfolding l_fresh by (rule resume_walks_ok [OF w l_fresh(2)]) auto
    ultimately show ?thesis by (simp add: loose_inv_def)
  qed
qed

interpretation loose: invariant_system mq_init loose_step loose_inv
proof unfold_locales
  show "loose_inv s" if "mq_init s" for s :: "'a MPMCQueue"
    using that mq_mem.inv_init [OF that] by (auto simp: loose_inv_def walks_ok_def mq_init_def MPMCQueue_new_def)
qed (fact loose_step_inv)

subsection \<open>The view without the new slot\<close>

lemma restrict_UNIV [simp]: "m |` UNIV = m"
  by (simp add: restrict_map_def)

lemma veil_sel [simp]:
  "nodes (veil x h s) = nodes s" "qhead (veil x h s) = qhead s" "qtail (veil x h s) = qtail s"
  "freed (veil x h s) = freed s" "pcs (veil x h s) = pcs s"
  "hpd (veil x h s) = (hpd s)\<lparr>slots := slots (hpd s) |` (- set_option x), head := h, list_mutex := None\<rparr>"
  by (simp_all add: veil_def upd_hpd_def)

lemma veil_load [simp]: "load_node (veil x h s) n = load_node s n"
  by (simp add: load_node_def)

lemma veil_upd [simp]:
  "goto t p (veil x h s) = veil x h (goto t p s)"
  "(veil x h s)\<lparr>qhead := n\<rparr> = veil x h (s\<lparr>qhead := n\<rparr>)"
  "(veil x h s)\<lparr>nodes := ns\<rparr> = veil x h (s\<lparr>nodes := ns\<rparr>)"
  "store_next n m (veil x h s) = veil x h (store_next n m s)"
  "cas_tail sp n m (veil x h s) = veil x h (cas_tail sp n m s)"
  "delete_node r (veil x h s) = veil x h (delete_node r s)"
  by (simp_all add: veil_def upd_hpd_def goto_def store_next_def cas_tail_def delete_node_def)

lemma veil_hpd: "slots D = slots (hpd s) \<Longrightarrow>
  (veil x h s)\<lparr>hpd := D\<lparr>slots := slots (hpd s) |` (- set_option x), head := h, list_mutex := None\<rparr>\<rparr> = veil x h (s\<lparr>hpd := D\<rparr>)"
  by (simp add: veil_def upd_hpd_def)

lemma veil_publish:
  "x \<noteq> Some sl \<Longrightarrow> and_goto t p (veil x h s) (publish sl v (veil x h s)) = veil x h (and_goto t p s (publish sl v s))"
  by (auto simp: and_goto_def publish_def protect_def upd_slot_def veil_def upd_hpd_def goto_def
      restrict_map_def fun_eq_iff split: option.split)

lemma veil_unpublish:
  "x \<noteq> Some sl \<Longrightarrow> and_goto t p (veil x h s) (unpublish t sl (veil x h s)) = veil x h (and_goto t p s (unpublish t sl s))"
  by (auto simp: and_goto_def unpublish_def holder_release_def release_def upd_slot_def veil_def upd_hpd_def goto_def
      restrict_map_def fun_eq_iff Let_def split: option.split)

lemma commit_veiled:
  "commit_retired t (D\<lparr>slots := S, head := H, list_mutex := M\<rparr>) =
   map_option (map_sum id (\<lambda>D'. D'\<lparr>slots := S, head := H, list_mutex := M\<rparr>)) (commit_retired t D)"
  by (auto simp: commit_retired_def Let_def splice_local_def upd_tl_def Scan_locked lock_def split: option.split)

lemma push_veiled:
  "push_retired t p d (D\<lparr>slots := S, head := H, list_mutex := M\<rparr>) = (push_retired t p d D)\<lparr>slots := S, head := H, list_mutex := M\<rparr>"
  "list_full t (D\<lparr>slots := S, head := H, list_mutex := M\<rparr>) = list_full t D"
  by (simp_all add: push_retired_def upd_tl_def list_full_def)

lemma veil_dequeue:
  assumes "resume (pcs s t) = None" and "\<And>b. b \<in> set (holds (pcs s t)) \<Longrightarrow> x \<noteq> Some b"
  shows "dequeue_step t a sp (veil x h s) (pcs s t) = veil x h (dequeue_step t a sp s (pcs s t))"
proof (cases "pcs s t")
  case (Deq_Retire ch v)
  then show ?thesis by (simp add: Let_def push_veiled veil_hpd)
next
  case (Deq_Commit v)
  show ?thesis
  proof (cases "commit_retired t (hpd s)")
    case (Some r)
    show ?thesis
    proof (cases r)
      case (Inr D)
      with Some commit_frame [of t "hpd s" D] Deq_Commit show ?thesis
        by (simp add: commit_veiled veil_hpd)
    qed (use Some Deq_Commit in \<open>auto simp: commit_veiled split: hp_error.split\<close>)
  qed (simp add: Deq_Commit commit_veiled)
qed (use assms in \<open>auto simp: veil_publish veil_unpublish split: option.split\<close>)

lemma splice_local_veiled:
  "splice_local t (D\<lparr>slots := S, head := H, list_mutex := M\<rparr>) = (splice_local t D)\<lparr>slots := S, head := H, list_mutex := M\<rparr>"
  by (simp add: splice_local_def upd_tl_def)

lemma veil_scan:
  assumes "h = Hazard_Pointer.head (hpd s) \<or> (\<forall>r rs kept rec. p \<noteq> Scan_Loop (r # rs) kept rec)"
    and "\<And>r b. walking p = Some (r, Some b) \<Longrightarrow> x \<noteq> Some b"
  shows "scan_step t (veil x h s) p = veil x h (scan_step t s p)"
  using assms
  by (cases "(t, s, p)" rule: scan_step.cases)
    (auto simp: lock_def veil_def upd_hpd_def goto_def delete_node_def splice_local_veiled split: option.split)

lemma veil_enqueue: "enqueue_step t sp (veil x h s) p = veil x h (enqueue_step t sp s p)"
  by (cases p) (auto split: option.split)

lemma veil_exec:
  assumes "resume (pcs s t) = None" and "\<And>b. b \<in> set (holds (pcs s t)) \<Longrightarrow> x \<noteq> Some b"
    and "h = Hazard_Pointer.head (hpd s) \<or> (\<forall>r rs kept rec. pcs s t \<noteq> Scan_Loop (r # rs) kept rec)"
    and "\<And>r b. walking (pcs s t) = Some (r, Some b) \<Longrightarrow> x \<noteq> Some b"
  shows "mq_exec t a sp (veil x h s) = veil x h (mq_exec t a sp s)"
  using veil_dequeue [OF assms(1,2)] veil_scan [OF assms(3,4)] by (simp add: mq_exec_def veil_enqueue)

lemma veil_start: "mq_start t a op (veil x h s) = veil x h (mq_start t a op s)"
proof (cases op)
  case StartScan
  then show ?thesis
    by (auto simp: mq_start_def scan_begin_def lock_def veil_def upd_hpd_def goto_def split: option.split)
next
  case Register
  then show ?thesis
    by (auto simp: mq_start_def RegisterThread_def lock_def Let_def upd_tl_def and_goto_def veil_def upd_hpd_def goto_def
        split: option.split)
qed (simp_all add: mq_start_def)

subsection \<open>The simulation\<close>

lemma view_sel [simp]:
  "nodes (view f) = nodes (mq f)" "freed (view f) = freed (mq f)" "pcs (view f) = pcs (mq f)"
  "load_node (view f) n = load_node (mq f) n"
  by (simp_all add: view_def)

lemma linker_cases:
  assumes "lock_ok f"
  shows "linker f = Outside \<and> list_mutex (hpd (mq f)) = None \<or>
    (\<exists>u. linker f = acq f u \<and> acq f u \<noteq> Outside \<and> list_mutex (hpd (mq f)) = Some u)"
  using assms by (cases "list_mutex (hpd (mq f))") (auto simp: linker_def lock_ok_def)

lemma half_linked_iff: "half_linked f \<longleftrightarrow> (\<exists>n old. linker f = A_Next n old)"
  by (auto simp: half_linked_def linker_def split: option.split acq_pc.split)

text \<open>The new slot is not one that a thread holds or walks on.\<close>

lemma new_slot_hidden:
  assumes "fine_inv f"
  shows "b \<in> set (holds (pcs (mq f) t)) \<Longrightarrow> new_slot (linker f) \<noteq> Some b"
    and "walking (pcs (mq f) t) = Some (r, Some b) \<Longrightarrow> new_slot (linker f) \<noteq> Some b"
proof -
  from assms have s: "slots_inv (view f)" and w: "walks_ok (view f)"
    by (auto simp: fine_inv_def loose_inv_def reclaim_inv_def mem_inv_def)
  have hid: "b \<notin> dom (slots (hpd (view f)))" if "new_slot (linker f) = Some b"
    using that by (simp add: view_def)
  from s hid show "b \<in> set (holds (pcs (mq f) t)) \<Longrightarrow> new_slot (linker f) \<noteq> Some b"
    by (fastforce simp: slots_inv_def)
  from w hid show "walking (pcs (mq f) t) = Some (r, Some b) \<Longrightarrow> new_slot (linker f) \<noteq> Some b"
    by (fastforce simp: walks_ok_def)
qed

lemma view_frame:
  assumes "list_mutex (hpd s) = list_mutex (hpd (mq f))" and "Hazard_Pointer.head (hpd s) = Hazard_Pointer.head (hpd (mq f))"
  shows "view (f\<lparr>mq := s\<rparr>) = veil (new_slot (linker f)) (seen_head (linker f) (Hazard_Pointer.head (hpd (mq f)))) s"
  using assms by (cases "list_mutex (hpd (mq f))") (simp_all add: view_def linker_def)

lemma view_exec:
  assumes inv: "fine_inv f" and t: "resume (pcs (mq f) t) = None" and g: "\<not> (enters_list t f \<and> half_linked f)"
  shows "view (f\<lparr>mq := mq_exec t a sp (mq f)\<rparr>) = mq_exec t a sp (view f)"
proof -
  have "seen_head (linker f) (Hazard_Pointer.head (hpd (mq f))) = Hazard_Pointer.head (hpd (mq f)) \<or>
      (\<forall>r rs kept rec. pcs (mq f) t \<noteq> Scan_Loop (r # rs) kept rec)"
    using g unfolding half_linked_iff enters_list_def by (cases "linker f") auto
  from veil_exec [OF t new_slot_hidden(1) [OF inv] this new_slot_hidden(2) [OF inv]] show ?thesis
    using exec_frame(1,2) [OF t] by (subst view_frame) (simp_all add: view_def)
qed

lemma held_owner:
  assumes "fine_inv f" and "b \<in> set (holds (pcs (mq f) t))"
  shows "map_option owner (slots (hpd (mq f)) b) = Some (Some t)"
proof -
  from assms(1) have "slots_inv (view f)" by (auto simp: fine_inv_def loose_inv_def reclaim_inv_def mem_inv_def)
  with assms(2) have "map_option owner (slots (hpd (view f)) b) = Some (Some t)" by (auto simp: slots_inv_def)
  then show ?thesis by (auto simp: view_def restrict_map_def split: if_splits)
qed

lemma lock_ok_frame:
  assumes inv: "fine_inv f" and t: "resume (pcs (mq f) t) = None"
    and s: "\<And>u. u \<noteq> t \<Longrightarrow> pcs s u = pcs (mq f) u" "list_mutex (hpd s) = list_mutex (hpd (mq f))"
      "Hazard_Pointer.head (hpd s) = Hazard_Pointer.head (hpd (mq f))" "dom (slots (hpd s)) = dom (slots (hpd (mq f)))"
      "\<And>b. b \<notin> set (holds (pcs (mq f) t)) \<Longrightarrow> slots (hpd s) b = slots (hpd (mq f)) b"
  shows "lock_ok (f\<lparr>mq := s\<rparr>)"
  unfolding lock_ok_def
proof (intro allI conjI)
  fix u
  from inv have u: "acq f u \<noteq> Outside \<longleftrightarrow> list_mutex (hpd (mq f)) = Some u"
    "acq f u \<noteq> Outside \<longrightarrow> resume (pcs (mq f) u) \<noteq> None" "acq_ok u (hpd (mq f)) (acq f u)"
    by (simp_all add: fine_inv_def lock_ok_def)
  from u(1) s(2) show "(acq (f\<lparr>mq := s\<rparr>) u \<noteq> Outside) = (list_mutex (hpd (mq (f\<lparr>mq := s\<rparr>))) = Some u)" by simp
  from u(2) t s(1) show "acq (f\<lparr>mq := s\<rparr>) u \<noteq> Outside \<longrightarrow> resume (pcs (mq (f\<lparr>mq := s\<rparr>)) u) \<noteq> None"
    by (cases "u = t") auto
  have new: "n \<notin> set (holds (pcs (mq f) t))" if "acq f u = A_Link n \<or> (\<exists>old. acq f u = A_Next n old)" for n
    using new_slot_hidden(1) [OF inv, of n t] that u(1) by (auto simp: linker_def)
  have own: "n \<notin> set (holds (pcs (mq f) t))" if "acq f u = A_Own n" for n
    using held_owner [OF inv, of n t] that u(3) by auto
  show "acq_ok u (hpd (mq (f\<lparr>mq := s\<rparr>))) (acq (f\<lparr>mq := s\<rparr>) u)"
    using u(3) s(3-5) new own by (cases "acq f u") auto
qed

lemma start_others: "u \<noteq> t \<Longrightarrow> pcs (mq_start t a op s) u = pcs s u"
  by (cases op) (auto simp: mq_start_def scan_begin_def RegisterThread_def and_goto_def lock_def Let_def
      split: sum.split option.split)

lemma acquire_step_sim:
  assumes inv: "fine_inv f" and t: "resume (pcs (mq f) t) = Some k" and a: "slots (hpd (mq f)) a = None"
  shows "(view (acquire_step t a k f) = view f \<or> loose_step (view f) (view (acquire_step t a k f))) \<and>
    lock_ok (acquire_step t a k f)"
proof -
  from inv have lk: "lock_ok f" and wf: "dom_wf (hpd (view f))"
    by (simp_all add: fine_inv_def loose_inv_def reclaim_dom_wf)
  from lk have other: "acq f u = Outside" if "acq f t \<noteq> Outside" "u \<noteq> t" for u
    using that by (auto simp: lock_ok_def)
  from lk have me: "list_mutex (hpd (mq f)) = Some t" "linker f = acq f t" if "acq f t \<noteq> Outside"
    using that by (auto simp: lock_ok_def linker_def)
  from lk have mine: "acq_ok t (hpd (mq f)) (acq f t)" by (simp add: lock_ok_def)
  have t': "resume (pcs (view f) t) = Some k" using t by simp
  show ?thesis
  proof (cases "acq f t")
    case Outside
    show ?thesis
    proof (cases "list_mutex (hpd (mq f))")
      case None
      then have "linker f = Outside" by (simp add: linker_def)
      moreover from this dom_wf_closed(1) [OF wf] have
        "set_option (Hazard_Pointer.head (hpd (mq f))) \<subseteq> dom (slots (hpd (mq f)))"
        by (simp add: view_def)
      ultimately show ?thesis using None lk t Outside
        by (auto simp: acquire_step_def Let_def view_def linker_def veil_def upd_hpd_def lock_ok_def)
    next
      case (Some u)
      with lk Outside have "u \<noteq> t" by (auto simp: lock_ok_def)
      with Some lk Outside show ?thesis by (simp add: acquire_step_def Let_def lock_def)
    qed
  next
    case (A_Walk cur)
    then have v: "slots (hpd (view f)) = slots (hpd (mq f))" using me(2) by (simp add: view_def)
    show ?thesis
    proof (cases cur)
      case None
      have "(slots (hpd (mq f)))(a \<mapsto> hp) |` (- {a}) = slots (hpd (mq f))" for hp
        using a by (auto simp: restrict_map_def fun_eq_iff)
      with None A_Walk me lk t other show ?thesis
        by (auto simp: acquire_step_def Let_def view_def linker_def veil_def upd_hpd_def lock_ok_def)
    next
      case (Some b)
      with mine A_Walk obtain hp where hp: "slots (hpd (mq f)) b = Some hp" by auto
      with dom_wf_closed(2) [OF wf] v have "set_option (next_slot hp) \<subseteq> dom (slots (hpd (mq f)))" by metis
      with hp Some A_Walk me lk t other show ?thesis
        by (auto simp: acquire_step_def Let_def view_def linker_def lock_ok_def)
    qed
  next
    case (A_Own sl)
    with mine obtain hp where hp: "slots (hpd (mq f)) sl = Some hp" "owner hp = None" by auto
    with A_Own me(2) have hp': "slots (hpd (view f)) sl = Some hp" by (simp add: view_def)
    have "view (acquire_step t a k f) =
        goto t (k sl) ((view f)\<lparr>hpd := upd_slot sl (\<lambda>h. h\<lparr>owner := Some t\<rparr>) (hpd (view f))\<rparr>)"
      using A_Own me by (simp add: acquire_step_def Let_def acquired_def view_def linker_def veil_def upd_hpd_def goto_def upd_slot_def)
    with loose_step.l_reuse [OF t' hp' hp(2)] have "loose_step (view f) (view (acquire_step t a k f))" by simp
    moreover have "lock_ok (acquire_step t a k f)"
      using A_Own me(1) other by (auto simp: acquire_step_def Let_def acquired_def lock_ok_def upd_hpd_def)
    ultimately show ?thesis by blast
  next
    case (A_Link n)
    with me lk t other show ?thesis
      by (auto simp: acquire_step_def Let_def view_def linker_def veil_def upd_hpd_def lock_ok_def)
  next
    case (A_Next n old)
    with mine have hp: "slots (hpd (mq f)) n = Some \<lparr>hazard_ptr = None, owner = Some t, next_slot = None\<rparr>"
      "Hazard_Pointer.head (hpd (mq f)) = Some n" by simp_all
    from A_Next me(2) have v: "slots (hpd (view f)) n = None" "Hazard_Pointer.head (hpd (view f)) = old"
      by (simp_all add: view_def)
    have "view (acquire_step t a k f) = goto t (k n) ((view f)\<lparr>hpd := (hpd (view f))\<lparr>slots := (slots (hpd (view f)))(n \<mapsto>
        \<lparr>hazard_ptr = None, owner = Some t, next_slot = Hazard_Pointer.head (hpd (view f))\<rparr>), head := Some n\<rparr>\<rparr>)"
      using A_Next me hp
      by (simp add: acquire_step_def Let_def acquired_def view_def linker_def veil_def upd_hpd_def goto_def upd_slot_def
          restrict_map_def fun_eq_iff)
    with loose_step.l_fresh [OF t' v(1)] have "loose_step (view f) (view (acquire_step t a k f))" by simp
    moreover have "lock_ok (acquire_step t a k f)"
      using A_Next me(1) other by (auto simp: acquire_step_def Let_def acquired_def lock_ok_def upd_hpd_def)
    ultimately show ?thesis by blast
  qed
qed

lemma fine_step_sim:
  assumes "fine_step True f f'" and inv: "fine_inv f"
  shows "(view f' = view f \<or> loose_step (view f) (view f')) \<and> lock_ok f'"
  using assms(1)
proof cases
  case (call t r a op)
  have "view f' = mq_start t a op (view f)"
    unfolding call by (subst view_frame) (simp_all add: start_frame view_def veil_start)
  moreover have "lock_ok f'" unfolding call
    by (rule lock_ok_frame [OF inv, of t]) (use call(2) in \<open>simp_all add: start_others start_frame\<close>)
  moreover from loose_step.l_call [of "view f" t r a op] call(2,3) have "loose_step (view f) (mq_start t a op (view f))" by simp
  ultimately show ?thesis by simp
next
  case (run a t sp)
  show ?thesis
  proof (cases "resume (pcs (mq f) t)")
    case None
    then have f': "f' = f\<lparr>mq := mq_exec t a sp (mq f)\<rparr>" by (simp add: run fine_exec_def)
    have "view f' = mq_exec t a sp (view f)" unfolding f' using run(3) by (intro view_exec [OF inv None]) simp
    moreover have "lock_ok f'" unfolding f'
      by (rule lock_ok_frame [OF inv None]) (simp_all add: exec_others exec_frame [OF None])
    moreover from run(2) have "slots (hpd (view f)) a = None" by (simp add: view_def restrict_map_def)
    with loose_step.l_run [of "view f" t a sp] None have "loose_step (view f) (mq_exec t a sp (view f))" by simp
    ultimately show ?thesis by simp
  next
    case (Some k)
    with acquire_step_sim [OF inv Some run(2)] show ?thesis by (simp add: run fine_exec_def)
  qed
qed

lemma view_new: "view (FineQueue_new d) = MPMCQueue_new d"
  by (simp add: view_def veil_def upd_hpd_def linker_def FineQueue_new_def MPMCQueue_new_def HazPtrDomain_init_def)

interpretation fine_loose: simulation fine_init "fine_step True" mq_init loose_step "\<lambda>f s. s = view f \<and> fine_inv f"
proof unfold_locales
  fix f :: "'a FineQueue"
  assume "fine_init f"
  then obtain d where f: "f = FineQueue_new d" by (auto simp: fine_init_def)
  then have i: "mq_init (view f)" by (auto simp: view_new mq_init_def)
  moreover from i have "fine_inv f"
    by (simp add: fine_inv_def loose.inv_init lock_ok_def)
      (simp add: f FineQueue_new_def MPMCQueue_new_def HazPtrDomain_init_def)
  ultimately show "\<exists>s. mq_init s \<and> s = view f \<and> fine_inv f" by blast
next
  fix f f' :: "'a FineQueue" and s
  assume "fine_step True f f'" and s: "s = view f \<and> fine_inv f"
  with fine_step_sim have step: "(view f' = view f \<or> loose_step (view f) (view f')) \<and> lock_ok f'" by blast
  moreover from this s have "loose_inv (view f')" by (auto simp: fine_inv_def intro: loose_step_inv)
  ultimately show "\<exists>s'. (s' = s \<or> loose_step s s') \<and> s' = view f' \<and> fine_inv f'"
    using s by (auto simp: fine_inv_def)
qed

lemma fine_reads:
  assumes "reach fine_init (fine_step True) f"
  shows "reads_alive (mq f) t"
proof -
  from fine_loose.sim_reach [OF assms] have "reclaim_inv (view f)" by (auto simp: fine_inv_def loose_inv_def)
  from dequeue_reads [OF this, of t] show ?thesis
    by (cases "pcs (mq f) t") (simp_all add: reads_alive_def)
qed

subsection \<open>The contents\<close>

lemma domain_onlyI:
  "domain_only t k s s" "domain_only t k s (upd_hpd g s)" "domain_only t k s (goto t (Stuck e) s)"
  "domain_only t k s (goto t (k sl) (upd_hpd g s))"
proof -
  have "s = goto t (pcs s t) (s\<lparr>hpd := hpd s\<rparr>)" "upd_hpd g s = goto t (pcs s t) (s\<lparr>hpd := g (hpd s)\<rparr>)"
    "goto t (Stuck e) s = goto t (Stuck e) (s\<lparr>hpd := hpd s\<rparr>)"
    "goto t (k sl) (upd_hpd g s) = goto t (k sl) (s\<lparr>hpd := g (hpd s)\<rparr>)" by (simp_all add: goto_def upd_hpd_def)
  then show "domain_only t k s s" "domain_only t k s (upd_hpd g s)" "domain_only t k s (goto t (Stuck e) s)"
    "domain_only t k s (goto t (k sl) (upd_hpd g s))" unfolding domain_only_def by blast+
qed

lemma acquire_step_mq: "domain_only t k (mq f) (mq (acquire_step t a k f))"
proof (cases "acq f t")
  case Outside
  then show ?thesis
    by (cases "list_mutex (hpd (mq f))") (auto simp: acquire_step_def Let_def lock_def intro: domain_onlyI)
next
  case (A_Walk cur)
  then show ?thesis
    by (cases cur) (auto simp: acquire_step_def Let_def intro: domain_onlyI split: option.split)
qed (auto simp: acquire_step_def Let_def acquired_def intro: domain_onlyI)

lemma fine_simulates:
  assumes inv: "chain_inv c hi ti (mq f)"
  shows "simulates c hi (mq f) (event_of t sp (mq f)) (mq (fine_exec t a sp f))"
proof (cases "resume (pcs (mq f) t)")
  case None
  with exec_simulates [OF inv] show ?thesis by (simp add: fine_exec_def)
next
  case (Some k)
  from acquire_step_mq [of t k f a] obtain p d where
    p: "mq (acquire_step t a k f) = goto t p ((mq f)\<lparr>hpd := d\<rparr>)"
    "p = pcs (mq f) t \<or> (\<exists>sl. p = k sl) \<or> (\<exists>e. p = Stuck e)" by (auto simp: domain_only_def)
  have "knows c hi ti p \<and> new_of p = None"
    using p(2) resume_chain [OF Some] Some by (auto elim!: resume_cases)
  with simulates_goto_hpd [OF inv] have "simulates c hi (mq f) Silent (mq (acquire_step t a k f))"
    by (simp add: p(1))
  moreover have "event_of t sp (mq f) = Silent" using Some by (auto simp: event_of_def elim!: resume_cases)
  ultimately show ?thesis using Some by (simp add: fine_exec_def)
qed

interpretation fine_chain: invariant_system fine_init "fine_step g" "\<lambda>f. chained (mq f)" for g
proof unfold_locales
  show "chained (mq f)" if "fine_init f" for f :: "'a FineQueue"
    using that mq_chain.inv_init [of "mq f"] unfolding fine_init_def FineQueue_new_def mq_init_def by force
next
  fix f f' :: "'a FineQueue"
  assume "fine_step g f f'" and "chained (mq f)"
  then obtain c hi ti where "chain_inv c hi ti (mq f)" by (auto simp: chained_def)
  with \<open>fine_step g f f'\<close> have "\<exists>e. simulates c hi (mq f) e (mq f')"
    by cases (auto intro: call_simulates fine_simulates)
  then show "chained (mq f')" by (auto simp: simulates_def chained_def)
qed

subsection \<open>Acquire without interference\<close>

lemma funpow_step: "\<exists>n. (g ^^ n) (g f) = f' \<Longrightarrow> \<exists>n. (g ^^ n) f = f'"
  by (metis comp_apply funpow_Suc_right)

lemma walk_alone:
  assumes "slot_list (slots (hpd (mq f))) cur xs" and "acq f t = A_Walk cur" and "resume (pcs (mq f) t) = Some k"
  shows "\<exists>n. (fine_exec t a sp ^^ n) f = f\<lparr>acq := (acq f)(t :=
    (case List.find (is_free (slots (hpd (mq f)))) xs of Some c \<Rightarrow> A_Own c | None \<Rightarrow> A_Walk None))\<rparr>"
  using assms
proof (induction xs arbitrary: cur f)
  case Nil
  then have "(acq f)(t := A_Walk None) = acq f" by auto
  then show ?case by (intro exI [of _ 0]) simp
next
  case (Cons b bs)
  then obtain hp where b: "cur = Some b" "slots (hpd (mq f)) b = Some hp" and rest: "slot_list (slots (hpd (mq f))) (next_slot hp) bs"
    by (auto split: option.splits)
  show ?case
  proof (rule funpow_step, cases "owner hp = None")
    case True
    with b Cons.prems show "\<exists>n. (fine_exec t a sp ^^ n) (fine_exec t a sp f) = f\<lparr>acq := (acq f)(t :=
        (case List.find (is_free (slots (hpd (mq f)))) (b # bs) of Some c \<Rightarrow> A_Own c | None \<Rightarrow> A_Walk None))\<rparr>"
      by (intro exI [of _ 0]) (simp add: fine_exec_def acquire_step_def is_free_def)
  next
    case False
    let ?f = "f\<lparr>acq := (acq f)(t := A_Walk (next_slot hp))\<rparr>"
    from False b Cons.prems have "fine_exec t a sp f = ?f" by (auto simp: fine_exec_def acquire_step_def)
    moreover have "\<not> is_free (slots (hpd (mq f))) b" using b False by (simp add: is_free_def)
    ultimately show "\<exists>n. (fine_exec t a sp ^^ n) (fine_exec t a sp f) =
        f\<lparr>acq := (acq f)(t := (case List.find (is_free (slots (hpd (mq f)))) (b # bs) of
          Some c \<Rightarrow> A_Own c | None \<Rightarrow> A_Walk None))\<rparr>"
      using Cons.IH [of ?f "next_slot hp"] rest Cons.prems(3) by (simp add: fun_upd_def cong: if_cong)
  qed
qed

lemma funpow_trans: "\<exists>n. (g ^^ n) f = f' \<Longrightarrow> \<exists>n. (g ^^ n) f' = f'' \<Longrightarrow> \<exists>n. (g ^^ n) f = f''"
  by (metis comp_apply funpow_add)

lemma unlock_same: "list_mutex d = None \<Longrightarrow> d\<lparr>slots := S, list_mutex := None\<rparr> = d\<lparr>slots := S\<rparr>"
  "list_mutex d = None \<Longrightarrow> d\<lparr>slots := S, head := H, list_mutex := None\<rparr> = d\<lparr>slots := S, head := H\<rparr>"
  by (cases d; simp)+

lemma acquire_alone:
  assumes "dom_wf (hpd (mq f))" and "list_mutex (hpd (mq f)) = None" and "acq f t = Outside"
    and t: "resume (pcs (mq f) t) = Some k" and a: "slots (hpd (mq f)) a = None"
  shows "\<exists>n. (fine_exec t a sp ^^ n) f = f\<lparr>mq := acquire_into t a k (mq f)\<rparr>"
proof -
  let ?h = "slots (hpd (mq f))" and ?g = "fine_exec t a sp"
  let ?one = "f\<lparr>mq := upd_hpd (\<lambda>d. d\<lparr>list_mutex := Some t\<rparr>) (mq f), acq := (acq f)(t := A_Walk (Hazard_Pointer.head (hpd (mq f))))\<rparr>"
  from assms(1) obtain xs where xs: "slot_list ?h (Hazard_Pointer.head (hpd (mq f))) xs" by (auto simp: dom_wf_def)
  have loop: "acquire_loop ?h (Hazard_Pointer.head (hpd (mq f))) = Some (Inr (List.find (is_free ?h) xs))"
    using acquire_loop_list [OF xs] by (simp add: is_free_def [abs_def])
  have out: "(acq f)(t := Outside) = acq f" using assms(3) by auto
  have one: "?g f = ?one" using assms(2,3) t by (simp add: fine_exec_def acquire_step_def)
  from walk_alone [of ?one "Hazard_Pointer.head (hpd (mq f))" xs t k a sp] xs t
  have walk: "\<exists>n. (?g ^^ n) ?one = ?one\<lparr>acq := (acq f)(t :=
      (case List.find (is_free ?h) xs of Some c \<Rightarrow> A_Own c | None \<Rightarrow> A_Walk None))\<rparr>"
    by (simp add: upd_hpd_def)
  have "\<exists>n. (?g ^^ n) (?one\<lparr>acq := (acq f)(t :=
      (case List.find (is_free ?h) xs of Some c \<Rightarrow> A_Own c | None \<Rightarrow> A_Walk None))\<rparr>) = f\<lparr>mq := acquire_into t a k (mq f)\<rparr>"
  proof (cases "List.find (is_free ?h) xs")
    case None
    with loop assms(2) have "acquire_into t a k (mq f) = goto t (k a) ((mq f)\<lparr>hpd := (hpd (mq f))\<lparr>slots := ?h(a \<mapsto>
        \<lparr>hazard_ptr = None, owner = Some t, next_slot = Hazard_Pointer.head (hpd (mq f))\<rparr>), head := Some a\<rparr>\<rparr>)"
      by (simp add: acquire_into_def acquire_def)
    then show ?thesis using None assms(2) t out
      by (intro exI [of _ "Suc (Suc (Suc 0))"])
        (simp add: fine_exec_def acquire_step_def acquired_def upd_hpd_def goto_def upd_slot_def unlock_same)
  next
    case (Some c)
    with loop assms(2) have "acquire_into t a k (mq f) =
        goto t (k c) ((mq f)\<lparr>hpd := upd_slot c (\<lambda>h. h\<lparr>owner := Some t\<rparr>) (hpd (mq f))\<rparr>)"
      by (simp add: acquire_into_def acquire_def)
    then show ?thesis using Some assms(2) t out
      by (intro exI [of _ "Suc 0"])
        (simp add: fine_exec_def acquire_step_def acquired_def upd_hpd_def goto_def upd_slot_def unlock_same)
  qed
  with walk have "\<exists>n. (?g ^^ n) (?g f) = f\<lparr>mq := acquire_into t a k (mq f)\<rparr>" unfolding one by (rule funpow_trans)
  then show ?thesis by (rule funpow_step)
qed

subsection \<open>Schedules\<close>

lemma fine_move_step: "fine_move g x f = Some f' \<Longrightarrow> fine_step g f f'"
  by (cases x) (auto intro: fine_step.intros split: pc.splits if_splits)

lemma fine_run_reach:
  "fine_run g xs f = Some f' \<Longrightarrow> reach fine_init (fine_step g) f \<Longrightarrow> reach fine_init (fine_step g) f'"
  by (induction xs arbitrary: f) (auto split: option.splits dest: fine_move_step intro: reach.reach_step)

lemma fine_new_reach: "fine_run g xs (FineQueue_new d) = Some f \<Longrightarrow> reach fine_init (fine_step g) f"
  by (erule fine_run_reach, rule reach.reach_init) (auto simp: fine_init_def)

subsection \<open>Properties\<close>

text \<open>C1: the queue is linearizable down to the statements of \<open>acquire\<close>, under every
  interleaving: in every reachable state the nodes behind the head form a list with definite
  contents, and every step of every thread is a step of the sequential FIFO queue on these
  contents. The successful \<open>CAS\<close> on a \<open>next\<close> field appends the enqueued element, the successful
  \<open>CAS\<close> on the head removes the first element, and all other accesses, spurious failures, helping
  and the loads, stores and locks of \<open>acquire\<close> and of scans included, change nothing.\<close>

theorem fine_queue_linearizable:
  assumes "reach fine_init (fine_step guarded) f"
  shows "\<exists>q q'. (\<forall>x. contents (mq f) x \<longleftrightarrow> x = q) \<and> (\<forall>x. contents (mq (fine_exec t a sp f)) x \<longleftrightarrow> x = q') \<and>
     fifo_step q (event_of t sp (mq f)) q'"
proof -
  from fine_chain.reach_inv [OF assms] obtain c hi ti where inv: "chain_inv c hi ti (mq f)"
    by (auto simp: chained_def)
  from fine_simulates [OF inv, of t sp a] obtain d hi' ti' where
    "chain_inv (c @ d) hi' ti' (mq (fine_exec t a sp f))"
    "fifo_step (chain_data c hi (mq f)) (event_of t sp (mq f)) (chain_data (c @ d) hi' (mq (fine_exec t a sp f)))"
    by (auto simp: simulates_def)
  with contents_chain [OF inv] contents_chain show ?thesis by blast
qed

theorem fine_queue_linearizable_witness:
  "\<exists>f q. reach fine_init (fine_step False) (f :: nat FineQueue) \<and> acq f 1 = A_Next 11 None \<and>
     contents (mq f) q \<and> contents (mq (fine_exec 0 9 False f)) (q @ [Some 10])"
proof -
  let ?xs = "[Call 1 5 Dequeue, Run 1 11 False, Run 1 11 False, Run 1 9 False,
    Call 0 1 (Enqueue 10), Run 0 9 False, Run 0 9 False, Run 0 9 False] :: nat move list"
  have "map_option (\<lambda>f. (event_of 0 False (mq f), acq f 1)) (fine_run False ?xs (FineQueue_new 0)) =
      Some (EnqueueAt 0 (Some 10), A_Next 11 None)"
    by code_simp
  then obtain f where "fine_run False ?xs (FineQueue_new 0) = Some f"
    and ev: "event_of 0 False (mq f) = EnqueueAt 0 (Some 10)" "acq f 1 = A_Next 11 None" by auto
  from fine_new_reach [OF this(1)] have r: "reach fine_init (fine_step False) f" .
  from fine_queue_linearizable [OF r, of 0 9 False] ev r show ?thesis by auto
qed

text \<open>C3: as long as no scan enters the list of slots between the two stores with which an \<open>acquire\<close>
  links a new slot, under every interleaving of enqueues, dequeues, scans and the statements of
  \<open>acquire\<close>, the next access of a \<open>dequeue\<close> does not read a deleted node, and the node whose data
  it returns still holds the element that was enqueued there.\<close>

theorem guarded_dequeue_no_use_after_free:
  assumes "reach fine_init (fine_step True) f" and "\<not> is_enqueue (pcs (mq f) t)" and "pcs (mq f) t \<noteq> Crashed"
  shows "pcs (mq (fine_exec t a sp f)) t \<noteq> Crashed \<and>
     (\<forall>sh sn ch m. pcs (mq f) t = Deq_Read sh sn ch m \<longrightarrow>
        (\<exists>nd. nodes (mq f) m = Some nd \<and> pcs (mq (fine_exec t a sp f)) t = Deq_Rel1 sh sn ch (data nd)))"
proof (cases "resume (pcs (mq f) t)")
  case None
  with reads_no_crash [OF fine_reads [OF assms(1)] assms(2,3)] show ?thesis by (simp add: fine_exec_def)
next
  case (Some k)
  with acquire_step_mq [of t k f a] assms(3) show ?thesis
    by (auto simp: fine_exec_def domain_only_def elim!: resume_cases)
qed

theorem guarded_dequeue_no_use_after_free_witness:
  "\<exists>f nd. reach fine_init (fine_step True) (f :: nat FineQueue) \<and> acq f 1 = A_Next 13 (Some 12) \<and>
     pcs (mq f) 0 = Deq_Read 11 12 0 1 \<and> nodes (mq f) 1 = Some nd \<and>
     pcs (mq (fine_exec 0 9 False f)) 0 = Deq_Rel1 11 12 0 (data nd)"
proof -
  let ?xs = "Call 0 1 (Enqueue 10) # replicate 5 (Run 0 9 False) @
    [Call 0 5 Dequeue, Run 0 11 False, Run 0 11 False] @ replicate 4 (Run 0 9 False) @ [Run 0 12 False] @
    replicate 2 (Run 0 9 False) @ [Call 1 5 Dequeue] @ replicate 3 (Run 1 9 False) @ [Run 1 13 False, Run 1 9 False] @
    replicate 8 (Run 0 9 False) :: nat move list"
  have "map_option (\<lambda>f. (pcs (mq f) 0, acq f 1)) (fine_run True ?xs (FineQueue_new 0)) =
      Some (Deq_Read 11 12 0 1, A_Next 13 (Some 12))"
    by code_simp
  then obtain f where "fine_run True ?xs (FineQueue_new 0) = Some f"
    and pc: "pcs (mq f) 0 = Deq_Read 11 12 0 1" "acq f 1 = A_Next 13 (Some 12)" by auto
  from fine_new_reach [OF this(1)] have r: "reach fine_init (fine_step True) f" .
  from guarded_dequeue_no_use_after_free [OF r, of 0 9 False] pc r show ?thesis by (auto simp: is_enqueue_def)
qed

text \<open>C24: without that restriction the hazard pointers do not protect: there is a run of four threads
  in which one holds a slot that publishes the dummy node, has checked the head again and is
  about to read the node, another pops and retires the node, a third stores \<open>head_\<close> in
  \<open>acquire\<close> and has not yet stored \<open>next_\<close>, and a scan, which sees the new slot only, deletes the
  node. The first thread then reads the deleted node.\<close>

theorem half_linked_slot_unprotects:
  "\<exists>f. reach fine_init (fine_step False) (f :: nat FineQueue) \<and> half_linked f \<and>
     pcs (mq f) 0 = Deq_LoadNext 11 12 0 1 \<and> map_option hazard_ptr (slots (hpd (mq f)) 11) = Some (Some 0) \<and>
     0 \<in> freed (mq f) \<and> (\<forall>a sp. pcs (mq (fine_exec 0 a sp f)) 0 = Crashed)"
proof -
  let ?xs = "[Call 1 5 Register, Call 1 1 (Enqueue 10)] @ replicate 5 (Run 1 9 False) @
    [Call 0 5 Dequeue, Run 0 11 False, Run 0 11 False] @ replicate 4 (Run 0 9 False) @ [Run 0 12 False] @
    replicate 6 (Run 0 9 False) @
    [Call 1 5 Dequeue] @ replicate 3 (Run 1 9 False) @ [Run 1 13 False] @ replicate 6 (Run 1 9 False) @
    [Run 1 14 False] @ replicate 11 (Run 1 9 False) @
    [Call 2 5 Dequeue] @ replicate 5 (Run 2 9 False) @ [Run 2 15 False, Run 2 9 False] @ replicate 3 (Run 1 9 False) @
    [Call 3 5 StartScan] @ replicate 8 (Run 3 9 False) :: nat move list"
  have "map_option (\<lambda>f. (half_linked f, pcs (mq f) 0, map_option hazard_ptr (slots (hpd (mq f)) 11), 0 \<in> freed (mq f)))
      (fine_run False ?xs (FineQueue_new 0)) = Some (True, Deq_LoadNext 11 12 0 1, Some (Some 0), True)"
    by code_simp
  then obtain f where "fine_run False ?xs (FineQueue_new 0) = Some f" and f: "half_linked f"
    "pcs (mq f) 0 = Deq_LoadNext 11 12 0 1" "map_option hazard_ptr (slots (hpd (mq f)) 11) = Some (Some 0)"
    "0 \<in> freed (mq f)" by auto
  from fine_new_reach [OF this(1)] f show ?thesis
    by (auto simp: fine_exec_def mq_exec_def is_enqueue_def is_scan_def load_node_def)
qed

text \<open>C29: run without interference and with the mutex free, the statements of \<open>acquire\<close> compute what
  the function \<open>acquire\<close> of the domain computes, and in finitely many steps; while another
  thread holds the mutex they do not move.\<close>

theorem acquire_steps_agree:
  assumes "dom_wf (hpd (mq f))" and "acq f t = Outside" and "resume (pcs (mq f) t) = Some k"
    and "slots (hpd (mq f)) a = None"
  shows "case list_mutex (hpd (mq f)) of
      None \<Rightarrow> \<exists>n. (fine_exec t a sp ^^ n) f = f\<lparr>mq := acquire_into t a k (mq f)\<rparr>
    | Some u \<Rightarrow> u \<noteq> t \<longrightarrow> fine_exec t a sp f = f"
  using acquire_alone [OF assms(1) _ assms(2-4)] assms(2,3)
  by (auto simp: fine_exec_def acquire_step_def lock_def split: option.split)

theorem acquire_steps_agree_witness:
  "\<exists>n. pcs (mq ((fine_exec 0 11 False ^^ n) ((FineQueue_new 0)\<lparr>mq := goto 0 Deq_AcqHead (MPMCQueue_new 0)\<rparr>))) 0 =
     (Deq_AcqNext 11 :: nat pc)"
proof -
  let ?f = "(FineQueue_new 0)\<lparr>mq := goto 0 Deq_AcqHead (MPMCQueue_new 0)\<rparr> :: nat FineQueue"
  have f: "dom_wf (hpd (mq ?f))" "acq ?f 0 = Outside" "resume (pcs (mq ?f) 0) = Some Deq_AcqNext"
    "slots (hpd (mq ?f)) 11 = None" "list_mutex (hpd (mq ?f)) = None"
    by (auto simp: dom_wf_def FineQueue_new_def MPMCQueue_new_def HazPtrDomain_init_def intro: exI [of _ "[]"])
  from acquire_steps_agree [OF f(1-4), of False] f(5) obtain n where
    "(fine_exec 0 11 False ^^ n) ?f = ?f\<lparr>mq := acquire_into 0 11 Deq_AcqNext (mq ?f)\<rparr>" by auto
  moreover have "pcs (acquire_into 0 11 Deq_AcqNext (mq ?f)) 0 = Deq_AcqNext 11"
    by (simp add: acquire_into_def acquire_def MPMCQueue_new_def HazPtrDomain_init_def acquire_loop.simps)
  ultimately show ?thesis by (intro exI [of _ n]) simp
qed

end
