(* ===== verification/Queue_Mutexes.thy ===== *)
theory Queue_Mutexes
  imports MPMC_Acquire
begin

text \<open>
  What the mutexes of the hazard-pointer domain protect, under every interleaving of the queue and
  of scans, the statements of \<open>acquire\<close> included: while a thread is in a section guarded by
  \<open>global_retired_mutex_\<close> or inside \<open>acquire\<close>, which holds \<open>list_mutex_\<close>, no other thread gets in and
  no step of another thread changes the global retired list, respectively the links of the list
  of slots. The hazards and owners of the slots, which are atomic, and the retired lists of the
  threads, which no mutex guards, are not among the protected data.
\<close>

subsection \<open>Specification\<close>

text \<open>The thread that makes a move.\<close>

fun mover :: "'a move \<Rightarrow> tid" where
  "mover (Call t a op) = t"
| "mover (Run t a sp) = t"

text \<open>Between the lock and the unlock of \<open>global_retired_mutex_\<close> in a scan.\<close>

fun in_section :: "'a pc \<Rightarrow> bool" where
  "in_section (Scan_Splice us) = True"
| "in_section (Scan_Loop rs kept rec) = True"
| "in_section (Scan_Walk r rs kept rec cur) = True"
| "in_section _ = False"

definition section_inv :: "'a FineQueue \<Rightarrow> bool" where
  "section_inv f \<longleftrightarrow>
     (\<forall>u. (in_section (pcs (mq f) u) \<longrightarrow> global_retired_mutex (hpd (mq f)) = Some u) \<and>
       (acq f u \<noteq> Outside \<longrightarrow> list_mutex (hpd (mq f)) = Some u))"

text \<open>The links of the list of slots.\<close>

definition same_links :: "(addr, unit) HazPtrDomain \<Rightarrow> (addr, unit) HazPtrDomain \<Rightarrow> bool" where
  "same_links d d' \<longleftrightarrow> Hazard_Pointer.head d' = Hazard_Pointer.head d \<and>
     (\<forall>b. map_option next_slot (slots d' b) = map_option next_slot (slots d b))"

subsection \<open>The mutexes\<close>

lemma commit_mutex:
  "commit_retired t d = Some (Inr d') \<Longrightarrow> global_retired_mutex d' = global_retired_mutex d"
  by (drule commit_retired_Inr) simp

lemma dequeue_section:
  "resume (pcs s t) = None \<Longrightarrow> \<not> is_enqueue (pcs s t) \<Longrightarrow> \<not> is_scan (pcs s t) \<Longrightarrow>
   global_retired_mutex (hpd (dequeue_step t a sp s (pcs s t))) = global_retired_mutex (hpd s) \<and>
   \<not> in_section (pcs (dequeue_step t a sp s (pcs s t)) t)"
  by (cases "pcs s t")
    (auto simp: hpd_defs Let_def commit_mutex is_enqueue_def is_scan_def
      split: option.splits sum.splits hp_error.splits)

lemma scan_section:
  assumes "in_section (pcs s t) \<longrightarrow> global_retired_mutex (hpd s) = Some t" and "is_scan (pcs s t)"
  shows "(in_section (pcs (scan_step t s (pcs s t)) t) \<longrightarrow>
      global_retired_mutex (hpd (scan_step t s (pcs s t))) = Some t) \<and>
    (global_retired_mutex (hpd (scan_step t s (pcs s t))) = global_retired_mutex (hpd s) \<or>
     global_retired_mutex (hpd s) = None \<or> global_retired_mutex (hpd s) = Some t)"
  using assms
  by (cases "(t, s, pcs s t)" rule: scan_step.cases) (auto simp: is_scan_def lock_def split: option.splits if_splits)

lemma exec_section:
  assumes "in_section (pcs s t) \<longrightarrow> global_retired_mutex (hpd s) = Some t" and "resume (pcs s t) = None"
  shows "(in_section (pcs (mq_exec t a sp s) t) \<longrightarrow> global_retired_mutex (hpd (mq_exec t a sp s)) = Some t) \<and>
    (global_retired_mutex (hpd (mq_exec t a sp s)) = global_retired_mutex (hpd s) \<or>
     global_retired_mutex (hpd s) = None \<or> global_retired_mutex (hpd s) = Some t)"
proof -
  have "\<not> in_section (pcs (enqueue_step t sp s (pcs s t)) t)" if "is_enqueue (pcs s t)"
    using that by (cases "pcs s t") (auto simp: is_enqueue_def split: option.split)
  with scan_section [OF assms(1)] dequeue_section [OF assms(2), of a sp] show ?thesis
    by (auto simp: mq_exec_def enqueue_frame)
qed

lemma start_section:
  assumes "pcs s t = Idle r"
  shows "(in_section (pcs (mq_start t a op s) t) \<longrightarrow> global_retired_mutex (hpd (mq_start t a op s)) = Some t) \<and>
    (global_retired_mutex (hpd (mq_start t a op s)) = global_retired_mutex (hpd s) \<or>
     global_retired_mutex (hpd s) = None)"
  using assms
  by (cases op) (auto simp: mq_start_def scan_begin_def RegisterThread_def and_goto_def lock_def Let_def
      split: sum.split option.split)

lemma section_frame:
  assumes "section_inv f" and "acq f' = acq f" and "list_mutex (hpd (mq f')) = list_mutex (hpd (mq f))"
    and "\<And>u. u \<noteq> t \<Longrightarrow> pcs (mq f') u = pcs (mq f) u"
    and "in_section (pcs (mq f') t) \<longrightarrow> global_retired_mutex (hpd (mq f')) = Some t"
    and "global_retired_mutex (hpd (mq f')) = global_retired_mutex (hpd (mq f)) \<or>
      global_retired_mutex (hpd (mq f)) = None \<or> global_retired_mutex (hpd (mq f)) = Some t"
  shows "section_inv f'"
  unfolding section_inv_def
proof
  fix u
  show "(in_section (pcs (mq f') u) \<longrightarrow> global_retired_mutex (hpd (mq f')) = Some u) \<and>
      (acq f' u \<noteq> Outside \<longrightarrow> list_mutex (hpd (mq f')) = Some u)"
    using assms by (cases "u = t") (auto simp: section_inv_def)
qed

lemma acquire_section:
  assumes "section_inv f" and "resume (pcs (mq f) t) = Some k"
  shows "section_inv (acquire_step t a k f)"
proof -
  have k: "\<not> in_section (pcs (mq f) t) \<and> \<not> in_section (k sl)" for sl
    using assms(2) by (auto elim!: resume_cases)
  have me: "list_mutex (hpd (mq f)) = Some t" if "acq f t \<noteq> Outside"
    using assms(1) that by (simp add: section_inv_def)
  have others: "acq f u = Outside" if "acq f t \<noteq> Outside" "u \<noteq> t" for u
    using assms(1) me [OF that(1)] that(2) unfolding section_inv_def by (metis option.inject)
  show ?thesis
  proof (cases "acq f t")
    case Outside
    then show ?thesis using assms(1) k
      by (cases "list_mutex (hpd (mq f))")
        (auto simp: acquire_step_def Let_def lock_def section_inv_def upd_hpd_def)
  next
    case (A_Walk cur)
    with me others k assms(1) show ?thesis
      by (cases cur) (auto simp: acquire_step_def Let_def section_inv_def upd_hpd_def split: option.split)
  qed (use me others k assms(1) in \<open>auto simp: acquire_step_def Let_def acquired_def section_inv_def upd_hpd_def\<close>)
qed

lemma section_step:
  assumes "fine_step g f f'" and inv: "section_inv f"
  shows "section_inv f'"
  using assms(1)
proof cases
  case (call t r a op)
  with start_section [of "mq f" t r a op] show ?thesis
    by (intro section_frame [OF inv, where t = t]) (auto simp: start_frame start_others)
next
  case (run a t sp)
  show ?thesis
  proof (cases "resume (pcs (mq f) t)")
    case None
    from inv have "in_section (pcs (mq f) t) \<longrightarrow> global_retired_mutex (hpd (mq f)) = Some t" by (simp add: section_inv_def)
    from exec_section [OF this None, of a sp] None run(1) show ?thesis
      by (intro section_frame [OF inv, where t = t]) (auto simp: fine_exec_def exec_frame [OF None] exec_others)
  next
    case (Some k)
    with acquire_section [OF inv Some] run(1) show ?thesis by (simp add: fine_exec_def)
  qed
qed

interpretation sections: invariant_system fine_init "fine_step g" section_inv for g
proof unfold_locales
  show "section_inv f" if "fine_init f" for f :: "'a FineQueue"
    using that by (auto simp: fine_init_def section_inv_def FineQueue_new_def MPMCQueue_new_def)
qed (fact section_step)

subsection \<open>Steps of other threads\<close>

lemma move_step: "fine_move g x f = Some f' \<Longrightarrow> fine_step g f f'"
  by (cases x) (auto split: pc.splits if_splits intro: fine_step.intros)

lemma fine_others: "t \<noteq> u \<Longrightarrow> pcs (mq (fine_exec u a sp f)) t = pcs (mq f) t"
  by (cases "acq f u")
    (auto simp: fine_exec_def exec_others acquire_step_def acquired_def upd_hpd_def Let_def
      split: sum.split hp_error.split option.split)

lemma dequeue_links:
  "resume (pcs s u) = None \<Longrightarrow> same_links (hpd s) (hpd (dequeue_step u a sp s (pcs s u)))"
  by (cases "pcs s u")
    (auto simp: same_links_def hpd_defs Let_def commit_frame option.map_comp comp_def
      split: option.splits sum.splits hp_error.splits)

lemma exec_links: "resume (pcs s u) = None \<Longrightarrow> same_links (hpd s) (hpd (mq_exec u a sp s))"
  by (simp add: mq_exec_def enqueue_frame dequeue_links) (simp add: same_links_def scan_frame)

lemma acquire_retired:
  "global_retired (hpd (mq (acquire_step u a k f))) = global_retired (hpd (mq f))"
  by (cases "acq f u")
    (auto simp: acquire_step_def acquired_def upd_hpd_def Let_def split: sum.split hp_error.split option.split)

lemma commit_blocked:
  "global_retired_mutex d = Some t \<Longrightarrow> u \<noteq> t \<Longrightarrow> commit_retired u d = Some (Inl Blocked)"
  by (simp add: commit_retired_def lock_def)

lemma dequeue_retired:
  assumes "resume (pcs s u) = None" and "global_retired_mutex (hpd s) = Some t" and "u \<noteq> t"
  shows "global_retired (hpd (dequeue_step u a sp s (pcs s u))) = global_retired (hpd s)"
  using assms
  by (cases "pcs s u")
    (auto simp: hpd_defs Let_def commit_blocked push_retired_def split: option.splits sum.splits)

lemma scan_retired:
  assumes "\<not> in_section (pcs s u)" and "global_retired_mutex (hpd s) = Some t" and "u \<noteq> t"
  shows "global_retired (hpd (scan_step u s (pcs s u))) = global_retired (hpd s)"
  using assms
  by (cases "(u, s, pcs s u)" rule: scan_step.cases) (auto simp: lock_def delete_node_def split: option.splits)

lemma start_retired: "global_retired (hpd (mq_start u a op s)) = global_retired (hpd s)"
  by (cases op) (auto simp: mq_start_def scan_begin_def RegisterThread_def and_goto_def lock_def Let_def
      split: sum.split option.split)

lemma exec_retired:
  assumes "resume (pcs s u) = None" and "\<not> in_section (pcs s u)"
    and "global_retired_mutex (hpd s) = Some t" and "u \<noteq> t"
  shows "global_retired (hpd (mq_exec u a sp s)) = global_retired (hpd s)"
  using dequeue_retired [OF assms(1,3,4)] scan_retired [OF assms(2-4)] by (simp add: mq_exec_def enqueue_frame)

text \<open>What a move of another thread leaves alone, first for the global list, then for the links.\<close>

lemma other_retired:
  assumes inv: "section_inv f" and move: "fine_move g x f = Some f'" and u: "mover x \<noteq> t"
    and sec: "in_section (pcs (mq f) t)"
  shows "global_retired (hpd (mq f')) = global_retired (hpd (mq f))"
proof -
  from inv sec have m: "global_retired_mutex (hpd (mq f)) = Some t" by (simp add: section_inv_def)
  with inv u have out: "\<not> in_section (pcs (mq f) (mover x))" by (auto simp: section_inv_def)
  show ?thesis
  proof (cases x)
    case (Call w a op)
    with move show ?thesis by (auto simp: start_retired split: pc.splits if_splits)
  next
    case (Run w a sp)
    with move out m u exec_retired [of "mq f" w t a sp] show ?thesis
      by (auto simp: fine_exec_def acquire_retired split: if_splits option.split)
  qed
qed

lemma other_links:
  assumes inv: "section_inv f" and move: "fine_move g x f = Some f'" and u: "mover x \<noteq> t"
    and acq: "acq f t \<noteq> Outside"
  shows "same_links (hpd (mq f)) (hpd (mq f')) \<and> acq f (mover x) = Outside \<and> acq f' (mover x) = Outside \<and>
    acq f' t = acq f t"
proof -
  from inv acq have m: "list_mutex (hpd (mq f)) = Some t" by (simp add: section_inv_def)
  with inv u have out: "acq f (mover x) = Outside" unfolding section_inv_def by (metis option.inject)
  have refl: "same_links d d" for d by (simp add: same_links_def)
  show ?thesis
  proof (cases x)
    case (Call w a op)
    have "same_links (hpd (mq f)) (hpd (mq_start w a op (mq f)))" by (simp add: same_links_def start_frame)
    with Call move out show ?thesis by (auto split: pc.splits if_splits)
  next
    case (Run w a sp)
    have "acquire_step w a k f = f" for k
      using Run out m u by (simp add: acquire_step_def Let_def lock_def)
    with Run move out exec_links [of "mq f" w a sp] refl show ?thesis
      by (auto simp: fine_exec_def split: if_splits option.splits)
  qed
qed

subsection \<open>Properties\<close>

text \<open>C26: the mutexes of the hazard-pointer domain exclude other threads, under every interleaving.
  While a thread is between the lock and the unlock of \<open>global_retired_mutex_\<close> in a scan, no other
  thread is, no move of another thread gets it there, and none changes the global retired list.
  While a thread is inside \<open>acquire\<close>, under \<open>list_mutex_\<close>, no other thread is, none gets in, and no
  move of another thread changes \<open>head_\<close> or a \<open>next_\<close>. In both cases the thread that is inside holds
  the mutex.\<close>

theorem mutexes_protect:
  assumes "reach fine_init (fine_step g) f" and "fine_move g x f = Some f'" and "mover x \<noteq> t"
  shows "(in_section (pcs (mq f) t) \<longrightarrow>
      global_retired_mutex (hpd (mq f)) = Some t \<and>
      \<not> in_section (pcs (mq f) (mover x)) \<and> \<not> in_section (pcs (mq f') (mover x)) \<and>
      global_retired (hpd (mq f')) = global_retired (hpd (mq f))) \<and>
    (acq f t \<noteq> Outside \<longrightarrow>
      list_mutex (hpd (mq f)) = Some t \<and> acq f (mover x) = Outside \<and> acq f' (mover x) = Outside \<and>
      same_links (hpd (mq f)) (hpd (mq f')))"
proof -
  from sections.reach_inv [OF assms(1)] have inv: "section_inv f" .
  from section_step [OF move_step [OF assms(2)] inv] have inv': "section_inv f'" .
  have t: "pcs (mq f') t = pcs (mq f) t"
    using assms(2,3) by (cases x) (auto simp: start_others fine_others split: pc.splits if_splits)
  show ?thesis
  proof (intro conjI impI)
    assume sec: "in_section (pcs (mq f) t)"
    show "global_retired_mutex (hpd (mq f)) = Some t" using inv sec by (simp add: section_inv_def)
    then show "\<not> in_section (pcs (mq f) (mover x))" using inv assms(3) by (auto simp: section_inv_def)
    have "global_retired_mutex (hpd (mq f')) = Some t" using inv' sec t by (simp add: section_inv_def)
    then show "\<not> in_section (pcs (mq f') (mover x))" using inv' assms(3) by (auto simp: section_inv_def)
    show "global_retired (hpd (mq f')) = global_retired (hpd (mq f))" by (rule other_retired [OF inv assms(2,3) sec])
  qed (use inv other_links [OF inv assms(2,3)] in \<open>auto simp: section_inv_def\<close>)
qed

text \<open>A scan in its section and an \<open>acquire\<close> between its two stores, each against a step of the other.\<close>

theorem mutexes_protect_witness:
  "\<exists>f f' f''. reach fine_init (fine_step False) (f :: nat FineQueue) \<and> in_section (pcs (mq f) 3) \<and>
     acq f 2 = A_Next 11 None \<and> fine_move False (Run 2 12 False) f = Some f' \<and>
     global_retired_mutex (hpd (mq f)) = Some 3 \<and> global_retired (hpd (mq f')) = global_retired (hpd (mq f)) \<and>
     fine_move False (Run 3 12 False) f = Some f'' \<and> list_mutex (hpd (mq f)) = Some 2 \<and>
     same_links (hpd (mq f)) (hpd (mq f''))"
proof -
  let ?xs = "[Call 3 5 StartScan, Call 2 5 Dequeue, Run 2 11 False, Run 2 11 False, Run 2 9 False] :: nat move list"
  let ?run = "fine_run False ?xs (FineQueue_new 0)"
  have "map_option (\<lambda>f. (in_section (pcs (mq f) 3), acq f 2,
      map_option (\<lambda>_. ()) (fine_move False (Run 2 12 False) f), map_option (\<lambda>_. ()) (fine_move False (Run 3 12 False) f))) ?run =
      Some (True, A_Next 11 None, Some (), Some ())" by code_simp
  then obtain f f' f'' where run: "?run = Some f" and st: "in_section (pcs (mq f) 3)" "acq f 2 = A_Next 11 None"
    and m: "fine_move False (Run 2 12 False) f = Some f'" "fine_move False (Run 3 12 False) f = Some f''"
    by (auto simp del: fine_run.simps fine_move.simps)
  from run have r: "reach fine_init (fine_step False) f" by (rule fine_new_reach)
  from mutexes_protect [OF r m(1), of 3] mutexes_protect [OF r m(2), of 2] r st m show ?thesis
    by (intro exI [of _ f] exI [of _ f'] exI [of _ f'']) (simp del: fine_move.simps)
qed

end
