(* ===== verification/Task_Model.thy ===== *)
theory Task_Model
  imports Prelude Complex_Main "HOL-Library.AList"
begin

text \<open>
  Model of \<open>src/common/include/task.hpp\<close>, \<open>src/common/proto/task.proto\<close> and
  \<open>src/common/src/utils.cpp\<close>: tasks, their JSON form, and their translation to and from
  protocol-buffer messages.

  The JSON library and the \<open>google.protobuf.Struct\<close> message are parameters: records of the
  operations that the code calls on opaque types \<open>'j\<close> (JSON values), \<open>'s\<close> (structs) and
  \<open>'v\<close> (struct values). What the code relies on is stated as the predicates \<open>json_laws\<close>,
  \<open>items_laws\<close>, \<open>build_laws\<close> and \<open>struct_laws\<close>. An exception is a value of \<open>json_error\<close>; \<open>from_json\<close>
  assigns field by field, so the task it leaves behind when it throws is part of its result.
\<close>

subsection \<open>Numbers and enumerations\<close>

text \<open>The value of a \<open>double\<close>, with the comparison of IEEE 754.\<close>

datatype dbl = DNaN | DInf bool | DFin rat

fun dbl_le :: "dbl \<Rightarrow> dbl \<Rightarrow> bool" where
  "dbl_le (DFin x) (DFin y) = (x \<le> y)"
| "dbl_le (DInf neg) (DFin y) = neg"
| "dbl_le (DFin x) (DInf neg) = (\<not> neg)"
| "dbl_le (DInf neg) (DInf neg') = (neg \<or> \<not> neg')"
| "dbl_le _ _ = False"

text \<open>An \<open>enum class\<close> over \<open>uint8_t\<close> can hold each of its 256 values.\<close>

type_synonym TaskState = "8 word"

abbreviation PENDING :: TaskState where "PENDING \<equiv> 0"
abbreviation RUNNING :: TaskState where "RUNNING \<equiv> 1"
abbreviation SUCCESS :: TaskState where "SUCCESS \<equiv> 2"
abbreviation FAILED :: TaskState where "FAILED \<equiv> 3"
abbreviation TIMEOUT :: TaskState where "TIMEOUT \<equiv> 4"
abbreviation CANCELLED :: TaskState where "CANCELLED \<equiv> 5"

subsection \<open>Tasks\<close>

record Resource =
  cpu_core :: dbl
  mem_mb :: u64

record Shard =
  shard_id :: u32
  total_shards :: u32

text \<open>\<open>cancelled\<close> is the address of the shared flag.\<close>

record 'j Task =
  task_id :: string
  client_id :: string
  priority :: u32
  state :: TaskState
  cancelled :: addr
  func_name :: string
  func_params :: 'j
  required :: Resource
  shard :: Shard
  timeout_ms :: u32
  max_retry :: u32
  retry_count :: u32
  submit_ts :: i64
  start_ts :: i64
  finish_ts :: i64
  result :: 'j
  error_msg :: string

text \<open>The default member initialisers; \<open>null\<close> is the default-constructed JSON value.\<close>

definition Task_new :: "'j \<Rightarrow> addr \<Rightarrow> 'j Task" where
  "Task_new null flag =
     \<lparr>task_id = [], client_id = [], priority = 0, state = PENDING, cancelled = flag,
      func_name = [], func_params = null, required = \<lparr>cpu_core = DFin 0, mem_mb = 0\<rparr>,
      shard = \<lparr>shard_id = 0, total_shards = 1\<rparr>, timeout_ms = 30000, max_retry = 3,
      retry_count = 0, submit_ts = 0, start_ts = 0, finish_ts = 0, result = null, error_msg = []\<rparr>"

subsection \<open>The JSON library\<close>

datatype json_error = OutOfRange string | TypeError

datatype jkind = KNull | KBoolean | KNumber | KString | KArray | KObject | KOther

record 'j json_api =
  j_null :: 'j
  j_object :: "(string \<times> 'j) list \<Rightarrow> 'j"
  j_at :: "'j \<Rightarrow> string \<Rightarrow> json_error + 'j"
  j_put :: "string \<Rightarrow> 'j \<Rightarrow> 'j \<Rightarrow> 'j"
  j_items :: "'j \<Rightarrow> (string \<times> 'j) list"
  j_kind :: "'j \<Rightarrow> jkind"
  j_of_string :: "string \<Rightarrow> 'j"
  j_get_string :: "'j \<Rightarrow> json_error + string"
  j_of_u8 :: "8 word \<Rightarrow> 'j"
  j_get_u8 :: "'j \<Rightarrow> json_error + 8 word"
  j_of_u32 :: "u32 \<Rightarrow> 'j"
  j_get_u32 :: "'j \<Rightarrow> json_error + u32"
  j_of_u64 :: "u64 \<Rightarrow> 'j"
  j_get_u64 :: "'j \<Rightarrow> json_error + u64"
  j_of_i64 :: "i64 \<Rightarrow> 'j"
  j_get_i64 :: "'j \<Rightarrow> json_error + i64"
  j_of_double :: "dbl \<Rightarrow> 'j"
  j_get_double :: "'j \<Rightarrow> json_error + dbl"
  j_of_bool :: "bool \<Rightarrow> 'j"
  j_get_bool :: "'j \<Rightarrow> json_error + bool"

text \<open>Scalars are read back as written, and a member of an object is found under its key.\<close>

definition json_laws :: "'j json_api \<Rightarrow> bool" where
  "json_laws J \<longleftrightarrow>
     (\<forall>x. j_get_string J (j_of_string J x) = Inr x) \<and> (\<forall>x. j_get_u8 J (j_of_u8 J x) = Inr x) \<and>
     (\<forall>x. j_get_u32 J (j_of_u32 J x) = Inr x) \<and> (\<forall>x. j_get_u64 J (j_of_u64 J x) = Inr x) \<and>
     (\<forall>x. j_get_i64 J (j_of_i64 J x) = Inr x) \<and> (\<forall>x. j_get_double J (j_of_double J x) = Inr x) \<and>
     (\<forall>kvs k. distinct (map fst kvs) \<longrightarrow>
        j_at J (j_object J kvs) k =
          (case map_of kvs k of Some v \<Rightarrow> Inr v | None \<Rightarrow> Inl (OutOfRange k)))"

subsection \<open>JSON form of a task\<close>

definition Resource_to_json :: "'j json_api \<Rightarrow> Resource \<Rightarrow> 'j" where
  "Resource_to_json J r =
     j_object J [(''cpu_core'', j_of_double J (cpu_core r)), (''mem_mb'', j_of_u64 J (mem_mb r))]"

definition Shard_to_json :: "'j json_api \<Rightarrow> Shard \<Rightarrow> 'j" where
  "Shard_to_json J s =
     j_object J [(''shard_id'', j_of_u32 J (shard_id s)), (''total_shards'', j_of_u32 J (total_shards s))]"

definition to_json :: "'j json_api \<Rightarrow> 'j Task \<Rightarrow> 'j" where
  "to_json J t = j_object J
     [(''task_id'', j_of_string J (task_id t)),
      (''client_id'', j_of_string J (client_id t)),
      (''priority'', j_of_u32 J (priority t)),
      (''state'', j_of_u8 J (state t)),
      (''func_name'', j_of_string J (func_name t)),
      (''func_params'', func_params t),
      (''required'', Resource_to_json J (required t)),
      (''shard'', Shard_to_json J (shard t)),
      (''timeout_ms'', j_of_u32 J (timeout_ms t)),
      (''max_retry'', j_of_u32 J (max_retry t)),
      (''retry_count'', j_of_u32 J (retry_count t)),
      (''submit_ts'', j_of_i64 J (submit_ts t)),
      (''start_ts'', j_of_i64 J (start_ts t)),
      (''finish_ts'', j_of_i64 J (finish_ts t)),
      (''result'', result t),
      (''error_msg'', j_of_string J (error_msg t))]"

text \<open>
  A sequence of assignments through \<open>get_to\<close>: the first one that throws ends it, and what
  was assigned before stays. Two of the members are structs that are read in place: such an
  assignment may change part of the struct and then throw.
\<close>

fun assign_all :: "('t \<Rightarrow> 't \<times> 'e option) list \<Rightarrow> 't \<Rightarrow> 't \<times> 'e option" where
  "assign_all [] t = (t, None)"
| "assign_all (f # fs) t =
     (case f t of (t', Some e) \<Rightarrow> (t', Some e) | (t', None) \<Rightarrow> assign_all fs t')"

definition member_to ::
  "'j json_api \<Rightarrow> 'j \<Rightarrow> string \<Rightarrow> ('j \<Rightarrow> json_error + 'x) \<Rightarrow> ('x \<Rightarrow> 't \<Rightarrow> 't) \<Rightarrow> 't \<Rightarrow>
   't \<times> json_error option" where
  "member_to J j k get_x set_x t =
     (case try_bind (j_at J j k) get_x of Inl e \<Rightarrow> (t, Some e) | Inr x \<Rightarrow> (set_x x t, None))"

definition Resource_from_json :: "'j json_api \<Rightarrow> 'j \<Rightarrow> Resource \<Rightarrow> Resource \<times> json_error option" where
  "Resource_from_json J j = assign_all
     [member_to J j ''cpu_core'' (j_get_double J) (\<lambda>x r. r\<lparr>cpu_core := x\<rparr>),
      member_to J j ''mem_mb'' (j_get_u64 J) (\<lambda>x r. r\<lparr>mem_mb := x\<rparr>)]"

definition Shard_from_json :: "'j json_api \<Rightarrow> 'j \<Rightarrow> Shard \<Rightarrow> Shard \<times> json_error option" where
  "Shard_from_json J j = assign_all
     [member_to J j ''shard_id'' (j_get_u32 J) (\<lambda>x s. s\<lparr>shard_id := x\<rparr>),
      member_to J j ''total_shards'' (j_get_u32 J) (\<lambda>x s. s\<lparr>total_shards := x\<rparr>)]"

definition nested ::
  "'j json_api \<Rightarrow> 'j \<Rightarrow> string \<Rightarrow> ('j \<Rightarrow> 'x \<Rightarrow> 'x \<times> json_error option) \<Rightarrow> ('t \<Rightarrow> 'x) \<Rightarrow>
   ('x \<Rightarrow> 't \<Rightarrow> 't) \<Rightarrow> 't \<Rightarrow> 't \<times> json_error option" where
  "nested J j k read_x get_x set_x t =
     (case j_at J j k of
        Inl e \<Rightarrow> (t, Some e)
      | Inr v \<Rightarrow> (case read_x v (get_x t) of (x, e) \<Rightarrow> (set_x x t, e)))"

definition from_json_steps :: "'j json_api \<Rightarrow> 'j \<Rightarrow> ('j Task \<Rightarrow> 'j Task \<times> json_error option) list" where
  "from_json_steps J j =
     [member_to J j ''task_id'' (j_get_string J) (\<lambda>x t. t\<lparr>task_id := x\<rparr>),
      member_to J j ''client_id'' (j_get_string J) (\<lambda>x t. t\<lparr>client_id := x\<rparr>),
      member_to J j ''priority'' (j_get_u32 J) (\<lambda>x t. t\<lparr>priority := x\<rparr>),
      member_to J j ''state'' (j_get_u8 J) (\<lambda>x t. t\<lparr>state := x\<rparr>),
      member_to J j ''func_name'' (j_get_string J) (\<lambda>x t. t\<lparr>func_name := x\<rparr>),
      member_to J j ''func_params'' Inr (\<lambda>x t. t\<lparr>func_params := x\<rparr>),
      nested J j ''required'' (Resource_from_json J) required (\<lambda>x t. t\<lparr>required := x\<rparr>),
      nested J j ''shard'' (Shard_from_json J) shard (\<lambda>x t. t\<lparr>shard := x\<rparr>),
      member_to J j ''timeout_ms'' (j_get_u32 J) (\<lambda>x t. t\<lparr>timeout_ms := x\<rparr>),
      member_to J j ''max_retry'' (j_get_u32 J) (\<lambda>x t. t\<lparr>max_retry := x\<rparr>),
      member_to J j ''retry_count'' (j_get_u32 J) (\<lambda>x t. t\<lparr>retry_count := x\<rparr>),
      member_to J j ''submit_ts'' (j_get_i64 J) (\<lambda>x t. t\<lparr>submit_ts := x\<rparr>),
      member_to J j ''start_ts'' (j_get_i64 J) (\<lambda>x t. t\<lparr>start_ts := x\<rparr>),
      member_to J j ''finish_ts'' (j_get_i64 J) (\<lambda>x t. t\<lparr>finish_ts := x\<rparr>),
      member_to J j ''result'' Inr (\<lambda>x t. t\<lparr>result := x\<rparr>),
      member_to J j ''error_msg'' (j_get_string J) (\<lambda>x t. t\<lparr>error_msg := x\<rparr>)]"

definition from_json :: "'j json_api \<Rightarrow> 'j \<Rightarrow> 'j Task \<Rightarrow> 'j Task \<times> json_error option" where
  "from_json J j = assign_all (from_json_steps J j)"

subsection \<open>Protocol buffers\<close>

datatype 's vkind =
    NullValue | NumberValue dbl | StringValue string | BoolValue bool | StructValue 's
  | ListValue | KindNotSet

record ('s, 'v) struct_api =
  s_empty :: 's
  s_put :: "string \<Rightarrow> 'v \<Rightarrow> 's \<Rightarrow> 's"
  s_fields :: "'s \<Rightarrow> (string \<times> 'v) list"
  v_make :: "'s vkind \<Rightarrow> 'v"
  v_kind :: "'v \<Rightarrow> 's vkind"

text \<open>The \<open>fields\<close> of a struct are a map, and a value is what it was set to.\<close>

definition struct_laws :: "('s, 'v) struct_api \<Rightarrow> bool" where
  "struct_laws P \<longleftrightarrow>
     s_fields P (s_empty P) = [] \<and>
     (\<forall>k v s. map_of (s_fields P (s_put P k v s)) = (map_of (s_fields P s))(k \<mapsto> v)) \<and>
     (\<forall>s. distinct (map fst (s_fields P s))) \<and>
     (\<forall>x. v_kind P (v_make P x) = x)"

text \<open>
  A JSON value is a finite tree: \<open>dep\<close> bounds its depth. \<open>operator[]\<close> on null or on an
  object inserts or overwrites a member; the keys of \<open>items()\<close> are distinct.
\<close>

definition items_laws :: "'j json_api \<Rightarrow> ('j \<Rightarrow> nat) \<Rightarrow> bool" where
  "items_laws J dep \<longleftrightarrow>
     (\<forall>j. distinct (map fst (j_items J j))) \<and>
     (\<forall>j k v. (k, v) \<in> set (j_items J j) \<longrightarrow> j_kind J v \<in> {KArray, KObject} \<longrightarrow> dep v < dep j) \<and>
     (\<forall>v. j_kind J v = KBoolean \<longrightarrow> ok (j_get_bool J v)) \<and>
     (\<forall>v. j_kind J v = KNumber \<longrightarrow> ok (j_get_double J v)) \<and>
     (\<forall>v. j_kind J v = KString \<longrightarrow> ok (j_get_string J v))"

definition build_laws :: "'j json_api \<Rightarrow> bool" where
  "build_laws J \<longleftrightarrow>
     j_items J (j_null J) = [] \<and> j_kind J (j_null J) = KNull \<and>
     (\<forall>k v j. j_kind J j \<in> {KNull, KObject} \<longrightarrow>
        map_of (j_items J (j_put J k v j)) = (map_of (j_items J j))(k \<mapsto> v) \<and>
        j_kind J (j_put J k v j) = KObject)"

text \<open>
  \<open>JsonToStruct\<close>, with fuel for the nesting of the value. Its result is \<open>None\<close> when the
  fuel runs out and an exception when a conversion throws.
\<close>

definition json_value ::
  "'j json_api \<Rightarrow> ('s, 'v) struct_api \<Rightarrow> ('j \<Rightarrow> (json_error + 's) option) \<Rightarrow> 'j \<Rightarrow> (json_error + 'v) option"
where
  "json_value J P rec v =
     (case j_kind J v of
        KBoolean \<Rightarrow> Some (try_bind (j_get_bool J v) (\<lambda>x. Inr (v_make P (BoolValue x))))
      | KNumber \<Rightarrow> Some (try_bind (j_get_double J v) (\<lambda>x. Inr (v_make P (NumberValue x))))
      | KString \<Rightarrow> Some (try_bind (j_get_string J v) (\<lambda>x. Inr (v_make P (StringValue x))))
      | KNull \<Rightarrow> Some (Inr (v_make P NullValue))
      | KArray \<Rightarrow> map_option (\<lambda>r. try_bind r (\<lambda>s. Inr (v_make P (StructValue s)))) (rec v)
      | KObject \<Rightarrow> map_option (\<lambda>r. try_bind r (\<lambda>s. Inr (v_make P (StructValue s)))) (rec v)
      | KOther \<Rightarrow> Some (Inr (v_make P KindNotSet)))"

fun put_items ::
  "'j json_api \<Rightarrow> ('s, 'v) struct_api \<Rightarrow> ('j \<Rightarrow> (json_error + 's) option) \<Rightarrow> (string \<times> 'j) list \<Rightarrow> 's \<Rightarrow>
   (json_error + 's) option" where
  "put_items J P rec [] s = Some (Inr s)"
| "put_items J P rec ((k, v) # kvs) s =
     (case json_value J P rec v of
        None \<Rightarrow> None
      | Some (Inl e) \<Rightarrow> Some (Inl e)
      | Some (Inr pv) \<Rightarrow> put_items J P rec kvs (s_put P k pv s))"

fun JsonToStruct ::
  "'j json_api \<Rightarrow> ('s, 'v) struct_api \<Rightarrow> nat \<Rightarrow> 'j \<Rightarrow> (json_error + 's) option" where
  "JsonToStruct J P 0 j = None"
| "JsonToStruct J P (Suc n) j = put_items J P (JsonToStruct J P n) (j_items J j) (s_empty P)"

fun put_fields ::
  "'j json_api \<Rightarrow> ('s, 'v) struct_api \<Rightarrow> ('s \<Rightarrow> 'j option) \<Rightarrow> (string \<times> 'v) list \<Rightarrow> 'j \<Rightarrow> 'j option" where
  "put_fields J P rec [] j = Some j"
| "put_fields J P rec ((k, v) # kvs) j =
     (case v_kind P v of
        BoolValue x \<Rightarrow> put_fields J P rec kvs (j_put J k (j_of_bool J x) j)
      | NumberValue x \<Rightarrow> put_fields J P rec kvs (j_put J k (j_of_double J x) j)
      | StringValue x \<Rightarrow> put_fields J P rec kvs (j_put J k (j_of_string J x) j)
      | StructValue s \<Rightarrow>
          (case rec s of None \<Rightarrow> None | Some x \<Rightarrow> put_fields J P rec kvs (j_put J k x j))
      | _ \<Rightarrow> put_fields J P rec kvs j)"

fun StructToJson :: "'j json_api \<Rightarrow> ('s, 'v) struct_api \<Rightarrow> nat \<Rightarrow> 's \<Rightarrow> 'j option" where
  "StructToJson J P 0 s = None"
| "StructToJson J P (Suc n) s = put_fields J P (StructToJson J P n) (s_fields P s) (j_null J)"

text \<open>The message of \<open>task.proto\<close>. A proto3 enumeration is open: it holds any 32-bit value.\<close>

record PbResource =
  pb_cpu_core :: dbl
  pb_mem_mb :: u64

record PbShard =
  pb_shard_id :: u32
  pb_total_shards :: u32

record 's PbTask =
  pb_task_id :: string
  pb_client_id :: string
  pb_priority :: u32
  pb_state :: "32 word"
  pb_func_name :: string
  pb_func_params :: 's
  pb_required :: PbResource
  pb_shard :: PbShard
  pb_timeout_ms :: u32
  pb_max_retry :: u32
  pb_retry_count :: u32
  pb_submit_ts :: i64
  pb_start_ts :: i64
  pb_finish_ts :: i64
  pb_result :: 's
  pb_error_msg :: string

definition TaskToProto ::
  "'j json_api \<Rightarrow> ('s, 'v) struct_api \<Rightarrow> nat \<Rightarrow> 'j Task \<Rightarrow> (json_error + 's PbTask) option" where
  "TaskToProto J P n task =
     (case JsonToStruct J P n (func_params task) of
        None \<Rightarrow> None
      | Some (Inl e) \<Rightarrow> Some (Inl e)
      | Some (Inr fp) \<Rightarrow>
          (case JsonToStruct J P n (result task) of
             None \<Rightarrow> None
           | Some (Inl e) \<Rightarrow> Some (Inl e)
           | Some (Inr res) \<Rightarrow> Some (Inr
               \<lparr>pb_task_id = task_id task, pb_client_id = client_id task,
                pb_priority = priority task, pb_state = ucast (state task),
                pb_func_name = func_name task, pb_func_params = fp,
                pb_required = \<lparr>pb_cpu_core = cpu_core (required task), pb_mem_mb = mem_mb (required task)\<rparr>,
                pb_shard = \<lparr>pb_shard_id = shard_id (shard task), pb_total_shards = total_shards (shard task)\<rparr>,
                pb_timeout_ms = timeout_ms task, pb_max_retry = max_retry task,
                pb_retry_count = retry_count task, pb_submit_ts = submit_ts task,
                pb_start_ts = start_ts task, pb_finish_ts = finish_ts task,
                pb_result = res, pb_error_msg = error_msg task\<rparr>)))"

text \<open>The new task gets a fresh flag, at \<open>flag\<close>.\<close>

definition TaskFromProto ::
  "'j json_api \<Rightarrow> ('s, 'v) struct_api \<Rightarrow> nat \<Rightarrow> addr \<Rightarrow> 's PbTask \<Rightarrow> 'j Task option" where
  "TaskFromProto J P n flag proto =
     (case StructToJson J P n (pb_func_params proto) of
        None \<Rightarrow> None
      | Some fp \<Rightarrow>
          (case StructToJson J P n (pb_result proto) of
             None \<Rightarrow> None
           | Some res \<Rightarrow> Some
               \<lparr>task_id = pb_task_id proto, client_id = pb_client_id proto,
                priority = pb_priority proto, state = ucast (pb_state proto), cancelled = flag,
                func_name = pb_func_name proto, func_params = fp,
                required = \<lparr>cpu_core = pb_cpu_core (pb_required proto), mem_mb = pb_mem_mb (pb_required proto)\<rparr>,
                shard = \<lparr>shard_id = pb_shard_id (pb_shard proto), total_shards = pb_total_shards (pb_shard proto)\<rparr>,
                timeout_ms = pb_timeout_ms proto, max_retry = pb_max_retry proto,
                retry_count = pb_retry_count proto, submit_ts = pb_submit_ts proto,
                start_ts = pb_start_ts proto, finish_ts = pb_finish_ts proto,
                result = res, error_msg = pb_error_msg proto\<rparr>))"

subsection \<open>Specification\<close>

definition member_keys :: "string list" where
  "member_keys = [''task_id'', ''client_id'', ''priority'', ''state'', ''func_name'', ''func_params'',
     ''required'', ''shard'', ''timeout_ms'', ''max_retry'', ''retry_count'', ''submit_ts'',
     ''start_ts'', ''finish_ts'', ''result'', ''error_msg'']"

text \<open>What the JSON value under one key becomes on the way to a struct and back.\<close>

definition through ::
  "'j json_api \<Rightarrow> ('s, 'v) struct_api \<Rightarrow> nat \<Rightarrow> 'j \<Rightarrow> 'j option" where
  "through J P n j =
     (case JsonToStruct J P n j of Some (Inr s) \<Rightarrow> StructToJson J P n s | _ \<Rightarrow> None)"

definition field_json ::
  "'j json_api \<Rightarrow> ('s, 'v) struct_api \<Rightarrow> ('s \<Rightarrow> 'j option) \<Rightarrow> 'v \<Rightarrow> 'j option" where
  "field_json J P rec v =
     (case v_kind P v of
        BoolValue x \<Rightarrow> Some (j_of_bool J x) | NumberValue x \<Rightarrow> Some (j_of_double J x)
      | StringValue x \<Rightarrow> Some (j_of_string J x) | StructValue s \<Rightarrow> rec s | _ \<Rightarrow> None)"

text \<open>JSON values without arrays, and structs, as trees: an instance of the two interfaces.\<close>

datatype jv =
    VNull | VBool bool | VInt int | VNum dbl | VStr string | VObj "(string \<times> jv) list"

definition get_int :: "(int \<Rightarrow> 'x) \<Rightarrow> jv \<Rightarrow> json_error + 'x" where
  "get_int f v = (case v of VInt i \<Rightarrow> Inr (f i) | _ \<Rightarrow> Inl TypeError)"

definition jv_items :: "jv \<Rightarrow> (string \<times> jv) list" where
  "jv_items j =
     (case j of VNull \<Rightarrow> [] | VObj kvs \<Rightarrow> AList.clearjunk kvs | _ \<Rightarrow> [([], j)])"

definition jv_api :: "jv json_api" where
  "jv_api =
     \<lparr>j_null = VNull, j_object = VObj,
      j_at = (\<lambda>j k. case j of VObj kvs \<Rightarrow>
          (case map_of kvs k of Some v \<Rightarrow> Inr v | None \<Rightarrow> Inl (OutOfRange k)) | _ \<Rightarrow> Inl TypeError),
      j_put = (\<lambda>k v j. case j of VObj kvs \<Rightarrow> VObj (AList.update k v kvs) | _ \<Rightarrow> VObj [(k, v)]),
      j_items = jv_items,
      j_kind = (\<lambda>j. case j of VNull \<Rightarrow> KNull | VBool _ \<Rightarrow> KBoolean | VInt _ \<Rightarrow> KNumber
          | VNum _ \<Rightarrow> KNumber | VStr _ \<Rightarrow> KString | VObj _ \<Rightarrow> KObject),
      j_of_string = VStr, j_get_string = (\<lambda>j. case j of VStr x \<Rightarrow> Inr x | _ \<Rightarrow> Inl TypeError),
      j_of_u8 = (\<lambda>w. VInt (uint w)), j_get_u8 = get_int of_int,
      j_of_u32 = (\<lambda>w. VInt (uint w)), j_get_u32 = get_int of_int,
      j_of_u64 = (\<lambda>w. VInt (uint w)), j_get_u64 = get_int of_int,
      j_of_i64 = (\<lambda>w. VInt (sint w)), j_get_i64 = get_int of_int,
      j_of_double = VNum,
      j_get_double = (\<lambda>j. case j of VNum x \<Rightarrow> Inr x | VInt i \<Rightarrow> Inr (DFin (of_int i)) | _ \<Rightarrow> Inl TypeError),
      j_of_bool = VBool, j_get_bool = (\<lambda>j. case j of VBool x \<Rightarrow> Inr x | _ \<Rightarrow> Inl TypeError)\<rparr>"

datatype sv = Struct "(string \<times> sv vkind) list"

definition sv_api :: "(sv, sv vkind) struct_api" where
  "sv_api =
     \<lparr>s_empty = Struct [], s_put = (\<lambda>k v s. case s of Struct kvs \<Rightarrow> Struct (AList.update k v kvs)),
      s_fields = (\<lambda>s. case s of Struct kvs \<Rightarrow> AList.clearjunk kvs),
      v_make = (\<lambda>x. x), v_kind = (\<lambda>x. x)\<rparr>"

subsection \<open>JSON form\<close>

lemma assign_all_fails:
  "f \<in> set fs \<Longrightarrow> (\<And>t. snd (f t) \<noteq> None) \<Longrightarrow> snd (assign_all fs t) \<noteq> None"
proof (induction fs arbitrary: t)
  case (Cons g fs)
  show ?case
  proof (cases "g t")
    case (Pair t' e)
    with Cons show ?thesis by (cases "f = g"; cases e) (auto, metis option.distinct(1) snd_conv)
  qed
qed simp

lemma assign_all_keeps:
  "(\<And>f t. f \<in> set fs \<Longrightarrow> g (fst (f t)) = g t) \<Longrightarrow> g (fst (assign_all fs t)) = g t"
proof (induction fs arbitrary: t)
  case (Cons f fs)
  obtain t' e where ft: "f t = (t', e)" by (cases "f t")
  with Cons.prems [of f t] have "g t' = g t" by simp
  with Cons ft show ?case by (auto split: option.split)
qed simp

lemma assign_all_append:
  "assign_all (fs @ gs) t =
     (case assign_all fs t of (t', Some e) \<Rightarrow> (t', Some e) | (t', None) \<Rightarrow> assign_all gs t')"
  by (induction fs arbitrary: t) (auto split: prod.split option.split)

lemma json_at:
  "json_laws J \<Longrightarrow> distinct (map fst kvs) \<Longrightarrow>
   j_at J (j_object J kvs) k = (case map_of kvs k of Some v \<Rightarrow> Inr v | None \<Rightarrow> Inl (OutOfRange k))"
  unfolding json_laws_def by blast

lemma json_get:
  assumes "json_laws J"
  shows "j_get_string J (j_of_string J x1) = Inr x1" "j_get_u8 J (j_of_u8 J x2) = Inr x2"
    "j_get_u32 J (j_of_u32 J x3) = Inr x3" "j_get_u64 J (j_of_u64 J x4) = Inr x4"
    "j_get_i64 J (j_of_i64 J x5) = Inr x5" "j_get_double J (j_of_double J x6) = Inr x6"
  using assms unfolding json_laws_def by blast+

lemma member_to_simps:
  "j_at J j k = Inr v \<Longrightarrow> get_x v = Inr x \<Longrightarrow> member_to J j k get_x set_x t = (set_x x t, None)"
  "j_at J j k = Inl e \<Longrightarrow> member_to J j k get_x set_x t = (t, Some e)"
  by (simp_all add: member_to_def)

lemma Resource_roundtrip:
  "json_laws J \<Longrightarrow> Resource_from_json J (Resource_to_json J r) r0 = (r, None)"
  by (simp add: Resource_from_json_def Resource_to_json_def member_to_def json_at json_get)

lemma Shard_roundtrip:
  "json_laws J \<Longrightarrow> Shard_from_json J (Shard_to_json J s) s0 = (s, None)"
  by (simp add: Shard_from_json_def Shard_to_json_def member_to_def json_at json_get)

lemma jv_json_laws: "json_laws jv_api"
  unfolding json_laws_def by (simp add: jv_api_def get_int_def)

lemma jv_build_laws: "build_laws jv_api"
  unfolding build_laws_def
  by (auto simp: jv_api_def jv_items_def map_of_clearjunk update_conv' split: jv.splits)

lemma jv_items_laws: "items_laws jv_api size"
  unfolding items_laws_def
proof (intro conjI allI impI)
  show "distinct (map fst (j_items jv_api j))" for j
    by (auto simp: jv_api_def jv_items_def split: jv.splits)
  show "size v < size j"
    if "(k, v) \<in> set (j_items jv_api j)" "j_kind jv_api v \<in> {KArray, KObject}" for j k v
  proof (cases j)
    case (VObj kvs)
    with that(1) have "(k, v) \<in> set (AList.clearjunk kvs)" by (simp add: jv_api_def jv_items_def)
    then have "(k, v) \<in> set kvs" by (metis map_of_clearjunk map_of_SomeD distinct_clearjunk map_of_eq_Some_iff)
    then have "size v < size_list (size_prod (\<lambda>_. 0) size) kvs"
      by (induction kvs) auto
    with VObj show ?thesis by simp
  qed (use that in \<open>auto simp: jv_api_def jv_items_def\<close>)
qed (auto simp: jv_api_def split: jv.splits)

lemma sv_struct_laws: "struct_laws sv_api"
  unfolding struct_laws_def
  by (auto simp: sv_api_def map_of_clearjunk update_conv' split: sv.splits)

subsection \<open>Structs\<close>

lemma struct_lawsD:
  assumes "struct_laws P"
  shows "s_fields P (s_empty P) = []"
    and "map_of (s_fields P (s_put P k v s)) = (map_of (s_fields P s))(k \<mapsto> v)"
    and "distinct (map fst (s_fields P s))" and "v_kind P (v_make P x) = x"
  using assms by (auto simp: struct_laws_def)

lemma put_items_fields:
  assumes "struct_laws P" and "put_items J P rec kvs s = Some (Inr s')" and "distinct (map fst kvs)"
  shows "case map_of kvs k of
      Some v \<Rightarrow> \<exists>pv. json_value J P rec v = Some (Inr pv) \<and> map_of (s_fields P s') k = Some pv
    | None \<Rightarrow> map_of (s_fields P s') k = map_of (s_fields P s) k"
  using assms(2,3)
proof (induction kvs arbitrary: s)
  case (Cons kv kvs)
  obtain k' v' where kv: "kv = (k', v')" by (cases kv)
  with Cons.prems obtain pv where pv: "json_value J P rec v' = Some (Inr pv)"
    "put_items J P rec kvs (s_put P k' pv s) = Some (Inr s')"
    by (auto split: option.splits sum.splits)
  note ih = Cons.IH [OF pv(2)] and put = struct_lawsD(2) [OF assms(1)]
  show ?case
  proof (cases "k = k'")
    case True
    with Cons.prems kv have "map_of kvs k = None" by (auto simp: map_of_eq_None_iff)
    with ih Cons.prems kv pv(1) True put show ?thesis by simp
  next
    case False
    then have "map_of (kv # kvs) k = map_of kvs k"
      "map_of (s_fields P (s_put P k' pv s)) k = map_of (s_fields P s) k"
      using kv put by simp_all
    with ih Cons.prems(2) show ?thesis by (simp split: option.split_asm)
  qed
qed simp

lemma json_value_ok:
  assumes "items_laws J dep" and "(k, v) \<in> set (j_items J j)" and "dep j \<le> n"
    and "\<And>v. dep v < n \<Longrightarrow> \<exists>s. rec v = Some (Inr s)"
  shows "\<exists>pv. json_value J P rec v = Some (Inr pv)"
proof -
  have rec: "\<exists>s. rec v = Some (Inr s)" if "j_kind J v \<in> {KArray, KObject}"
  proof -
    from that assms(1-3) have "dep v < n" unfolding items_laws_def by (meson less_le_trans)
    with assms(4) show ?thesis .
  qed
  show ?thesis
  proof (cases "j_kind J v")
    case KBoolean
    with assms(1) have "ok (j_get_bool J v)" by (simp add: items_laws_def)
    with KBoolean show ?thesis by (cases "j_get_bool J v") (simp_all add: json_value_def)
  next
    case KNumber
    with assms(1) have "ok (j_get_double J v)" by (simp add: items_laws_def)
    with KNumber show ?thesis by (cases "j_get_double J v") (simp_all add: json_value_def)
  next
    case KString
    with assms(1) have "ok (j_get_string J v)" by (simp add: items_laws_def)
    with KString show ?thesis by (cases "j_get_string J v") (simp_all add: json_value_def)
  qed (use rec in \<open>auto simp: json_value_def\<close>)
qed

lemma JsonToStruct_total:
  "items_laws J dep \<Longrightarrow> dep j < n \<Longrightarrow> \<exists>s. JsonToStruct J P n j = Some (Inr s)"
proof (induction n arbitrary: j)
  case (Suc n)
  have "\<exists>s'. put_items J P (JsonToStruct J P n) kvs s = Some (Inr s')"
    if "set kvs \<subseteq> set (j_items J j)" for kvs s
    using that
  proof (induction kvs arbitrary: s)
    case (Cons kv kvs)
    obtain k v where kv: "kv = (k, v)" by (cases kv)
    have "\<exists>pv. json_value J P (JsonToStruct J P n) v = Some (Inr pv)"
      using Suc Cons.prems kv by (intro json_value_ok [of J dep k v j n]) auto
    with Cons kv show ?case by auto
  qed simp
  then show ?case by simp
qed simp

lemma put_fields_items:
  assumes "build_laws J" and "put_fields J P rec kvs j = Some j'" and "distinct (map fst kvs)"
    and "j_kind J j \<in> {KNull, KObject}"
  shows "map_of (j_items J j') k =
    (case Option.bind (map_of kvs k) (field_json J P rec) of Some x \<Rightarrow> Some x | None \<Rightarrow> map_of (j_items J j) k)"
  using assms(2-)
proof (induction kvs arbitrary: j)
  case (Cons kv kvs)
  obtain k' v where kv: "kv = (k', v)" by (cases kv)
  have put: "map_of (j_items J (j_put J k' x j)) = (map_of (j_items J j))(k' \<mapsto> x)"
    "j_kind J (j_put J k' x j) = KObject" for x
    using assms(1) Cons.prems(3) unfolding build_laws_def by blast+
  from Cons.prems(2) kv have none: "map_of kvs k' = None" and dist: "distinct (map fst kvs)"
    by (auto simp: map_of_eq_None_iff)
  show ?case
  proof (cases "field_json J P rec v")
    case None
    then have "put_fields J P rec kvs j = Some j'"
      using Cons.prems(1) kv by (auto simp: field_json_def split: vkind.splits option.splits)
    from Cons.IH [OF this dist Cons.prems(3)] None none kv show ?thesis by auto
  next
    case (Some x)
    then have "put_fields J P rec kvs (j_put J k' x j) = Some j'"
      using Cons.prems(1) kv by (auto simp: field_json_def split: vkind.splits option.splits)
    note ih = Cons.IH [OF this dist]
    show ?thesis using put Some none kv by (auto simp: ih split: option.split)
  qed
qed simp

text \<open>A struct that was built with some fuel is read back with the same fuel.\<close>

lemma put_fields_total:
  assumes "\<And>k v s. (k, v) \<in> set kvs \<Longrightarrow> v_kind P v = StructValue s \<Longrightarrow> rec s \<noteq> None"
  shows "\<exists>j'. put_fields J P rec kvs j = Some j'"
  using assms
proof (induction kvs arbitrary: j)
  case (Cons kv kvs)
  obtain k v where kv: "kv = (k, v)" by (cases kv)
  have ih: "\<exists>j'. put_fields J P rec kvs j = Some j'" for j using Cons by (meson list.set_intros(2))
  with Cons.prems [of k v] kv show ?case by (auto split: vkind.splits option.splits)
qed simp

lemma StructToJson_total:
  assumes "struct_laws P" and "items_laws J dep"
  shows "JsonToStruct J P n j = Some (Inr s) \<Longrightarrow> \<exists>x. StructToJson J P n s = Some x"
proof (induction n arbitrary: j s)
  case (Suc n)
  have dist: "distinct (map fst (j_items J j))" using assms(2) by (simp add: items_laws_def)
  have put: "put_items J P (JsonToStruct J P n) (j_items J j) (s_empty P) = Some (Inr s)"
    using Suc.prems by simp
  have "StructToJson J P n s' \<noteq> None"
    if "(k, v) \<in> set (s_fields P s)" "v_kind P v = StructValue s'" for k v s'
  proof -
    have fv: "map_of (s_fields P s) k = Some v"
      using that(1) struct_lawsD(3) [OF assms(1)] by (intro map_of_is_SomeI)
    with put_items_fields [OF assms(1) put dist, of k] struct_lawsD(1) [OF assms(1)]
    obtain jw where jw: "json_value J P (JsonToStruct J P n) jw = Some (Inr v)"
      by (auto split: option.splits)
    have "JsonToStruct J P n jw = Some (Inr s')"
      using jw that(2) struct_lawsD(4) [OF assms(1)]
      by (auto simp: json_value_def try_bind_Inr_iff split: jkind.splits)
    with Suc.IH show ?thesis by blast
  qed
  then show ?case by (auto intro: put_fields_total)
qed simp

lemma through_items:
  assumes "struct_laws P" and "build_laws J" and "items_laws J dep" and "through J P (Suc n) j = Some j'"
  shows "map_of (j_items J j') k =
    (case map_of (j_items J j) k of
       None \<Rightarrow> None
     | Some v \<Rightarrow>
         (case json_value J P (JsonToStruct J P n) v of
            Some (Inr pv) \<Rightarrow> field_json J P (StructToJson J P n) pv | _ \<Rightarrow> None))"
proof -
  from assms(4) obtain s where put: "put_items J P (JsonToStruct J P n) (j_items J j) (s_empty P) = Some (Inr s)"
    and bk: "put_fields J P (StructToJson J P n) (s_fields P s) (j_null J) = Some j'"
    by (auto simp: through_def split: option.splits sum.splits)
  have "distinct (map fst (j_items J j))" using assms(3) by (simp add: items_laws_def)
  note fields = put_items_fields [OF assms(1) put this, of k]
  have "map_of (j_items J j') k =
      Option.bind (map_of (s_fields P s) k) (field_json J P (StructToJson J P n))"
    using put_fields_items [OF assms(2) bk struct_lawsD(3) [OF assms(1)], of k] assms(2)
    by (auto simp: build_laws_def split: option.splits)
  with fields struct_lawsD(1) [OF assms(1)] show ?thesis
    by (auto split: option.splits)
qed

lemma through_total:
  assumes "struct_laws P" and "items_laws J dep" and "dep j < n"
  shows "\<exists>s j'. JsonToStruct J P n j = Some (Inr s) \<and> StructToJson J P n s = Some j' \<and> through J P n j = Some j'"
proof -
  from JsonToStruct_total [OF assms(2,3), where P = P] obtain s where s: "JsonToStruct J P n j = Some (Inr s)" by blast
  from StructToJson_total [OF assms(1,2) s] obtain j' where "StructToJson J P n s = Some j'" by blast
  with s show ?thesis by (intro exI [of _ s] exI [of _ j']) (simp add: through_def)
qed

lemma message_roundtrip:
  assumes "struct_laws P" and "items_laws J dep" and "dep (func_params t) < n" and "dep (result t) < n"
  shows "\<exists>pb fp res. TaskToProto J P n t = Some (Inr pb) \<and>
     through J P n (func_params t) = Some fp \<and> through J P n (result t) = Some res \<and>
     TaskFromProto J P n flag pb = Some (t\<lparr>cancelled := flag, func_params := fp, result := res\<rparr>)"
proof -
  from through_total [OF assms(1,2,3)] obtain s1 fp where
    1: "JsonToStruct J P n (func_params t) = Some (Inr s1)" "StructToJson J P n s1 = Some fp"
       "through J P n (func_params t) = Some fp" by blast
  from through_total [OF assms(1,2,4)] obtain s2 res where
    2: "JsonToStruct J P n (result t) = Some (Inr s2)" "StructToJson J P n s2 = Some res"
       "through J P n (result t) = Some res" by blast
  have "ucast (ucast w :: 32 word) = w" for w :: "8 word"
    by (rule bit_word_eqI) (simp add: bit_ucast_iff)
  with 1 2 show ?thesis by (simp add: TaskToProto_def TaskFromProto_def)
qed

lemma TaskFromProto_state:
  "TaskFromProto J P n flag (pb\<lparr>pb_state := v\<rparr>) =
   map_option (\<lambda>t. t\<lparr>state := ucast v\<rparr>) (TaskFromProto J P n flag pb)"
  by (simp add: TaskFromProto_def split: option.split)

subsection \<open>Properties\<close>

text \<open>C15: reading back the JSON form of a task restores every field of it, whatever the task
  that is assigned to held before, and leaves that task's cancellation flag alone.\<close>

theorem json_roundtrip:
  assumes "json_laws J"
  shows "from_json J (to_json J t) t0 = (t\<lparr>cancelled := cancelled t0\<rparr>, None)"
  by (simp add: from_json_def from_json_steps_def to_json_def member_to_def nested_def
      json_at [OF assms] json_get [OF assms] Resource_roundtrip [OF assms] Shard_roundtrip [OF assms])

theorem json_roundtrip_witness:
  "from_json jv_api (to_json jv_api ((Task_new VNull 7)\<lparr>task_id := ''a'', priority := 9\<rparr>)) (Task_new VNull 8)
   = ((Task_new VNull 7)\<lparr>task_id := ''a'', priority := 9, cancelled := 8\<rparr>, None)"
  using json_roundtrip [OF jv_json_laws, of "(Task_new VNull 7)\<lparr>task_id := ''a'', priority := 9\<rparr>" "Task_new VNull 8"]
  by (simp add: Task_new_def)

text \<open>If one of the sixteen members is missing, \<open>from_json\<close> throws; it has then not assigned
  \<open>error_msg\<close>, the last member, nor touched the cancellation flag, so the target is left as a
  mixture of old and new fields.\<close>

theorem from_json_missing_member:
  assumes "k \<in> set member_keys" and "j_at J j k = Inl e"
  shows "\<exists>t' e'. from_json J j t0 = (t', Some e') \<and> error_msg t' = error_msg t0 \<and>
     cancelled t' = cancelled t0"
proof -
  let ?fs = "from_json_steps J j"
  obtain t' e' where r: "assign_all ?fs t0 = (t', e')" by (cases "assign_all ?fs t0")
  have "\<exists>f \<in> set ?fs. \<forall>t. snd (f t) \<noteq> None"
    using assms by (auto simp: member_keys_def from_json_steps_def member_to_def nested_def)
  with assign_all_fails [of _ ?fs t0] r have err: "e' \<noteq> None" by fastforce
  have "cancelled (fst (assign_all ?fs t0)) = cancelled t0"
    by (rule assign_all_keeps)
      (auto simp: from_json_steps_def member_to_def nested_def split: sum.splits prod.splits)
  with r have canc: "cancelled t' = cancelled t0" by simp
  define gs where "gs = butlast ?fs"
  have fs: "?fs = gs @ [member_to J j ''error_msg'' (j_get_string J) (\<lambda>x t. t\<lparr>error_msg := x\<rparr>)]"
    by (simp add: gs_def from_json_steps_def)
  have "error_msg (fst (assign_all gs t0)) = error_msg t0"
    by (rule assign_all_keeps)
      (auto simp: gs_def from_json_steps_def member_to_def nested_def split: sum.splits prod.splits)
  with r err have "error_msg t' = error_msg t0"
    unfolding fs by (auto simp: assign_all_append member_to_def split: prod.splits option.splits sum.splits)
  with err canc r show ?thesis by (auto simp: from_json_def)
qed

theorem from_json_missing_member_witness:
  "\<exists>t' e'. from_json jv_api (VObj [(''task_id'', VStr ''a'')]) (Task_new VNull 8) = (t', Some e') \<and>
     error_msg t' = []"
proof -
  have "''shard'' \<in> set member_keys" by (simp add: member_keys_def)
  moreover have "j_at jv_api (VObj [(''task_id'', VStr ''a'')]) ''shard'' = Inl (OutOfRange ''shard'')"
    by (simp add: jv_api_def)
  moreover have "error_msg (Task_new VNull 8) = []" by (simp add: Task_new_def)
  ultimately show ?thesis
    using from_json_missing_member [of "''shard''" jv_api _ _ "Task_new VNull 8"] by fastforce
qed

text \<open>\<open>JsonToStruct\<close> terminates without an exception on every JSON value, with more fuel than
  the value is deep, and so does \<open>StructToJson\<close> on the struct it builds.\<close>

theorem struct_conversions_total:
  assumes "struct_laws P" and "items_laws J dep" and "dep j < n"
  shows "\<exists>s j'. JsonToStruct J P n j = Some (Inr s) \<and> StructToJson J P n s = Some j'"
  using through_total [OF assms] by blast

theorem struct_conversions_total_witness:
  "\<exists>s j'. JsonToStruct jv_api sv_api 100 (VObj [(''a'', VObj [(''b'', VInt 3)])]) = Some (Inr s) \<and>
     StructToJson jv_api sv_api 100 s = Some j'"
  by (rule struct_conversions_total [OF sv_struct_laws jv_items_laws]) simp

text \<open>C38: what a JSON value becomes on the way to a struct and back, key by key: booleans and
  strings are kept, numbers become doubles, nested arrays and objects are converted in the
  same way (an array comes back as an object), and members that are null or of another kind
  are lost.\<close>

theorem json_struct_json:
  assumes "struct_laws P" and "build_laws J" and "items_laws J dep" and "dep j < Suc n"
  shows "\<exists>j'. through J P (Suc n) j = Some j' \<and> (\<forall>k. map_of (j_items J j') k =
     (case map_of (j_items J j) k of
        None \<Rightarrow> None
      | Some v \<Rightarrow>
          (case j_kind J v of
             KBoolean \<Rightarrow> map_option (j_of_bool J) (case j_get_bool J v of Inr x \<Rightarrow> Some x | Inl _ \<Rightarrow> None)
           | KNumber \<Rightarrow> map_option (j_of_double J) (case j_get_double J v of Inr x \<Rightarrow> Some x | Inl _ \<Rightarrow> None)
           | KString \<Rightarrow> map_option (j_of_string J) (case j_get_string J v of Inr x \<Rightarrow> Some x | Inl _ \<Rightarrow> None)
           | KArray \<Rightarrow> through J P n v
           | KObject \<Rightarrow> through J P n v
           | _ \<Rightarrow> None)))"
proof -
  from through_total [OF assms(1,3,4)] obtain j' where j': "through J P (Suc n) j = Some j'" by blast
  note kind = struct_lawsD(4) [OF assms(1)]
  show ?thesis
    by (intro exI [of _ j'] conjI j' allI, subst through_items [OF assms(1-3) j'])
      (auto simp: json_value_def field_json_def through_def kind try_bind_def
        split: option.splits jkind.splits sum.splits)
qed

theorem json_struct_json_witness:
  "\<exists>j'. through jv_api sv_api 100 (VObj [(''a'', VInt 3), (''b'', VNull)]) = Some j' \<and>
     map_of (jv_items j') ''a'' = Some (VNum (DFin 3)) \<and> map_of (jv_items j') ''b'' = None"
proof -
  let ?j = "VObj [(''a'', VInt 3), (''b'', VNull)]"
  have "size ?j < Suc 99" by simp
  from json_struct_json [OF sv_struct_laws jv_build_laws jv_items_laws this]
  obtain j' where "through jv_api sv_api (Suc 99) ?j = Some j'" and
    j': "\<And>k. map_of (j_items jv_api j') k = (case map_of (j_items jv_api ?j) k of None \<Rightarrow> None
      | Some v \<Rightarrow> (case j_kind jv_api v of
             KBoolean \<Rightarrow> map_option (j_of_bool jv_api) (case j_get_bool jv_api v of Inr x \<Rightarrow> Some x | Inl _ \<Rightarrow> None)
           | KNumber \<Rightarrow> map_option (j_of_double jv_api) (case j_get_double jv_api v of Inr x \<Rightarrow> Some x | Inl _ \<Rightarrow> None)
           | KString \<Rightarrow> map_option (j_of_string jv_api) (case j_get_string jv_api v of Inr x \<Rightarrow> Some x | Inl _ \<Rightarrow> None)
           | KArray \<Rightarrow> through jv_api sv_api 99 v
           | KObject \<Rightarrow> through jv_api sv_api 99 v
           | _ \<Rightarrow> None))" by blast
  moreover have "map_of (jv_items j') ''a'' = Some (VNum (DFin 3))" "map_of (jv_items j') ''b'' = None"
    using j' [of "''a''"] j' [of "''b''"] by (simp_all add: jv_api_def jv_items_def)
  ultimately show ?thesis by auto
qed

text \<open>C16: translating a task to a message and back keeps every scalar field, the state included,
  gives the new task its own cancellation flag, and passes the parameters and the result
  through the struct conversion.\<close>

theorem proto_roundtrip:
  assumes "struct_laws P" and "items_laws J dep" and "dep (func_params t) < n" and "dep (result t) < n"
  shows "\<exists>pb fp res. TaskToProto J P n t = Some (Inr pb) \<and>
     through J P n (func_params t) = Some fp \<and> through J P n (result t) = Some res \<and>
     TaskFromProto J P n flag pb = Some (t\<lparr>cancelled := flag, func_params := fp, result := res\<rparr>)"
  using message_roundtrip [OF assms] .

theorem proto_roundtrip_witness:
  "\<exists>pb fp res. TaskToProto jv_api sv_api 5 ((Task_new VNull 7)\<lparr>state := SUCCESS\<rparr>) = Some (Inr pb) \<and>
     TaskFromProto jv_api sv_api 5 9 pb =
       Some ((Task_new VNull 7)\<lparr>state := SUCCESS, cancelled := 9, func_params := fp, result := res\<rparr>)"
  using proto_roundtrip [OF sv_struct_laws jv_items_laws, of "(Task_new VNull 7)\<lparr>state := SUCCESS\<rparr>" 5 9]
  by (auto simp: Task_new_def)

end
