(* ===== verification/Task_Executor.thy ===== *)
theory Task_Executor
  imports Task_Model "HOL-Library.Signed_Division"
begin

text \<open>
  Model of \<open>src/worker/task-executor\<close>: the executor as a machine in which worker threads run
  \<open>run_task\<close>, the event loop runs timer callbacks, and both change the same tasks. The closures
  queued in the thread pool are the list \<open>runnable\<close>, taken in order as theory \<open>Thread_Pool\<close>
  shows. Each activation of \<open>run_task\<close> goes through the program points \<open>rpc\<close>; each
  \<open>update_task_state\<close>, each access to \<open>retrying_cnt\<close>, each timer operation and each callback
  is one step.

  Registered functions are opaque: a call returns at some later step with any \<open>outcome\<close>; they
  do not write to the task. The built-in \<open>fib\<close> is modelled on its own. A timer of the event
  loop may expire once its deadline has passed; cancelling an expired timer has no effect, its
  callback still runs. JSON values are an opaque type, \<open>null\<close> the default-constructed one.
\<close>

subsection \<open>Pure parts\<close>

datatype error_code = NoError | ConnectionRefused | HostUnreachable | OperationAborted | OtherError int

definition is_retryable_error :: "error_code \<Rightarrow> bool" where
  "is_retryable_error ec \<longleftrightarrow>
     ec = ConnectionRefused \<or> ec = HostUnreachable \<or> ec = OperationAborted"

definition check_resources :: "Resource \<Rightarrow> Resource \<Rightarrow> bool" where
  "check_resources available req \<longleftrightarrow>
     dbl_le (cpu_core req) (cpu_core available) \<and> mem_mb req \<le> mem_mb available"

text \<open>The steady clock counts nanoseconds; the division truncates, the result is unsigned.\<close>

definition get_current_timestamp_ms :: "int \<Rightarrow> u64" where
  "get_current_timestamp_ms ns = of_int (ns sdiv 1000000)"

text \<open>
  \<open>task->timeout_ms - (now_ms - task->submit_ts)\<close>: \<open>now_ms\<close> is unsigned, so everything is
  computed modulo \<open>2 ^ 64\<close> and the result is then read as a signed number.
\<close>

definition remaining_timeout :: "'j Task \<Rightarrow> u64 \<Rightarrow> i64" where
  "remaining_timeout task now_ms = ucast (timeout_ms task) - (now_ms - submit_ts task)"

definition retry_delay :: "u32 \<Rightarrow> int" where
  "retry_delay rc =
     (let retry_level = min rc 4 in sint (push_bit (unat retry_level) (1 :: 32 word)))"

definition update_task_state ::
  "u64 \<Rightarrow> TaskState \<Rightarrow> 'j \<Rightarrow> string \<Rightarrow> 'j Task \<Rightarrow> 'j Task" where
  "update_task_state now st res msg task =
     task\<lparr>state := st, result := res, error_msg := msg, finish_ts := now\<rparr>"

text \<open>
  The built-in function, from the argument \<open>n\<close> on: reading \<open>n\<close> out of the JSON parameters, and the
  exception when they have another shape, are left to \<open>outcome\<close>. \<open>canc i\<close> is what iteration \<open>i\<close>
  reads from the task's flag; the sum is computed in \<open>int\<close>, where overflow is undefined behaviour.
\<close>

datatype fib_result = FibValue int | FibCancelled | FibThrows | FibOverflow

fun fib_loop :: "(nat \<Rightarrow> bool) \<Rightarrow> nat \<Rightarrow> nat \<Rightarrow> int \<Rightarrow> int \<Rightarrow> fib_result" where
  "fib_loop canc 0 i a b = FibValue b"
| "fib_loop canc (Suc k) i a b =
     (if canc i then FibCancelled
      else if a + b > 2 ^ 31 - 1 then FibOverflow
      else fib_loop canc k (Suc i) b (a + b))"

definition fib_builtin :: "(nat \<Rightarrow> bool) \<Rightarrow> int \<Rightarrow> fib_result" where
  "fib_builtin canc n =
     (if n < 0 then FibThrows else if n \<le> 1 then FibValue n
      else fib_loop canc (nat (n - 1)) 2 0 1)"

subsection \<open>State\<close>

text \<open>
  The model is of a process with one executor: \<open>retrying_cnt\<close>, which is static in the source, is a
  field of it.
\<close>

datatype 'j outcome =
    Returned 'j | ThrewSystem error_code string | ThrewStd string | ThrewOther

text \<open>
  Program points of \<open>run_task\<close>. The argument \<open>tm\<close> is the execution timer, \<open>ec\<close> and \<open>what\<close>
  describe the exception that was caught.
\<close>

datatype 'j rpc =
    R_Begin nat u64 | R_Lookup nat | R_Call nat | R_Return nat 'j
  | R_Catch nat error_code string | R_Quota | R_QuotaFull | R_QuotaFail
  | R_Cancel nat | R_Done

datatype timer_kind = ExecTimer nat | RetryTimer nat

datatype timer_status = Armed | Expired | Gone

record timer =
  t_kind :: timer_kind
  t_deadline :: int
  t_status :: timer_status

record ('j, 'f) TaskExecutor =
  task_at :: "nat \<Rightarrow> 'j Task"
  flags :: "addr \<Rightarrow> bool"
  registered :: "string \<rightharpoonup> 'f"
  available_resources :: Resource
  retrying_cnt :: int
  runnable :: "nat list"
  runs :: "(nat \<times> 'j rpc) list"
  timers :: "timer list"
  now_ms :: u64
  terminated :: bool
  known :: "nat set"
  started :: "nat \<Rightarrow> nat"

definition MAX_CONCURRENT_RETRY :: int where "MAX_CONCURRENT_RETRY = 10"

definition TaskExecutor_new :: "(string \<rightharpoonup> 'f) \<Rightarrow> (nat \<Rightarrow> 'j Task) \<Rightarrow> u64 \<Rightarrow> ('j, 'f) TaskExecutor" where
  "TaskExecutor_new fs ts now =
     \<lparr>task_at = ts, flags = (\<lambda>_. False), registered = fs,
      available_resources = \<lparr>cpu_core = DFin 4, mem_mb = 8192\<rparr>, retrying_cnt = 0,
      runnable = [], runs = [], timers = [], now_ms = now, terminated = False,
      known = {}, started = (\<lambda>_. 0)\<rparr>"

definition register_function ::
  "string \<Rightarrow> 'f \<Rightarrow> ('j, 'f) TaskExecutor \<Rightarrow> ('j, 'f) TaskExecutor" where
  "register_function name f s = s\<lparr>registered := (registered s)(name \<mapsto> f)\<rparr>"

definition execute_task :: "nat \<Rightarrow> ('j, 'f) TaskExecutor \<Rightarrow> ('j, 'f) TaskExecutor" where
  "execute_task t s = s\<lparr>runnable := runnable s @ [t]\<rparr>"

definition upd_task ::
  "nat \<Rightarrow> ('j Task \<Rightarrow> 'j Task) \<Rightarrow> ('j, 'f) TaskExecutor \<Rightarrow> ('j, 'f) TaskExecutor" where
  "upd_task t f s = s\<lparr>task_at := (task_at s)(t := f (task_at s t))\<rparr>"

definition set_state ::
  "nat \<Rightarrow> TaskState \<Rightarrow> 'j \<Rightarrow> string \<Rightarrow> ('j, 'f) TaskExecutor \<Rightarrow> ('j, 'f) TaskExecutor" where
  "set_state t st res msg s = upd_task t (update_task_state (now_ms s) st res msg) s"

definition arm :: "timer_kind \<Rightarrow> int \<Rightarrow> ('j, 'f) TaskExecutor \<Rightarrow> ('j, 'f) TaskExecutor" where
  "arm k delay_ms s =
     s\<lparr>timers := timers s @ [\<lparr>t_kind = k, t_deadline = uint (now_ms s) + delay_ms, t_status = Armed\<rparr>]\<rparr>"

definition cancel_timer :: "nat \<Rightarrow> ('j, 'f) TaskExecutor \<Rightarrow> ('j, 'f) TaskExecutor" where
  "cancel_timer i s =
     (if i < length (timers s) \<and> t_status (timers s ! i) = Armed
      then s\<lparr>timers := (timers s)[i := (timers s ! i)\<lparr>t_status := Gone\<rparr>]\<rparr> else s)"

definition rgoto :: "nat \<Rightarrow> 'j rpc \<Rightarrow> ('j, 'f) TaskExecutor \<Rightarrow> ('j, 'f) TaskExecutor" where
  "rgoto r p s = s\<lparr>runs := (runs s)[r := (fst (runs s ! r), p)]\<rparr>"

subsection \<open>run\_task\<close>

text \<open>The part before the \<open>try\<close> block: resource check, remaining time, execution timer.\<close>

definition run_task_enter :: "'j \<Rightarrow> nat \<Rightarrow> ('j, 'f) TaskExecutor \<Rightarrow> ('j, 'f) TaskExecutor" where
  "run_task_enter null t s =
     (let task = task_at s t; remaining = sint (remaining_timeout task (now_ms s)) in
      if \<not> check_resources (available_resources s) (required task) then
        set_state t FAILED null ''Insufficient resources'' s
      else if remaining < 0 then set_state t TIMEOUT null ''Execution timeout'' s
      else
        (arm (ExecTimer t) remaining s)\<lparr>runs := runs s @ [(t, R_Begin (length (timers s)) (now_ms s))]\<rparr>)"

text \<open>The part inside, one step at a time. \<open>out\<close> is what the called function does.\<close>

fun run_step ::
  "'j \<Rightarrow> nat \<Rightarrow> 'j outcome \<Rightarrow> ('j, 'f) TaskExecutor \<Rightarrow> nat \<Rightarrow> 'j rpc \<Rightarrow> ('j, 'f) TaskExecutor" where
  "run_step null r out s t (R_Begin tm now) =
     rgoto r (R_Lookup tm)
       (set_state t RUNNING null [] (upd_task t (\<lambda>x. x\<lparr>start_ts := now\<rparr>) s))"
| "run_step null r out s t (R_Lookup tm) =
     (case registered s (func_name (task_at s t)) of
        None \<Rightarrow> rgoto r (R_Catch tm NoError (''Unknown function: '' @ func_name (task_at s t))) s
      | Some f \<Rightarrow> rgoto r (R_Call tm) s)"
| "run_step null r out s t (R_Call tm) =
     (case out of
        Returned j \<Rightarrow> rgoto r (R_Return tm j) s
      | ThrewSystem ec what \<Rightarrow> rgoto r (R_Catch tm ec what) s
      | ThrewStd what \<Rightarrow> rgoto r (R_Catch tm NoError what) s
      | ThrewOther \<Rightarrow> s\<lparr>terminated := True\<rparr>)"
| "run_step null r out s t (R_Return tm j) = rgoto r (R_Cancel tm) (set_state t SUCCESS j [] s)"
| "run_step null r out s t (R_Catch tm ec what) =
     (if is_retryable_error ec \<and> retry_count (task_at s t) < max_retry (task_at s t)
      then rgoto r R_Quota s
      else rgoto r (R_Cancel tm) (set_state t FAILED null (''Execution failed: '' @ what) s))"
| "run_step null r out s t R_Quota =
     (if retrying_cnt s \<ge> MAX_CONCURRENT_RETRY
      then rgoto r R_QuotaFull (s\<lparr>retrying_cnt := retrying_cnt s + 1\<rparr>)
      else rgoto r R_Done
        (arm (RetryTimer t) (1000 * retry_delay (retry_count (task_at s t)))
          (s\<lparr>retrying_cnt := retrying_cnt s + 1\<rparr>)))"
| "run_step null r out s t R_QuotaFull = rgoto r R_QuotaFail (s\<lparr>retrying_cnt := retrying_cnt s - 1\<rparr>)"
| "run_step null r out s t R_QuotaFail = rgoto r R_Done (set_state t FAILED null ''Retry quota full'' s)"
| "run_step null r out s t (R_Cancel tm) = rgoto r R_Done (cancel_timer tm s)"
| "run_step null r out s t R_Done = s"

text \<open>The callbacks of the two timers, both with a clear error code.\<close>

definition exec_timer_callback :: "'j \<Rightarrow> nat \<Rightarrow> ('j, 'f) TaskExecutor \<Rightarrow> ('j, 'f) TaskExecutor" where
  "exec_timer_callback null t s =
     set_state t TIMEOUT null ''Execution timeout''
       (s\<lparr>flags := (flags s)(cancelled (task_at s t) := True)\<rparr>)"

definition retry_timer_callback :: "nat \<Rightarrow> ('j, 'f) TaskExecutor \<Rightarrow> ('j, 'f) TaskExecutor" where
  "retry_timer_callback t s =
     execute_task t (upd_task t (\<lambda>x. x\<lparr>retry_count := retry_count x + 1\<rparr>)
       (s\<lparr>retrying_cnt := retrying_cnt s - 1\<rparr>))"

definition timer_callback :: "'j \<Rightarrow> timer_kind \<Rightarrow> ('j, 'f) TaskExecutor \<Rightarrow> ('j, 'f) TaskExecutor" where
  "timer_callback null k s =
     (case k of
        ExecTimer t \<Rightarrow> exec_timer_callback null t s
      | RetryTimer t \<Rightarrow> retry_timer_callback t s)"

subsection \<open>The machine\<close>

datatype ('j, 'f) exec_action =
    Submit nat | AddFunction string 'f | StartRun nat | StepRun nat "'j outcome" | Tick int
  | Expire nat | Fire nat

text \<open>
  A client hands each task object to \<open>execute_task\<close> once. \<open>Tick\<close> moves the steady clock to a
  later reading, in nanoseconds. \<open>StartRun i\<close> enters any closure that was handed to the pool:
  workers take closures in order, but may enter them in another.
\<close>

fun exec_move ::
  "'j \<Rightarrow> ('j, 'f) exec_action \<Rightarrow> ('j, 'f) TaskExecutor \<Rightarrow> ('j, 'f) TaskExecutor option" where
  "exec_move null (Submit t) s =
     (if t \<notin> known s \<and> \<not> terminated s then Some ((execute_task t s)\<lparr>known := insert t (known s)\<rparr>) else None)"
| "exec_move null (AddFunction name f) s = Some (register_function name f s)"
| "exec_move null (StartRun i) s =
     (if i < length (runnable s) \<and> \<not> terminated s
      then Some (run_task_enter null (runnable s ! i)
        (s\<lparr>runnable := take i (runnable s) @ drop (Suc i) (runnable s),
           started := (started s)(runnable s ! i := Suc (started s (runnable s ! i)))\<rparr>)) else None)"
| "exec_move null (StepRun r out) s =
     (if r < length (runs s) \<and> \<not> terminated s
      then Some (run_step null r out s (fst (runs s ! r)) (snd (runs s ! r))) else None)"
| "exec_move null (Tick ns) s =
     (if now_ms s \<le> get_current_timestamp_ms ns
      then Some (s\<lparr>now_ms := get_current_timestamp_ms ns\<rparr>) else None)"
| "exec_move null (Expire i) s =
     (if i < length (timers s) \<and> t_status (timers s ! i) = Armed \<and>
         t_deadline (timers s ! i) \<le> uint (now_ms s)
      then Some (s\<lparr>timers := (timers s)[i := (timers s ! i)\<lparr>t_status := Expired\<rparr>]\<rparr>) else None)"
| "exec_move null (Fire i) s =
     (if i < length (timers s) \<and> t_status (timers s ! i) = Expired \<and> \<not> terminated s
      then Some (timer_callback null (t_kind (timers s ! i))
        (s\<lparr>timers := (timers s)[i := (timers s ! i)\<lparr>t_status := Gone\<rparr>]\<rparr>)) else None)"

definition exec_step :: "'j \<Rightarrow> ('j, 'f) TaskExecutor \<Rightarrow> ('j, 'f) TaskExecutor \<Rightarrow> bool" where
  "exec_step null s s' \<longleftrightarrow> (\<exists>x. exec_move null x s = Some s')"

fun exec_run ::
  "'j \<Rightarrow> ('j, 'f) exec_action list \<Rightarrow> ('j, 'f) TaskExecutor \<Rightarrow> ('j, 'f) TaskExecutor option" where
  "exec_run null [] s = Some s"
| "exec_run null (x # xs) s =
     (case exec_move null x s of None \<Rightarrow> None | Some s' \<Rightarrow> exec_run null xs s')"

definition exec_init :: "(nat \<Rightarrow> 'j Task) \<Rightarrow> ('j, 'f) TaskExecutor \<Rightarrow> bool" where
  "exec_init ts s \<longleftrightarrow> (\<exists>fs now. s = TaskExecutor_new fs ts now)"

subsection \<open>Specification\<close>

fun fibonacci :: "nat \<Rightarrow> nat" where
  "fibonacci 0 = 0"
| "fibonacci (Suc 0) = 1"
| "fibonacci (Suc (Suc n)) = fibonacci n + fibonacci (Suc n)"

fun fib_pair :: "nat \<Rightarrow> int \<times> int" where
  "fib_pair 0 = (0, 1)"
| "fib_pair (Suc n) = (case fib_pair n of (a, b) \<Rightarrow> (b, a + b))"

text \<open>One of the checks of \<open>fib\<close> finds the cancellation flag set; the 48th would come after the overflow.\<close>

definition flag_seen :: "(nat \<Rightarrow> bool) \<Rightarrow> nat \<Rightarrow> bool" where
  "flag_seen canc n \<longleftrightarrow> list_ex canc [2..<min (Suc n) 48]"

definition live :: "timer \<Rightarrow> bool" where
  "live tm \<longleftrightarrow> t_status tm \<noteq> Gone"

definition retry_pending :: "timer \<Rightarrow> bool" where
  "retry_pending tm \<longleftrightarrow> live tm \<and> (\<exists>t. t_kind tm = RetryTimer t)"

definition retry_of :: "nat \<Rightarrow> timer \<Rightarrow> bool" where
  "retry_of t tm \<longleftrightarrow> live tm \<and> t_kind tm = RetryTimer t"

definition exec_of :: "nat \<Rightarrow> timer \<Rightarrow> bool" where
  "exec_of t tm \<longleftrightarrow> live tm \<and> t_kind tm = ExecTimer t"

definition at_quota_full :: "nat \<times> 'j rpc \<Rightarrow> bool" where
  "at_quota_full r \<longleftrightarrow> snd r = R_QuotaFull"

definition run_of :: "nat \<Rightarrow> nat \<times> 'j rpc \<Rightarrow> bool" where
  "run_of t r \<longleftrightarrow> fst r = t \<and> snd r \<noteq> R_Done"

definition at_quota :: "nat \<Rightarrow> nat \<times> 'j rpc \<Rightarrow> bool" where
  "at_quota t r \<longleftrightarrow> fst r = t \<and> snd r = R_Quota"

text \<open>
  An activation cancels its own execution timer only. The retry counter counts the pending retry timers and the activations that are about to
  undo their increment.
\<close>

fun timer_of :: "'j rpc \<Rightarrow> nat option" where
  "timer_of (R_Begin tm now) = Some tm"
| "timer_of (R_Lookup tm) = Some tm"
| "timer_of (R_Call tm) = Some tm"
| "timer_of (R_Return tm j) = Some tm"
| "timer_of (R_Catch tm ec what) = Some tm"
| "timer_of (R_Cancel tm) = Some tm"
| "timer_of _ = None"

definition timers_ok :: "('j, 'f) TaskExecutor \<Rightarrow> bool" where
  "timers_ok s \<longleftrightarrow>
     (\<forall>(t, p) \<in> set (runs s). \<forall>tm \<in> set_option (timer_of p).
        tm < length (timers s) \<and> t_kind (timers s ! tm) = ExecTimer t)"

definition quota_inv :: "('j, 'f) TaskExecutor \<Rightarrow> bool" where
  "quota_inv s \<longleftrightarrow> timers_ok s \<and>
     retrying_cnt s = int (cnt retry_pending (timers s)) + int (cnt at_quota_full (runs s)) \<and>
     int (cnt retry_pending (timers s)) \<le> MAX_CONCURRENT_RETRY"

text \<open>A task is at most once queued, running or waiting for its retry.\<close>

definition tokens :: "('j, 'f) TaskExecutor \<Rightarrow> nat \<Rightarrow> int" where
  "tokens s t =
     int (cnt ((=) t) (runnable s)) + int (cnt (run_of t) (runs s)) + int (cnt (retry_of t) (timers s))"

definition attempts_at :: "'j Task \<Rightarrow> ('j, 'f) TaskExecutor \<Rightarrow> nat \<Rightarrow> bool" where
  "attempts_at x0 s t \<longleftrightarrow>
     tokens s t \<le> of_bool (t \<in> known s) \<and>
     max_retry (task_at s t) = max_retry x0 \<and>
     unat (retry_count x0) \<le> unat (retry_count (task_at s t)) \<and>
     unat (retry_count (task_at s t)) \<le> max (unat (retry_count x0)) (unat (max_retry x0)) \<and>
     (0 < int (cnt (at_quota t) (runs s)) + int (cnt (retry_of t) (timers s)) \<longrightarrow>
        unat (retry_count (task_at s t)) < unat (max_retry x0)) \<and>
     int (started s t) + int (cnt ((=) t) (runnable s)) =
       of_bool (t \<in> known s) + int (unat (retry_count (task_at s t))) - int (unat (retry_count x0))"

definition attempts_inv :: "(nat \<Rightarrow> 'j Task) \<Rightarrow> ('j, 'f) TaskExecutor \<Rightarrow> bool" where
  "attempts_inv ts s \<longleftrightarrow> quota_inv s \<and> (\<forall>t. attempts_at (ts t) s t)"

text \<open>Nothing is left that could still write to the task.\<close>

definition settled :: "('j, 'f) TaskExecutor \<Rightarrow> nat \<Rightarrow> bool" where
  "settled s t \<longleftrightarrow>
     t \<in> known s \<and> t \<notin> set (runnable s) \<and> cnt (run_of t) (runs s) = 0 \<and>
     cnt (retry_of t) (timers s) = 0 \<and> cnt (exec_of t) (timers s) = 0"

subsection \<open>Pure parts\<close>

lemma fibonacci_mono: "m \<le> n \<Longrightarrow> fibonacci m \<le> fibonacci n"
proof (induction n arbitrary: m rule: fibonacci.induct)
  case (3 n)
  then show ?case by (cases "m = Suc (Suc n)") (auto simp: le_Suc_eq trans_le_add2)
qed (auto simp: le_Suc_eq)

lemma fib_pair_correct: "fib_pair n = (int (fibonacci n), int (fibonacci (Suc n)))"
  by (induction n) simp_all

lemma fibonacci_limits: "int (fibonacci 46) = 1836311903" "int (fibonacci 47) = 2971215073"
proof -
  have "fib_pair 46 = (1836311903, 2971215073)" by code_simp
  then show "int (fibonacci 46) = 1836311903" "int (fibonacci 47) = 2971215073"
    unfolding fib_pair_correct by (simp_all only: prod.inject numeral_eq_Suc pred_numeral_simps BitM.simps)
qed

lemma fib_loop_correct:
  assumes "\<And>j. \<not> canc j"
  shows "fib_loop canc k i (int (fibonacci m)) (int (fibonacci (Suc m))) =
    (if int (fibonacci (Suc m + k)) \<le> 2 ^ 31 - 1 \<or> k = 0
     then FibValue (int (fibonacci (Suc m + k))) else FibOverflow)"
proof (induction k arbitrary: i m)
  case (Suc k)
  have sum: "int (fibonacci m) + int (fibonacci (Suc m)) = int (fibonacci (Suc (Suc m)))" by simp
  have mono: "int (fibonacci (Suc (Suc m))) \<le> int (fibonacci (Suc m + Suc k))"
    by (simp only: of_nat_le_iff) (rule fibonacci_mono, simp)
  show ?case
  proof (cases "int (fibonacci (Suc (Suc m))) > 2 ^ 31 - 1")
    case True
    with mono assms show ?thesis by (simp only: fib_loop.simps sum) simp
  next
    case False
    have "fib_loop canc (Suc k) i (int (fibonacci m)) (int (fibonacci (Suc m))) =
        fib_loop canc k (Suc i) (int (fibonacci (Suc m))) (int (fibonacci (Suc (Suc m))))"
      using False assms by (simp only: fib_loop.simps sum) simp
    also have "\<dots> = (if int (fibonacci (Suc (Suc m) + k)) \<le> 2 ^ 31 - 1 \<or> k = 0
        then FibValue (int (fibonacci (Suc (Suc m) + k))) else FibOverflow)" by (rule Suc.IH)
    finally show ?thesis using False by auto
  qed
qed simp

lemma fibonacci_fits: "int (fibonacci m) \<le> 2 ^ 31 - 1 \<longleftrightarrow> m \<le> 46"
proof (cases "m \<le> 46")
  case True
  then show ?thesis using fibonacci_mono [of m 46] fibonacci_limits(1) by simp
next
  case False
  then show ?thesis using fibonacci_mono [of 47 m] fibonacci_limits(2) by simp
qed

lemma fib_loop_outcome:
  assumes "m \<le> 45"
  shows "fib_loop canc k (m + 2) (int (fibonacci m)) (int (fibonacci (Suc m))) =
    (if list_ex canc [m + 2..<min (m + 2 + k) 48] then FibCancelled
     else if Suc m + k \<le> 46 then FibValue (int (fibonacci (Suc m + k))) else FibOverflow)"
  using assms
proof (induction k arbitrary: m)
  case 0
  then show ?case by simp
next
  case (Suc k)
  have sum: "int (fibonacci m) + int (fibonacci (Suc m)) = int (fibonacci (Suc (Suc m)))" by simp
  have range: "[m + 2..<min (m + 2 + Suc k) 48] = (m + 2) # [Suc m + 2..<min (m + 2 + Suc k) 48]"
    using Suc.prems by (subst upt_conv_Cons) simp_all
  have loop: "fib_loop canc (Suc k) (m + 2) (int (fibonacci m)) (int (fibonacci (Suc m))) =
      (if canc (m + 2) then FibCancelled else if \<not> Suc (Suc m) \<le> 46 then FibOverflow
       else fib_loop canc k (Suc m + 2) (int (fibonacci (Suc m))) (int (fibonacci (Suc (Suc m)))))"
    using fibonacci_fits [of "Suc (Suc m)"] by (simp only: fib_loop.simps sum) auto
  show ?case
  proof (cases "Suc (Suc m) \<le> 46")
    case True
    with Suc.IH [of "Suc m"] show ?thesis unfolding loop range by simp
  next
    case False
    with Suc.prems have "m = 45" by simp
    then show ?thesis unfolding loop range by simp
  qed
qed

lemma retry_delay_eq: "retry_delay rc = 2 ^ min (unat rc) 4"
proof -
  have "unat (min rc 4) = min (unat rc) 4"
    by (simp add: min_def word_le_nat_alt)
  moreover have "sint (push_bit k (1 :: 32 word)) = 2 ^ k" if "k \<le> 4" for k
  proof -
    from that have "k = 0 \<or> k = 1 \<or> k = 2 \<or> k = 3 \<or> k = 4" by arith
    then show ?thesis by auto
  qed
  ultimately show ?thesis by (simp add: retry_delay_def)
qed

subsection \<open>Accessors\<close>

lemma upd_task_sel [simp]:
  "task_at (upd_task t f s) = (task_at s)(t := f (task_at s t))"
  "flags (upd_task t f s) = flags s" "registered (upd_task t f s) = registered s"
  "available_resources (upd_task t f s) = available_resources s"
  "retrying_cnt (upd_task t f s) = retrying_cnt s" "runnable (upd_task t f s) = runnable s"
  "runs (upd_task t f s) = runs s" "timers (upd_task t f s) = timers s" "now_ms (upd_task t f s) = now_ms s"
  "terminated (upd_task t f s) = terminated s" "known (upd_task t f s) = known s"
  "started (upd_task t f s) = started s"
  by (simp_all add: upd_task_def)

lemma set_state_sel [simp]:
  "task_at (set_state t st j m s) = (task_at s)(t := update_task_state (now_ms s) st j m (task_at s t))"
  "flags (set_state t st j m s) = flags s" "registered (set_state t st j m s) = registered s"
  "available_resources (set_state t st j m s) = available_resources s"
  "retrying_cnt (set_state t st j m s) = retrying_cnt s" "runnable (set_state t st j m s) = runnable s"
  "runs (set_state t st j m s) = runs s" "timers (set_state t st j m s) = timers s"
  "now_ms (set_state t st j m s) = now_ms s"
  "terminated (set_state t st j m s) = terminated s" "known (set_state t st j m s) = known s"
  "started (set_state t st j m s) = started s"
  by (simp_all add: set_state_def)

lemma update_task_state_sel [simp]:
  "retry_count (update_task_state n st j m x) = retry_count x"
  "max_retry (update_task_state n st j m x) = max_retry x"
  "state (update_task_state n st j m x) = st"
  by (simp_all add: update_task_state_def)

lemma rgoto_sel [simp]:
  "task_at (rgoto r p s) = task_at s" "flags (rgoto r p s) = flags s"
  "registered (rgoto r p s) = registered s" "available_resources (rgoto r p s) = available_resources s"
  "retrying_cnt (rgoto r p s) = retrying_cnt s" "runnable (rgoto r p s) = runnable s"
  "runs (rgoto r p s) = (runs s)[r := (fst (runs s ! r), p)]" "timers (rgoto r p s) = timers s"
  "now_ms (rgoto r p s) = now_ms s" "terminated (rgoto r p s) = terminated s"
  "known (rgoto r p s) = known s" "started (rgoto r p s) = started s"
  by (simp_all add: rgoto_def)

lemma arm_sel [simp]:
  "task_at (arm k d s) = task_at s" "flags (arm k d s) = flags s"
  "registered (arm k d s) = registered s" "available_resources (arm k d s) = available_resources s"
  "retrying_cnt (arm k d s) = retrying_cnt s" "runnable (arm k d s) = runnable s"
  "runs (arm k d s) = runs s"
  "timers (arm k d s) = timers s @ [\<lparr>t_kind = k, t_deadline = uint (now_ms s) + d, t_status = Armed\<rparr>]"
  "now_ms (arm k d s) = now_ms s" "terminated (arm k d s) = terminated s"
  "known (arm k d s) = known s" "started (arm k d s) = started s"
  by (simp_all add: arm_def)

lemma cancel_timer_sel [simp]:
  "task_at (cancel_timer i s) = task_at s" "flags (cancel_timer i s) = flags s"
  "registered (cancel_timer i s) = registered s" "available_resources (cancel_timer i s) = available_resources s"
  "retrying_cnt (cancel_timer i s) = retrying_cnt s" "runnable (cancel_timer i s) = runnable s"
  "runs (cancel_timer i s) = runs s" "now_ms (cancel_timer i s) = now_ms s"
  "terminated (cancel_timer i s) = terminated s" "known (cancel_timer i s) = known s"
  "started (cancel_timer i s) = started s"
  by (simp_all add: cancel_timer_def)

lemma execute_task_sel [simp]:
  "task_at (execute_task t s) = task_at s" "flags (execute_task t s) = flags s"
  "registered (execute_task t s) = registered s" "available_resources (execute_task t s) = available_resources s"
  "retrying_cnt (execute_task t s) = retrying_cnt s" "runnable (execute_task t s) = runnable s @ [t]"
  "runs (execute_task t s) = runs s" "timers (execute_task t s) = timers s"
  "now_ms (execute_task t s) = now_ms s" "terminated (execute_task t s) = terminated s"
  "known (execute_task t s) = known s" "started (execute_task t s) = started s"
  by (simp_all add: execute_task_def)

lemmas callback_defs = timer_callback_def exec_timer_callback_def retry_timer_callback_def

subsection \<open>The retry quota\<close>

lemma timers_ok_step:
  assumes "timers_ok s"
    and "\<And>i. i < length (timers s) \<Longrightarrow>
      i < length (timers s') \<and> t_kind (timers s' ! i) = t_kind (timers s ! i)"
    and "\<And>t p tm. (t, p) \<in> set (runs s') \<Longrightarrow> timer_of p = Some tm \<Longrightarrow>
      (\<exists>p0. (t, p0) \<in> set (runs s) \<and> timer_of p0 = Some tm) \<or>
      tm < length (timers s') \<and> t_kind (timers s' ! tm) = ExecTimer t"
  shows "timers_ok s'"
  unfolding timers_ok_def
proof (clarsimp)
  fix t p tm
  assume a: "(t, p) \<in> set (runs s')" "timer_of p = Some tm"
  from assms(3) [OF a] show "tm < length (timers s') \<and> t_kind (timers s' ! tm) = ExecTimer t"
  proof
    assume "\<exists>p0. (t, p0) \<in> set (runs s) \<and> timer_of p0 = Some tm"
    with assms(1) have "tm < length (timers s)" "t_kind (timers s ! tm) = ExecTimer t"
      by (force simp: timers_ok_def)+
    with assms(2) show ?thesis by simp
  qed
qed

lemma timers_ok_rgoto:
  assumes "timers_ok s" and "r < length (runs s)" and "runs s' = (runs s)[r := (fst (runs s ! r), p)]"
    and "\<And>i. i < length (timers s) \<Longrightarrow>
      i < length (timers s') \<and> t_kind (timers s' ! i) = t_kind (timers s ! i)"
    and "timer_of p = None \<or> timer_of p = timer_of (snd (runs s ! r))"
  shows "timers_ok s'"
proof (rule timers_ok_step [OF assms(1,4)])
  fix t p' tm
  assume "(t, p') \<in> set (runs s')" "timer_of p' = Some tm"
  moreover have "(fst (runs s ! r), snd (runs s ! r)) \<in> set (runs s)" using assms(2) by simp
  ultimately show "(\<exists>p0. (t, p0) \<in> set (runs s) \<and> timer_of p0 = Some tm) \<or>
      tm < length (timers s') \<and> t_kind (timers s' ! tm) = ExecTimer t"
    using assms(3,5) set_update_subset_insert [of "runs s" r "(fst (runs s ! r), p)"] by auto
qed

lemma t_kind_update:
  "i < length ts \<Longrightarrow> j < length ts \<Longrightarrow>
   t_kind (ts[j := (ts ! j)\<lparr>t_status := st\<rparr>] ! i) = t_kind (ts ! i)"
  by (cases "i = j") simp_all

lemma cancel_timer_exec:
  assumes "timers_ok s" and "(t, p) \<in> set (runs s)" and "timer_of p = Some tm"
    and "\<And>x. P x \<Longrightarrow> \<exists>u. t_kind x = RetryTimer u"
  shows "cnt P (timers (cancel_timer tm s)) = cnt P (timers s)"
proof -
  from assms(1-3) have tm: "tm < length (timers s)" "t_kind (timers s ! tm) = ExecTimer t"
    by (force simp: timers_ok_def)+
  have "\<not> P (timers s ! tm)" "\<not> P ((timers s ! tm)\<lparr>t_status := Gone\<rparr>)"
    using assms(4) tm(2) by fastforce+
  with cnt_update [OF tm(1), of P "(timers s ! tm)\<lparr>t_status := Gone\<rparr>"] show ?thesis
    by (simp add: cancel_timer_def)
qed

lemma cancel_timer_kinds:
  "i < length (timers s) \<Longrightarrow>
   i < length (timers (cancel_timer tm s)) \<and> t_kind (timers (cancel_timer tm s) ! i) = t_kind (timers s ! i)"
  by (simp add: cancel_timer_def t_kind_update)

lemma quota_rgoto:
  assumes inv: "quota_inv s" and r: "r < length (runs s)"
    and runs: "runs s' = (runs s)[r := (fst (runs s ! r), p)]"
    and kinds: "\<And>i. i < length (timers s) \<Longrightarrow>
      i < length (timers s') \<and> t_kind (timers s' ! i) = t_kind (timers s ! i)"
    and tm: "timer_of p = None \<or> timer_of p = timer_of (snd (runs s ! r))"
    and cnt: "int (cnt retry_pending (timers s')) = int (cnt retry_pending (timers s)) + d"
      "int (cnt retry_pending (timers s')) \<le> MAX_CONCURRENT_RETRY"
      "retrying_cnt s' = retrying_cnt s + d + of_bool (p = R_QuotaFull) - of_bool (snd (runs s ! r) = R_QuotaFull)"
  shows "quota_inv s'"
  unfolding quota_inv_def
proof (intro conjI)
  show "timers_ok s'"
    using inv by (intro timers_ok_rgoto [OF _ r runs kinds tm]) (simp_all add: quota_inv_def)
  have "int (cnt at_quota_full (runs s')) =
      int (cnt at_quota_full (runs s)) + of_bool (p = R_QuotaFull) - of_bool (snd (runs s ! r) = R_QuotaFull)"
    unfolding runs by (subst of_nat_cnt_update [OF r]) (simp add: at_quota_full_def)
  with cnt inv show "retrying_cnt s' = int (cnt retry_pending (timers s')) + int (cnt at_quota_full (runs s'))"
    by (simp add: quota_inv_def)
qed (use cnt in simp)

lemma quota_run_step:
  assumes inv: "quota_inv s" and r: "r < length (runs s)" and p: "snd (runs s ! r) = p"
  shows "quota_inv (run_step null r out s (fst (runs s ! r)) p)"
proof -
  note go = quota_rgoto [OF inv r]
  have le: "int (cnt retry_pending (timers s)) \<le> MAX_CONCURRENT_RETRY" using inv by (simp add: quota_inv_def)
  show ?thesis
  proof (cases p)
    case (R_Cancel tm)
    have "(fst (runs s ! r), R_Cancel tm) \<in> set (runs s)" using r p R_Cancel by (metis nth_mem prod.collapse)
    then have "cnt retry_pending (timers (cancel_timer tm s)) = cnt retry_pending (timers s)"
      using inv by (intro cancel_timer_exec) (auto simp: quota_inv_def retry_pending_def)
    with R_Cancel p le show ?thesis by (auto intro!: go [where d = 0] dest: cancel_timer_kinds)
  next
    case R_Quota
    show ?thesis
    proof (cases "retrying_cnt s \<ge> MAX_CONCURRENT_RETRY")
      case True
      with R_Quota p le show ?thesis by (auto intro!: go [where d = 0])
    next
      case False
      with inv have "int (cnt retry_pending (timers s)) < MAX_CONCURRENT_RETRY"
        by (simp add: quota_inv_def)
      with False R_Quota p show ?thesis
        by (auto intro!: go [where d = 1] simp: retry_pending_def live_def nth_append)
    qed
  next
    case (R_Call tm)
    have "quota_inv (s\<lparr>terminated := True\<rparr>)" using inv by (simp add: quota_inv_def timers_ok_def)
    with R_Call p le show ?thesis by (cases out) (auto intro!: go [where d = 0])
  qed (use p le inv in \<open>auto intro!: go [where d = 0] split: option.split\<close>)
qed

lemma quota_cong:
  "timers s' = timers s \<Longrightarrow> runs s' = runs s \<Longrightarrow> retrying_cnt s' = retrying_cnt s \<Longrightarrow>
   quota_inv s' = quota_inv s"
  by (simp add: quota_inv_def timers_ok_def)

lemma quota_move:
  assumes move: "exec_move null x s = Some s'" and inv: "quota_inv s"
  shows "quota_inv s'"
proof (cases x)
  case (StartRun i)
  then obtain t ts st where s': "s' = run_task_enter null t (s\<lparr>runnable := ts, started := st\<rparr>)"
    using move by (auto split: if_splits)
  have "timers_ok s" using inv by (simp add: quota_inv_def)
  then have "timers_ok s'"
    by (rule timers_ok_step)
      (auto simp: s' run_task_enter_def Let_def nth_append split: if_splits)
  with inv show ?thesis
    by (auto simp: s' run_task_enter_def Let_def quota_inv_def retry_pending_def at_quota_full_def)
next
  case (StepRun r out)
  with move quota_run_step [OF inv] show ?thesis by (auto split: if_splits)
next
  case (Expire i)
  with move have i: "i < length (timers s)" "t_status (timers s ! i) = Armed"
    and s': "s' = s\<lparr>timers := (timers s)[i := (timers s ! i)\<lparr>t_status := Expired\<rparr>]\<rparr>"
    by (auto split: if_splits)
  have "timers_ok s'"
    by (rule timers_ok_step [of s]) (use inv i in \<open>auto simp: quota_inv_def s' t_kind_update\<close>)
  with inv cnt_update [OF i(1), of retry_pending "(timers s ! i)\<lparr>t_status := Expired\<rparr>"] i s' show ?thesis
    by (auto simp: quota_inv_def retry_pending_def live_def split: if_splits)
next
  case (Fire i)
  let ?s = "s\<lparr>timers := (timers s)[i := (timers s ! i)\<lparr>t_status := Gone\<rparr>]\<rparr>"
  from Fire move have i: "i < length (timers s)" "t_status (timers s ! i) = Expired"
    and s': "s' = timer_callback null (t_kind (timers s ! i)) ?s"
    by (auto split: if_splits)
  have tm: "timers s' = timers ?s" "runs s' = runs s"
    by (auto simp: s' callback_defs split: timer_kind.split)
  have "timers_ok s'"
    by (rule timers_ok_step [of s]) (use inv i tm in \<open>auto simp: quota_inv_def t_kind_update\<close>)
  moreover have "retrying_cnt s' = retrying_cnt s - of_bool (retry_pending (timers s ! i))"
    using i(2) by (auto simp: s' callback_defs retry_pending_def live_def split: timer_kind.split)
  moreover have "int (cnt retry_pending (timers s')) =
      int (cnt retry_pending (timers s)) - of_bool (retry_pending (timers s ! i))"
    unfolding tm(1) by (simp add: of_nat_cnt_update [OF i(1)]) (simp add: retry_pending_def live_def)
  ultimately show ?thesis using inv tm(2) by (simp add: quota_inv_def)
qed (use assms in \<open>auto simp: register_function_def intro: quota_cong [THEN iffD2] split: if_splits\<close>)

lemma quota_init: "exec_init ts s \<Longrightarrow> quota_inv s"
  by (auto simp: exec_init_def TaskExecutor_new_def quota_inv_def timers_ok_def MAX_CONCURRENT_RETRY_def)

interpretation quota: invariant_system "exec_init ts" "exec_step null" quota_inv for ts null
  by unfold_locales (auto simp: exec_step_def intro: quota_init quota_move)

subsection \<open>The number of attempts\<close>

lemma at_quota_le: "cnt (at_quota t) rs \<le> cnt (run_of t) rs"
  by (induction rs) (auto simp: at_quota_def run_of_def)

lemma attempts_run_step:
  assumes inv: "quota_inv s" "attempts_at x0 s t" and r: "r < length (runs s)" and p: "runs s ! r = (u, p)"
  shows "attempts_at x0 (run_step null r out s u p) t"
proof -
  note upd = of_nat_cnt_update [OF r, where 'a = int] p
  note defs = attempts_at_def tokens_def run_of_def at_quota_def
  show ?thesis
  proof (cases p)
    case (R_Cancel tm)
    have "(u, R_Cancel tm) \<in> set (runs s)" using r p R_Cancel by (metis nth_mem)
    then have "cnt (retry_of t) (timers (cancel_timer tm s)) = cnt (retry_of t) (timers s)"
      using inv by (intro cancel_timer_exec) (auto simp: quota_inv_def retry_of_def)
    with R_Cancel inv(2) show ?thesis by (auto simp: defs upd split: if_splits)
  next
    case (R_Call tm)
    with inv(2) show ?thesis by (cases out) (auto simp: defs upd)
  next
    case (R_Catch tm ec what)
    with inv(2) show ?thesis by (auto simp: defs upd word_less_nat_alt)
  next
    case R_Quota
    have "0 < int (cnt (at_quota u) (runs s))"
      using cnt_pos [OF r, of "at_quota u"] p R_Quota by (simp add: at_quota_def)
    with R_Quota inv(2) show ?thesis
      by (cases "t = u") (auto simp: defs upd retry_of_def live_def)
  qed (use inv(2) in \<open>auto simp: defs upd split: option.split\<close>)
qed

lemma attempts_fire:
  assumes inv: "attempts_at x0 s t" and i: "i < length (timers s)" and e: "t_status (timers s ! i) = Expired"
  shows "attempts_at x0 (timer_callback null (t_kind (timers s ! i))
    (s\<lparr>timers := (timers s)[i := (timers s ! i)\<lparr>t_status := Gone\<rparr>]\<rparr>)) t"
proof -
  note upd = of_nat_cnt_update [OF i, where 'a = int]
  note defs = attempts_at_def tokens_def callback_defs
  show ?thesis
  proof (cases "t_kind (timers s ! i)")
    case (ExecTimer u)
    with inv show ?thesis by (auto simp: defs upd retry_of_def)
  next
    case (RetryTimer u)
    show ?thesis
    proof (cases "u = t")
      case False
      with RetryTimer inv show ?thesis by (auto simp: defs upd retry_of_def)
    next
      case True
      have "0 < cnt (retry_of t) (timers s)"
        using RetryTimer True e by (intro cnt_pos [OF i]) (simp add: retry_of_def live_def)
      with inv have one: "cnt (retry_of t) (timers s) = 1" "cnt (run_of t) (runs s) = 0" "t \<in> known s"
        and less: "unat (retry_count (task_at s t)) < unat (max_retry x0)"
        by (cases "t \<in> known s"; simp add: attempts_at_def tokens_def)+
      have "cnt (at_quota t) (runs s) = 0" using at_quota_le [of t "runs s"] one(2) by simp
      moreover have "unat (retry_count (task_at s t) + 1) = Suc (unat (retry_count (task_at s t)))"
        using less unsigned_less [of "max_retry x0", where 'a = nat]
        by (simp add: unat_word_ariths)
      ultimately show ?thesis
        using RetryTimer True inv one less e by (auto simp: defs upd retry_of_def live_def)
    qed
  qed
qed

lemma cnt_taken:
  assumes "i < length xs"
  shows "int (cnt P (take i xs @ drop (Suc i) xs)) = int (cnt P xs) - of_bool (P (xs ! i))"
  by (subst (2) id_take_nth_drop [OF assms]) (simp add: cnt_def)

lemma attempts_start:
  assumes inv: "attempts_at x0 s t" and i: "i < length (runnable s)" and u: "u = runnable s ! i"
  shows "attempts_at x0 (run_task_enter null u
    (s\<lparr>runnable := take i (runnable s) @ drop (Suc i) (runnable s),
      started := (started s)(u := Suc (started s u))\<rparr>)) t"
  using inv u cnt_taken [OF i, of "(=) t"]
  by (cases "t = u")
    (auto simp: attempts_at_def tokens_def run_task_enter_def Let_def run_of_def at_quota_def retry_of_def)

lemma attempts_expire:
  assumes "attempts_at x0 s t" and i: "i < length (timers s)" and "t_status (timers s ! i) = Armed"
  shows "attempts_at x0 (s\<lparr>timers := (timers s)[i := (timers s ! i)\<lparr>t_status := Expired\<rparr>]\<rparr>) t"
  using assms(1,3)
  by (simp add: attempts_at_def tokens_def of_nat_cnt_update [OF i, where 'a = int] retry_of_def live_def)

lemma attempts_move:
  assumes move: "exec_move null x s = Some s'" and inv: "quota_inv s" "attempts_at x0 s t"
  shows "attempts_at x0 s' t"
proof (cases x)
  case (StepRun r out)
  obtain u p where "runs s ! r = (u, p)" by (cases "runs s ! r")
  with StepRun move attempts_run_step [OF inv] show ?thesis by (auto split: if_splits)
next
  case (StartRun i)
  with move attempts_start [OF inv(2)] show ?thesis by (auto split: if_splits)
next
  case (Expire i)
  with move attempts_expire [OF inv(2)] show ?thesis by (auto split: if_splits)
next
  case (Fire i)
  with move attempts_fire [OF inv(2)] show ?thesis by (auto split: if_splits)
next
  case (Submit u)
  with move inv(2) show ?thesis
    by (cases "t = u") (auto simp: attempts_at_def tokens_def split: if_splits)
qed (use assms in \<open>auto simp: attempts_at_def tokens_def register_function_def split: if_splits\<close>)

lemma attempts_init: "exec_init ts s \<Longrightarrow> attempts_inv ts s"
  using quota_init
  by (auto simp: attempts_inv_def attempts_at_def tokens_def exec_init_def TaskExecutor_new_def)

interpretation attempts: invariant_system "exec_init ts" "exec_step null" "attempts_inv ts" for ts null
proof unfold_locales
  fix s :: "('a, 'b) TaskExecutor"
  assume "exec_init ts s"
  then show "attempts_inv ts s" by (rule attempts_init)
next
  fix s s' :: "('a, 'b) TaskExecutor"
  assume "exec_step null s s'" "attempts_inv ts s"
  then show "attempts_inv ts s'"
    by (auto simp: exec_step_def attempts_inv_def intro: quota_move attempts_move)
qed

subsection \<open>Settled tasks\<close>

lemma settled_run_step:
  assumes "settled s t" and r: "r < length (runs s)" and p: "runs s ! r = (u, p)"
  shows "task_at (run_step null r out s u p) t = task_at s t \<and> settled (run_step null r out s u p) t"
proof (cases "p = R_Done")
  case True
  with assms show ?thesis by simp
next
  case False
  have "\<not> run_of t (runs s ! r)"
    using assms(1) r by (metis settled_def cnt_pos less_numeral_extra(3))
  with False p have ut: "u \<noteq> t" by (auto simp: run_of_def)
  have "cnt (run_of t) ((runs s)[r := (u, q)]) = cnt (run_of t) (runs s)" for q
    using cnt_update [OF r, of "run_of t" "(u, q)"] ut p by (simp add: run_of_def)
  moreover have "cnt P (timers (cancel_timer i s)) = 0"
    if "cnt P (timers s) = 0" "\<And>x. \<not> P (x\<lparr>t_status := Gone\<rparr>)" for P i
    using that cnt_update [of i "timers s" P "(timers s ! i)\<lparr>t_status := Gone\<rparr>"]
    by (auto simp: cancel_timer_def split: if_splits)
  ultimately show ?thesis
    using assms(1) ut p
    by (cases p)
      (auto simp: settled_def retry_of_def exec_of_def live_def split: option.split outcome.split)
qed

lemma settled_stable:
  assumes move: "exec_move null x s = Some s'" and st: "settled s t"
  shows "task_at s' t = task_at s t \<and> settled s' t"
proof (cases x)
  case (StepRun r out)
  obtain u p where "runs s ! r = (u, p)" by (cases "runs s ! r")
  with StepRun move settled_run_step [OF st] show ?thesis by (auto split: if_splits)
next
  case (StartRun i)
  with move st nth_mem [of i "runnable s"] show ?thesis
    by (auto simp: settled_def run_task_enter_def Let_def run_of_def retry_of_def exec_of_def
        dest: in_set_takeD in_set_dropD split: if_splits)
next
  case (Expire i)
  then have i: "i < length (timers s)" "t_status (timers s ! i) = Armed"
    using move by (auto split: if_splits)
  then have "retry_of t ((timers s ! i)\<lparr>t_status := Expired\<rparr>) = retry_of t (timers s ! i)"
    "exec_of t ((timers s ! i)\<lparr>t_status := Expired\<rparr>) = exec_of t (timers s ! i)"
    by (auto simp: retry_of_def exec_of_def live_def)
  with i cnt_update [OF i(1), of "retry_of t" "(timers s ! i)\<lparr>t_status := Expired\<rparr>"]
    cnt_update [OF i(1), of "exec_of t" "(timers s ! i)\<lparr>t_status := Expired\<rparr>"] Expire move st
  show ?thesis by (auto simp: settled_def split: if_splits)
next
  case (Fire i)
  then have i: "i < length (timers s)" "t_status (timers s ! i) = Expired"
    using move by (auto split: if_splits)
  have "\<not> retry_of t (timers s ! i)" "\<not> exec_of t (timers s ! i)"
    using st i(1) by (metis settled_def cnt_pos less_numeral_extra(3))+
  with i have k: "t_kind (timers s ! i) \<noteq> RetryTimer t" "t_kind (timers s ! i) \<noteq> ExecTimer t"
    by (auto simp: retry_of_def exec_of_def live_def)
  then have "cnt (retry_of t) ((timers s)[i := (timers s ! i)\<lparr>t_status := Gone\<rparr>]) = cnt (retry_of t) (timers s)"
    "cnt (exec_of t) ((timers s)[i := (timers s ! i)\<lparr>t_status := Gone\<rparr>]) = cnt (exec_of t) (timers s)"
    using cnt_update [OF i(1), of "retry_of t" "(timers s ! i)\<lparr>t_status := Gone\<rparr>"]
      cnt_update [OF i(1), of "exec_of t" "(timers s ! i)\<lparr>t_status := Gone\<rparr>"]
    by (simp_all add: retry_of_def exec_of_def)
  with Fire move st i k show ?thesis
    by (cases "t_kind (timers s ! i)") (auto simp: settled_def callback_defs split: if_splits)
qed (use assms in \<open>auto simp: settled_def register_function_def split: if_splits\<close>)

lemma exec_run_reach:
  "exec_run null xs s = Some s' \<Longrightarrow> reach (exec_init ts) (exec_step null) s \<Longrightarrow>
   reach (exec_init ts) (exec_step null) s'"
proof (induction xs arbitrary: s)
  case (Cons x xs)
  from Cons.prems(1) obtain u where u: "exec_move null x s = Some u" "exec_run null xs u = Some s'"
    by (auto split: option.splits)
  then have "exec_step null s u" by (auto simp: exec_step_def)
  with Cons.prems(2) Cons.IH [OF u(2)] show ?case by (auto intro: reach.reach_step)
qed simp

lemma exec_new_reach:
  assumes "exec_run null xs (TaskExecutor_new fs ts now) = Some s"
  shows "reach (exec_init ts) (exec_step null) s"
  by (rule exec_run_reach [OF assms]) (rule reach.reach_init, auto simp: exec_init_def)

subsection \<open>Properties\<close>

text \<open>C6: in every run of the executor, whatever the functions do and however callbacks and
  workers interleave, a task is started at most once more than it has retries left when it is
  submitted, and its retry counter never passes its limit.\<close>

theorem attempts_bounded:
  assumes "reach (exec_init ts) (exec_step null) s"
  shows "started s t \<le> 1 + (unat (max_retry (ts t)) - unat (retry_count (ts t))) \<and>
     unat (retry_count (task_at s t)) \<le> max (unat (retry_count (ts t))) (unat (max_retry (ts t)))"
proof -
  from attempts.reach_inv [OF assms] have "attempts_at (ts t) s t" by (simp add: attempts_inv_def)
  then have "unat (retry_count (task_at s t)) \<le> max (unat (retry_count (ts t))) (unat (max_retry (ts t)))"
    and "int (started s t) \<le> 1 + int (unat (retry_count (task_at s t))) - int (unat (retry_count (ts t)))"
    by (cases "t \<in> known s"; simp add: attempts_at_def)+
  then show ?thesis by linarith
qed

theorem attempts_bounded_witness:
  "\<exists>s. reach (exec_init (\<lambda>_. Task_new () 0)) (exec_step ()) (s :: (unit, unit) TaskExecutor) \<and>
     started s 0 = 1 \<and> started s 0 \<le> 4"
proof -
  let ?xs = "[Submit 0, StartRun 0] :: (unit, unit) exec_action list"
  have "map_option (\<lambda>s. started s 0) (exec_run () ?xs (TaskExecutor_new [''f'' \<mapsto> ()] (\<lambda>_. Task_new () 0) 5)) = Some 1"
    by code_simp
  then obtain s where run: "exec_run () ?xs (TaskExecutor_new [''f'' \<mapsto> ()] (\<lambda>_. Task_new () 0) 5) = Some s"
    and st: "started s 0 = 1" by auto
  from exec_new_reach [OF run] have r: "reach (exec_init (\<lambda>_. Task_new () 0)) (exec_step ()) s" .
  from attempts_bounded [OF r, of 0] r st show ?thesis by (auto simp: Task_new_def)
qed

text \<open>C8: in every run at most \<open>MAX_CONCURRENT_RETRY\<close> retries are pending, although workers race on
  the counter, and the counter is their number plus that of the activations that were refused
  and have not yet taken their increment back.\<close>

theorem retry_quota:
  assumes "reach (exec_init ts) (exec_step null) s"
  shows "int (cnt retry_pending (timers s)) \<le> MAX_CONCURRENT_RETRY \<and>
     retrying_cnt s = int (cnt retry_pending (timers s)) + int (cnt at_quota_full (runs s))"
  using quota.reach_inv [OF assms] by (simp add: quota_inv_def)

theorem retry_quota_witness:
  "\<exists>s. reach (exec_init (\<lambda>_. Task_new () 0)) (exec_step ()) (s :: (unit, unit) TaskExecutor) \<and>
     retrying_cnt s = 1 \<and> cnt retry_pending (timers s) = 1"
proof -
  let ?e = "ThrewSystem ConnectionRefused []"
  let ?xs = "[Submit 0, StartRun 0] @ replicate 5 (StepRun 0 ?e) :: (unit, unit) exec_action list"
  have "map_option (\<lambda>s. (retrying_cnt s, map snd (runs s)))
      (exec_run () ?xs (TaskExecutor_new [[] \<mapsto> ()] (\<lambda>_. Task_new () 0) 5)) = Some (1, [R_Done])"
    by code_simp
  then obtain s where run: "exec_run () ?xs (TaskExecutor_new [[] \<mapsto> ()] (\<lambda>_. Task_new () 0) 5) = Some s"
    and st: "retrying_cnt s = 1" "map snd (runs s) = [R_Done]" by auto
  from exec_new_reach [OF run] have r: "reach (exec_init (\<lambda>_. Task_new () 0)) (exec_step ()) s" .
  have "cnt at_quota_full (runs s) = 0" using st(2) by (auto simp: map_eq_Cons_conv at_quota_full_def)
  with retry_quota [OF r] r st(1) show ?thesis by auto
qed

lemma remaining_timeout_value:
  assumes "uint now < 2 ^ 63" and "0 \<le> sint (submit_ts task)" and "sint (submit_ts task) \<le> uint now"
  shows "sint (remaining_timeout task now) = uint (timeout_ms task) - (uint now - sint (submit_ts task))"
proof -
  let ?v = "uint (timeout_ms task) - (uint now - sint (submit_ts task))"
  have "remaining_timeout task now = word_of_int ?v"
    by (simp add: remaining_timeout_def)
  moreover have "sint (word_of_int ?v :: 64 word) = ?v"
  proof -
    have "uint (timeout_ms task) < 2 ^ 32" using unsigned_less [of "timeout_ms task"] by simp
    moreover have "0 \<le> uint (timeout_ms task)" by simp
    ultimately have "- (2 ^ 63) \<le> ?v" using assms by linarith
    moreover have "?v < 2 ^ 63" using \<open>uint (timeout_ms task) < 2 ^ 32\<close> assms by simp
    ultimately have "- (2 ^ 63) \<le> ?v" "?v < 2 ^ 63" .
    then show ?thesis by (simp only: sint_sbintrunc') (simp add: signed_take_bit_int_eq_self)
  qed
  ultimately show ?thesis by simp
qed

text \<open>C36: the mixed signed and unsigned arithmetic before the \<open>try\<close> block gives the intended
  deadline whenever the clock is below \<open>2 ^ 63\<close> and the submission time is non-negative and not
  later than the clock. A task whose resources suffice is then reported as \<open>TIMEOUT\<close> exactly when
  more than \<open>timeout_ms\<close> have passed since its submission; otherwise, the moment they have just
  passed included, it is run under a timer that expires at \<open>submit_ts + timeout_ms\<close>.\<close>

theorem remaining_timeout_exact:
  assumes "uint (now_ms s) < 2 ^ 63" and "0 \<le> sint (submit_ts (task_at s t))"
    and "sint (submit_ts (task_at s t)) \<le> uint (now_ms s)"
  shows "run_task_enter null t s =
    (if \<not> check_resources (available_resources s) (required (task_at s t))
     then set_state t FAILED null ''Insufficient resources'' s
     else if uint (timeout_ms (task_at s t)) < uint (now_ms s) - sint (submit_ts (task_at s t))
     then set_state t TIMEOUT null ''Execution timeout'' s
     else s\<lparr>timers := timers s @ [\<lparr>t_kind = ExecTimer t,
              t_deadline = sint (submit_ts (task_at s t)) + uint (timeout_ms (task_at s t)), t_status = Armed\<rparr>],
            runs := runs s @ [(t, R_Begin (length (timers s)) (now_ms s))]\<rparr>)"
  using remaining_timeout_value [OF assms] by (simp add: run_task_enter_def Let_def arm_def)

theorem remaining_timeout_exact_witness:
  "timers (run_task_enter () 0 (TaskExecutor_new [[] \<mapsto> ()] (\<lambda>_. (Task_new () 0)\<lparr>submit_ts := 100\<rparr>) 30100)) =
     [\<lparr>t_kind = ExecTimer 0, t_deadline = 30100, t_status = Armed\<rparr>] \<and>
   state (task_at (run_task_enter () 0 (TaskExecutor_new [[] \<mapsto> ()] (\<lambda>_. (Task_new () 0)\<lparr>submit_ts := 100\<rparr>) 30101)) 0) = TIMEOUT"
proof -
  let ?s = "\<lambda>now. TaskExecutor_new [[] \<mapsto> ()] (\<lambda>_. (Task_new () 0)\<lparr>submit_ts := 100\<rparr>) now :: (unit, unit) TaskExecutor"
  have "check_resources (available_resources (?s n)) (required (task_at (?s n) 0))" for n
    by (simp add: TaskExecutor_new_def Task_new_def check_resources_def)
  then show ?thesis
    using remaining_timeout_exact [of "?s 30100" 0 "()"] remaining_timeout_exact [of "?s 30101" 0 "()"]
    by (simp add: TaskExecutor_new_def Task_new_def)
qed

text \<open>The built-in \<open>fib\<close>, called with any \<open>int\<close> and not cancelled, throws on negative
  arguments, returns the Fibonacci number up to 46, and overflows \<open>int\<close>, which is undefined
  behaviour, from 47 on.\<close>

theorem fib_builtin_correct:
  assumes "\<And>j. \<not> canc j"
  shows "fib_builtin canc n =
    (if n < 0 then FibThrows
     else if n \<le> 46 then FibValue (int (fibonacci (nat n)))
     else FibOverflow)"
proof -
  consider "n < 0" | "n = 0" | "n = 1" | "2 \<le> n" by linarith
  then show ?thesis
  proof cases
    case 4
    define k where "k = nat (n - 1)"
    have n: "n = int (Suc k)" "nat n = Suc k" and k: "nat (n - 1) = k" "k \<noteq> 0"
      using 4 by (auto simp: k_def)
    have loop: "fib_builtin canc n =
        (if int (fibonacci (Suc k)) \<le> 2 ^ 31 - 1 then FibValue (int (fibonacci (Suc k))) else FibOverflow)"
      using fib_loop_correct [OF assms, where k = k and i = 2 and m = 0] 4 k by (simp add: fib_builtin_def)
    show ?thesis
    proof (cases "n \<le> 46")
      case True
      then have "fibonacci (Suc k) \<le> fibonacci 46" using n by (intro fibonacci_mono) simp
      then have "int (fibonacci (Suc k)) \<le> 2 ^ 31 - 1" using fibonacci_limits(1) by simp
      with loop True 4 n(2) show ?thesis by simp
    next
      case False
      then have "fibonacci 47 \<le> fibonacci (Suc k)" using n by (intro fibonacci_mono) simp
      then have "\<not> int (fibonacci (Suc k)) \<le> 2 ^ 31 - 1" using fibonacci_limits(2) by simp
      with loop False 4 show ?thesis by simp
    qed
  qed (simp_all add: fib_builtin_def)
qed

theorem fib_builtin_correct_witness:
  "fib_builtin (\<lambda>_. False) 10 = FibValue 55"
proof -
  have "fibonacci 10 = 55" by code_simp
  then show ?thesis using fib_builtin_correct [of "\<lambda>_. False" 10] by simp
qed

text \<open>C37: every outcome of the built-in \<open>fib\<close> against a cancellation flag that another thread may
  set and that each turn of the loop reads once: it throws below 0, is cancelled exactly when one
  of its checks finds the flag, returns the Fibonacci number up to 46 otherwise, and overflows
  \<open>int\<close> beyond.\<close>

theorem fib_builtin_outcome:
  "fib_builtin canc n =
    (if n < 0 then FibThrows
     else if n \<le> 1 then FibValue (int (fibonacci (nat n)))
     else if flag_seen canc (nat n) then FibCancelled
     else if n \<le> 46 then FibValue (int (fibonacci (nat n)))
     else FibOverflow)"
proof (cases "n \<le> 1")
  case True
  then consider "n < 0" | "n = 0" | "n = 1" by linarith
  then show ?thesis by cases (simp_all add: fib_builtin_def)
next
  case False
  define k where "k = nat (n - 1)"
  from False have n: "n = int (Suc k)" "nat n = Suc k" "nat (n - 1) = k" by (auto simp: k_def)
  have "[0 + 2..<min (0 + 2 + k) 48] = [2..<min (Suc (nat n)) 48]" using n(2) by (simp only: add_2_eq_Suc add_0)
  with fib_loop_outcome [of 0 canc k] have "fib_loop canc k (0 + 2) (int (fibonacci 0)) (int (fibonacci (Suc 0))) =
      (if flag_seen canc (nat n) then FibCancelled
       else if Suc 0 + k \<le> 46 then FibValue (int (fibonacci (Suc 0 + k))) else FibOverflow)"
    by (simp only: flag_seen_def)
  with False n show ?thesis by (simp add: fib_builtin_def numeral_2_eq_2)
qed

text \<open>A task that is no longer queued, running or waiting for a retry, and all of whose
  execution timers were cancelled or have fired, is final: no later step of the executor
  changes any field of it.\<close>

theorem settled_task_final:
  assumes "settled s t" and "exec_run null xs s = Some s'"
  shows "task_at s' t = task_at s t \<and> settled s' t"
  using assms
proof (induction xs arbitrary: s)
  case (Cons x xs)
  from Cons.prems(2) obtain u where u: "exec_move null x s = Some u" "exec_run null xs u = Some s'"
    by (auto split: option.splits)
  with settled_stable [OF u(1) Cons.prems(1)] Cons.IH show ?case by auto
qed simp

theorem settled_task_final_witness:
  "\<exists>s s'. reach (exec_init (\<lambda>_. Task_new () 0)) (exec_step ()) (s :: (unit, unit) TaskExecutor) \<and>
     settled s 0 \<and> exec_run () [Tick 99000000, Submit 1, StartRun 0] s = Some s' \<and>
     state (task_at s' 0) = SUCCESS"
proof -
  let ?xs = "[Submit 0, StartRun 0] @ replicate 5 (StepRun 0 (Returned ())) :: (unit, unit) exec_action list"
  let ?ys = "[Tick 99000000, Submit 1, StartRun 0] :: (unit, unit) exec_action list"
  let ?s = "exec_run () ?xs (TaskExecutor_new [[] \<mapsto> ()] (\<lambda>_. Task_new () 0) 5)"
  have "map_option (\<lambda>s. (known s, runnable s, runs s, map t_status (timers s), state (task_at s 0),
      map_option (\<lambda>_. ()) (exec_run () ?ys s))) ?s =
      Some ({0}, [], [(0, R_Done)], [Gone], SUCCESS, Some ())" by code_simp
  then obtain s s' where run: "?s = Some s" and st: "known s = {0}" "runnable s = []" "runs s = [(0, R_Done)]"
    "map t_status (timers s) = [Gone]" "state (task_at s 0) = SUCCESS" and s': "exec_run () ?ys s = Some s'"
    by auto
  obtain tm where "timers s = [tm]" "t_status tm = Gone" using st(4) by (cases "timers s") auto
  with st(1-3) have "settled s 0"
    by (simp add: settled_def run_of_def retry_of_def exec_of_def live_def)
  moreover from settled_task_final [OF this s'] st(5) have "state (task_at s' 0) = SUCCESS" by simp
  ultimately show ?thesis
    using exec_new_reach [OF run] s' by (intro exI [of _ s] exI [of _ s'] conjI)
qed

text \<open>C33: the retry path leaves the execution timer of the failed attempt running. There is a run
  in which the second attempt succeeded, its own timer is cancelled and nothing of the task is
  queued, running or waiting, and the first attempt's timer then turns \<open>SUCCESS\<close> into
  \<open>TIMEOUT\<close>.\<close>

theorem stale_timer_overwrites_success:
  "\<exists>s s'. reach (exec_init (\<lambda>_. (Task_new () 0)\<lparr>timeout_ms := 5000\<rparr>)) (exec_step ()) (s :: (unit, unit) TaskExecutor) \<and>
     state (task_at s 0) = SUCCESS \<and> tokens s 0 = 0 \<and>
     exec_run () [Tick 5000000000, Expire 0, Fire 0] s = Some s' \<and> state (task_at s' 0) = TIMEOUT"
proof -
  let ?e = "ThrewSystem ConnectionRefused []"
  let ?xs = "[Submit 0, StartRun 0] @ replicate 5 (StepRun 0 ?e) @ [Tick 1000000000, Expire 1, Fire 1, StartRun 0]
    @ replicate 5 (StepRun 1 (Returned ())) :: (unit, unit) exec_action list"
  let ?ys = "[Tick 5000000000, Expire 0, Fire 0] :: (unit, unit) exec_action list"
  let ?s = "exec_run () ?xs (TaskExecutor_new [[] \<mapsto> ()] (\<lambda>_. (Task_new () 0)\<lparr>timeout_ms := 5000\<rparr>) 0)"
  have "map_option (\<lambda>s. (state (task_at s 0), runnable s, map snd (runs s), map (\<lambda>tm. (t_kind tm, t_status tm)) (timers s),
      map_option (\<lambda>s'. state (task_at s' 0)) (exec_run () ?ys s))) ?s =
      Some (SUCCESS, [], [R_Done, R_Done], [(ExecTimer 0, Armed), (RetryTimer 0, Gone), (ExecTimer 0, Gone)], Some TIMEOUT)"
    by code_simp
  then obtain s s' where run: "?s = Some s" and st: "state (task_at s 0) = SUCCESS" "runnable s = []"
    "map snd (runs s) = [R_Done, R_Done]"
    "map (\<lambda>tm. (t_kind tm, t_status tm)) (timers s) = [(ExecTimer 0, Armed), (RetryTimer 0, Gone), (ExecTimer 0, Gone)]"
    "exec_run () ?ys s = Some s'" "state (task_at s' 0) = TIMEOUT" by auto
  have "tokens s 0 = 0"
    using st(2-4) by (auto simp: tokens_def run_of_def retry_of_def live_def map_eq_Cons_conv)
  with exec_new_reach [OF run] st show ?thesis by (intro exI [of _ s] exI [of _ s'] conjI)
qed

text \<open>C34: a function that returns after its execution timer fired still reports success: the
  task, whose flag was set and whose state was \<open>TIMEOUT\<close>, ends as \<open>SUCCESS\<close>.\<close>

theorem late_return_overwrites_timeout:
  "\<exists>s s'. reach (exec_init (\<lambda>_. Task_new () 7)) (exec_step ()) (s :: (unit, unit) TaskExecutor) \<and>
     state (task_at s 0) = TIMEOUT \<and> flags s 7 \<and>
     exec_run () (replicate 2 (StepRun 0 (Returned ()))) s = Some s' \<and> state (task_at s' 0) = SUCCESS"
proof -
  let ?o = "Returned () :: unit outcome"
  let ?xs = "[Submit 0, StartRun 0, StepRun 0 ?o, StepRun 0 ?o, Tick 30000000000, Expire 0, Fire 0] :: (unit, unit) exec_action list"
  let ?ys = "replicate 2 (StepRun 0 ?o) :: (unit, unit) exec_action list"
  let ?s = "exec_run () ?xs (TaskExecutor_new [[] \<mapsto> ()] (\<lambda>_. Task_new () 7) 0)"
  have "map_option (\<lambda>s. (state (task_at s 0), flags s 7,
      map_option (\<lambda>s'. state (task_at s' 0)) (exec_run () ?ys s))) ?s = Some (TIMEOUT, True, Some SUCCESS)"
    by code_simp
  then obtain s s' where run: "?s = Some s" and st: "state (task_at s 0) = TIMEOUT" "flags s 7"
    "exec_run () ?ys s = Some s'" "state (task_at s' 0) = SUCCESS" by auto
  with exec_new_reach [OF run] show ?thesis by (intro exI [of _ s] exI [of _ s'] conjI)
qed

text \<open>The delay before a retry doubles with each attempt from one second up to sixteen, and
  the shift never leaves the range of \<open>int\<close>, whatever the counter holds.\<close>

theorem retry_delay_bounds:
  "retry_delay rc = 2 ^ min (unat rc) 4 \<and> 1 \<le> retry_delay rc \<and> retry_delay rc \<le> 16"
proof -
  have "(2::int) ^ min (unat rc) 4 \<le> 2 ^ 4" by (rule power_increasing) simp_all
  then show ?thesis by (simp add: retry_delay_eq)
qed

end
