(* ===== verification/Thread_Pool.thy ===== *)
theory Thread_Pool
  imports Prelude
begin

text \<open>
  Model of \<open>src/common/include/thread_pool.hpp\<close> and \<open>src/common/src/thread_pool.cpp\<close>: the
  pool as a machine whose steps are the atomic accesses of \<open>worker\<close>, \<open>enqueue\<close>,
  \<open>remove_threads\<close> and the destructor, interleaved between any number of workers and callers,
  with \<open>add_threads\<close> and \<open>shutdown\<close> as calls at any time. \<open>add_threads\<close> is one step: a worker
  that is not scheduled yet cannot be told from one that is not created yet.

  \<open>boost::lockfree::queue\<close> is the parameter \<open>Q\<close>, a record of its operations; what the pool
  relies on is \<open>lf_laws\<close>, that these operations are atomic operations of a FIFO queue.
  The semaphore is its counter. \<open>release\<close> beyond the maximum \<open>mx\<close> of the semaphore (1 is all
  that \<open>std::binary_semaphore\<close> promises) is undefined behaviour, as are a task that throws
  (the process terminates) and an access to a destroyed member: the machine stops with an
  error. \<open>submitted\<close> and \<open>taken\<close> log the pushed tasks and the popped ones, the latter with
  whether a worker took it to run it or the destructor to delete it.
\<close>

subsection \<open>The lock-free queue\<close>

record ('p, 'q) lf_ops =
  push_op :: "'p \<Rightarrow> 'q \<Rightarrow> bool \<times> 'q"
  pop_op :: "'q \<Rightarrow> ('p \<times> 'q) option"
  empty_op :: "'q \<Rightarrow> bool"

definition lf_laws :: "('p, 'q) lf_ops \<Rightarrow> ('q \<Rightarrow> 'p list) \<Rightarrow> bool" where
  "lf_laws Q items \<longleftrightarrow>
     (\<forall>p q q'. push_op Q p q = (True, q') \<longrightarrow> items q' = items q @ [p]) \<and>
     (\<forall>p q q'. push_op Q p q = (False, q') \<longrightarrow> items q' = items q) \<and>
     (\<forall>q. pop_op Q q = None \<longleftrightarrow> items q = []) \<and>
     (\<forall>p q q'. pop_op Q q = Some (p, q') \<longrightarrow> items q = p # items q')"

subsection \<open>State\<close>

text \<open>Program points of \<open>worker\<close>, with the loaded values that are alive there.\<close>

datatype 'p wpc =
    W_Start | W_Stop | W_Wait | W_Pop | W_Run 'p | W_Sub
  | W_Active | W_Target u64 | W_Old | W_Target2 u64 | W_Cas u64
  | W_Stop2 | W_Empty | W_Sleep | W_Exit | W_Gone

datatype enq_result = NotCalled | Accepted | PoolStopped

datatype 'p ppc =
    P_Ready enq_result | P_Check 'p | P_Push 'p | P_Recheck 'p | P_Count | P_Release

datatype dpc = D_None | D_ReleaseAll | D_Drain | D_Sub | D_Members | D_Join | D_End

datatype pool_error = SemOverflow | TaskThrew | DeadMember

record ('p, 'q) ThreadPool =
  queue :: 'q
  workers :: "'p wpc list"
  stop :: bool
  active_threads :: u64
  target_thread_count :: u64
  task_sem :: nat
  leftover :: u64
  producers :: "'p ppc list"
  removals :: "u64 list"
  destructor :: dpc
  members_dead :: bool
  pool_ub :: "pool_error option"
  submitted :: "'p list"
  taken :: "('p \<times> bool) list"

definition ThreadPool_new :: "u64 \<Rightarrow> 'q \<Rightarrow> nat \<Rightarrow> ('p, 'q) ThreadPool" where
  "ThreadPool_new num_threads q callers =
     \<lparr>queue = q, workers = replicate (unat num_threads) W_Start, stop = False,
      active_threads = 0, target_thread_count = num_threads, task_sem = 0, leftover = 0,
      producers = replicate callers (P_Ready NotCalled), removals = [], destructor = D_None,
      members_dead = False, pool_ub = None, submitted = [], taken = []\<rparr>"

subsection \<open>Steps\<close>

definition wgoto :: "nat \<Rightarrow> 'p wpc \<Rightarrow> ('p, 'q) ThreadPool \<Rightarrow> ('p, 'q) ThreadPool" where
  "wgoto i w s = s\<lparr>workers := (workers s)[i := w]\<rparr>"

definition pgoto :: "nat \<Rightarrow> 'p ppc \<Rightarrow> ('p, 'q) ThreadPool \<Rightarrow> ('p, 'q) ThreadPool" where
  "pgoto i p s = s\<lparr>producers := (producers s)[i := p]\<rparr>"

definition sem_release :: "nat \<Rightarrow> nat \<Rightarrow> ('p, 'q) ThreadPool \<Rightarrow> ('p, 'q) ThreadPool" where
  "sem_release mx n s =
     (if task_sem s + n \<le> mx then s\<lparr>task_sem := task_sem s + n\<rparr>
      else s\<lparr>pool_ub := Some SemOverflow\<rparr>)"

text \<open>
  \<open>b\<close> resolves what the program does not decide: whether \<open>try_acquire_for\<close> obtains an
  available permit in time, and whether the task throws.
\<close>

fun worker_step ::
  "('p, 'q) lf_ops \<Rightarrow> nat \<Rightarrow> bool \<Rightarrow> ('p, 'q) ThreadPool \<Rightarrow> 'p wpc \<Rightarrow> ('p, 'q) ThreadPool" where
  "worker_step Q i b s W_Start = wgoto i W_Stop (s\<lparr>active_threads := active_threads s + 1\<rparr>)"
| "worker_step Q i b s W_Stop = wgoto i (if stop s then W_Exit else W_Wait) s"
| "worker_step Q i b s W_Wait =
     (if b \<and> 0 < task_sem s then wgoto i W_Pop (s\<lparr>task_sem := task_sem s - 1\<rparr>)
      else wgoto i W_Active s)"
| "worker_step Q i b s W_Pop =
     (case pop_op Q (queue s) of
        None \<Rightarrow> wgoto i W_Active s
      | Some (p, q) \<Rightarrow> wgoto i (W_Run p) (s\<lparr>queue := q, taken := taken s @ [(p, True)]\<rparr>))"
| "worker_step Q i b s (W_Run p) =
     (if b then s\<lparr>pool_ub := Some TaskThrew\<rparr> else wgoto i W_Sub s)"
| "worker_step Q i b s W_Sub = wgoto i W_Active (s\<lparr>leftover := leftover s - 1\<rparr>)"
| "worker_step Q i b s W_Active = wgoto i (W_Target (active_threads s)) s"
| "worker_step Q i b s (W_Target a) =
     wgoto i (if a > target_thread_count s then W_Old else W_Stop) s"
| "worker_step Q i b s W_Old = wgoto i (W_Target2 (active_threads s)) s"
| "worker_step Q i b s (W_Target2 old) =
     wgoto i (if old > target_thread_count s then W_Cas old else W_Stop2) s"
| "worker_step Q i b s (W_Cas old) =
     (if active_threads s = old then wgoto i W_Gone (s\<lparr>active_threads := old - 1\<rparr>)
      else wgoto i W_Stop2 s)"
| "worker_step Q i b s W_Stop2 = wgoto i (if stop s then W_Stop else W_Empty) s"
| "worker_step Q i b s W_Empty = wgoto i (if empty_op Q (queue s) then W_Sleep else W_Stop) s"
| "worker_step Q i b s W_Sleep = wgoto i W_Stop s"
| "worker_step Q i b s W_Exit = wgoto i W_Gone (s\<lparr>active_threads := active_threads s - 1\<rparr>)"
| "worker_step Q i b s W_Gone = s"

text \<open>Program points whose access is to a member that is destroyed before the threads are joined.\<close>

fun touches_dead :: "'p wpc \<Rightarrow> bool" where
  "touches_dead W_Pop = False"
| "touches_dead (W_Run p) = False"
| "touches_dead W_Empty = False"
| "touches_dead W_Sleep = False"
| "touches_dead W_Gone = False"
| "touches_dead _ = True"

fun enqueue_call_step ::
  "('p, 'q) lf_ops \<Rightarrow> nat \<Rightarrow> nat \<Rightarrow> ('p, 'q) ThreadPool \<Rightarrow> 'p ppc \<Rightarrow> ('p, 'q) ThreadPool" where
  "enqueue_call_step Q mx i s (P_Ready r) = s"
| "enqueue_call_step Q mx i s (P_Check p) =
     pgoto i (if stop s then P_Ready PoolStopped else P_Push p) s"
| "enqueue_call_step Q mx i s (P_Push p) =
     (case push_op Q p (queue s) of
        (True, q) \<Rightarrow> pgoto i P_Count (s\<lparr>queue := q, submitted := submitted s @ [p]\<rparr>)
      | (False, q) \<Rightarrow> pgoto i (P_Recheck p) (s\<lparr>queue := q\<rparr>))"
| "enqueue_call_step Q mx i s (P_Recheck p) =
     pgoto i (if stop s then P_Ready PoolStopped else P_Push p) s"
| "enqueue_call_step Q mx i s P_Count = pgoto i P_Release (s\<lparr>leftover := leftover s + 1\<rparr>)"
| "enqueue_call_step Q mx i s P_Release = pgoto i (P_Ready Accepted) (sem_release mx 1 s)"

text \<open>
  The destructor's body, then the members in reverse order of declaration: the counters, the
  semaphore and the stop flag before the vector of threads, whose destruction joins them.
\<close>

fun destructor_step ::
  "('p, 'q) lf_ops \<Rightarrow> nat \<Rightarrow> ('p, 'q) ThreadPool \<Rightarrow> dpc \<Rightarrow> ('p, 'q) ThreadPool" where
  "destructor_step Q mx s D_None = s\<lparr>stop := True, destructor := D_ReleaseAll\<rparr>"
| "destructor_step Q mx s D_ReleaseAll =
     (sem_release mx (length (workers s)) s)\<lparr>destructor := D_Drain\<rparr>"
| "destructor_step Q mx s D_Drain =
     (case pop_op Q (queue s) of
        None \<Rightarrow> s\<lparr>destructor := D_Members\<rparr>
      | Some (p, q) \<Rightarrow> s\<lparr>queue := q, taken := taken s @ [(p, False)], destructor := D_Sub\<rparr>)"
| "destructor_step Q mx s D_Sub = s\<lparr>leftover := leftover s - 1, destructor := D_Drain\<rparr>"
| "destructor_step Q mx s D_Members = s\<lparr>members_dead := True, destructor := D_Join\<rparr>"
| "destructor_step Q mx s D_Join =
     (if list_all (\<lambda>w. w = W_Gone) (workers s) then s\<lparr>destructor := D_End\<rparr> else s)"
| "destructor_step Q mx s D_End = s"

definition add_threads :: "u64 \<Rightarrow> ('p, 'q) ThreadPool \<Rightarrow> ('p, 'q) ThreadPool" where
  "add_threads num_threads s =
     s\<lparr>target_thread_count := target_thread_count s + num_threads,
       workers := workers s @ replicate (unat num_threads) W_Start\<rparr>"

text \<open>
  \<open>remove_threads\<close> loads the target, computes the new one and stores it. \<open>removals\<close> holds the new
  targets of the calls that have not stored yet; the calls of several threads may overlap.
\<close>

definition remove_threads :: "u64 \<Rightarrow> ('p, 'q) ThreadPool \<Rightarrow> ('p, 'q) ThreadPool" where
  "remove_threads num_threads s =
     (let current_target = target_thread_count s;
          new_target = if current_target > num_threads then current_target - num_threads else 0
      in s\<lparr>removals := removals s @ [new_target]\<rparr>)"

definition remove_threads_store :: "nat \<Rightarrow> ('p, 'q) ThreadPool \<Rightarrow> ('p, 'q) ThreadPool" where
  "remove_threads_store i s =
     s\<lparr>target_thread_count := removals s ! i, removals := take i (removals s) @ drop (Suc i) (removals s)\<rparr>"

definition get_thread_count :: "('p, 'q) ThreadPool \<Rightarrow> u64" where
  "get_thread_count s = active_threads s"

definition get_tasks_left :: "('p, 'q) ThreadPool \<Rightarrow> u64" where
  "get_tasks_left s = leftover s"

definition shutdown :: "('p, 'q) ThreadPool \<Rightarrow> ('p, 'q) ThreadPool" where
  "shutdown s = s\<lparr>stop := True\<rparr>"

subsection \<open>The machine\<close>

definition idle :: "'p ppc \<Rightarrow> bool" where
  "idle p = (case p of P_Ready _ \<Rightarrow> True | _ \<Rightarrow> False)"

datatype 'p pool_move =
    CallEnqueue nat 'p | RunCaller nat | RunWorker nat bool
  | AddThreads u64 | RemoveThreads u64 | StoreTarget nat | Shutdown | RunDestructor

text \<open>
  The members are called on a live pool only, and the destructor starts when no call of
  \<open>enqueue\<close> or \<open>remove_threads\<close> is in progress.
\<close>

fun pool_exec ::
  "('p, 'q) lf_ops \<Rightarrow> nat \<Rightarrow> 'p pool_move \<Rightarrow> ('p, 'q) ThreadPool \<Rightarrow> ('p, 'q) ThreadPool option" where
  "pool_exec Q mx (CallEnqueue i p) s =
     (if pool_ub s = None \<and> destructor s = D_None \<and> i < length (producers s) \<and> idle (producers s ! i)
      then Some (pgoto i (P_Check p) s) else None)"
| "pool_exec Q mx (RunCaller i) s =
     (if pool_ub s = None \<and> i < length (producers s)
      then Some (enqueue_call_step Q mx i s (producers s ! i)) else None)"
| "pool_exec Q mx (RunWorker i b) s =
     (if pool_ub s = None \<and> i < length (workers s)
      then Some (if members_dead s \<and> touches_dead (workers s ! i) then s\<lparr>pool_ub := Some DeadMember\<rparr>
                 else worker_step Q i b s (workers s ! i))
      else None)"
| "pool_exec Q mx (AddThreads n) s =
     (if pool_ub s = None \<and> destructor s = D_None then Some (add_threads n s) else None)"
| "pool_exec Q mx (RemoveThreads n) s =
     (if pool_ub s = None \<and> destructor s = D_None then Some (remove_threads n s) else None)"
| "pool_exec Q mx (StoreTarget i) s =
     (if pool_ub s = None \<and> i < length (removals s) then Some (remove_threads_store i s) else None)"
| "pool_exec Q mx Shutdown s =
     (if pool_ub s = None \<and> destructor s = D_None then Some (shutdown s) else None)"
| "pool_exec Q mx RunDestructor s =
     (if pool_ub s = None \<and> list_all idle (producers s) \<and> removals s = []
      then Some (destructor_step Q mx s (destructor s)) else None)"

definition pool_step ::
  "('p, 'q) lf_ops \<Rightarrow> nat \<Rightarrow> ('p, 'q) ThreadPool \<Rightarrow> ('p, 'q) ThreadPool \<Rightarrow> bool" where
  "pool_step Q mx s s' \<longleftrightarrow> (\<exists>x. pool_exec Q mx x s = Some s')"

fun pool_run ::
  "('p, 'q) lf_ops \<Rightarrow> nat \<Rightarrow> 'p pool_move list \<Rightarrow> ('p, 'q) ThreadPool \<Rightarrow> ('p, 'q) ThreadPool option" where
  "pool_run Q mx [] s = Some s"
| "pool_run Q mx (x # xs) s =
     (case pool_exec Q mx x s of None \<Rightarrow> None | Some s' \<Rightarrow> pool_run Q mx xs s')"

subsection \<open>Specification\<close>

fun running :: "'p wpc \<Rightarrow> bool" where
  "running (W_Run p) = True"
| "running W_Sub = True"
| "running _ = False"

definition counted :: "'p wpc \<Rightarrow> bool" where
  "counted w \<longleftrightarrow> w \<noteq> W_Start \<and> w \<noteq> W_Gone"

definition pushed :: "'p ppc \<Rightarrow> bool" where
  "pushed p \<longleftrightarrow> p = P_Count \<or> p = P_Release"

definition pool_init ::
  "('p, 'q) lf_ops \<Rightarrow> ('q \<Rightarrow> 'p list) \<Rightarrow> ('p, 'q) ThreadPool \<Rightarrow> bool" where
  "pool_init Q items s \<longleftrightarrow>
     lf_laws Q items \<and> (\<exists>n q k. s = ThreadPool_new n q k \<and> items q = [])"

text \<open>
  The accounts of a pool: permits against queued tasks, \<open>leftover\<close> against the tasks queued
  or running, \<open>active_threads\<close> against the workers inside their loop.
\<close>

definition permits_ok :: "('q \<Rightarrow> 'p list) \<Rightarrow> ('p, 'q) ThreadPool \<Rightarrow> bool" where
  "permits_ok items s \<longleftrightarrow> (destructor s = D_None \<longrightarrow>
     int (length (items (queue s))) =
       int (task_sem s) + int (cnt ((=) W_Pop) (workers s)) + int (cnt pushed (producers s)))"

definition leftover_ok :: "('q \<Rightarrow> 'p list) \<Rightarrow> ('p, 'q) ThreadPool \<Rightarrow> bool" where
  "leftover_ok items s \<longleftrightarrow>
     leftover s + of_nat (cnt ((=) P_Count) (producers s)) =
       of_nat (length (items (queue s))) + of_nat (cnt running (workers s)) +
       of_bool (destructor s = D_Sub)"

definition active_ok :: "('p, 'q) ThreadPool \<Rightarrow> bool" where
  "active_ok s \<longleftrightarrow> active_threads s = of_nat (cnt counted (workers s))"

definition order_ok :: "('q \<Rightarrow> 'p list) \<Rightarrow> ('p, 'q) ThreadPool \<Rightarrow> bool" where
  "order_ok items s \<longleftrightarrow> map fst (taken s) @ items (queue s) = submitted s"

definition phase_ok :: "('p, 'q) ThreadPool \<Rightarrow> bool" where
  "phase_ok s \<longleftrightarrow> (destructor s \<noteq> D_None \<longrightarrow> stop s \<and> list_all idle (producers s))"

definition pool_inv ::
  "('p, 'q) lf_ops \<Rightarrow> ('q \<Rightarrow> 'p list) \<Rightarrow> ('p, 'q) ThreadPool \<Rightarrow> bool" where
  "pool_inv Q items s \<longleftrightarrow>
     lf_laws Q items \<and> order_ok items s \<and> active_ok s \<and>
     (pool_ub s = None \<longrightarrow> permits_ok items s \<and> leftover_ok items s \<and> phase_ok s)"

text \<open>
  Runs in which nobody calls \<open>add_threads\<close> and no call of \<open>remove_threads\<close> starts during another.
\<close>

fun shrinking :: "'p pool_move \<Rightarrow> ('p, 'q) ThreadPool \<Rightarrow> bool" where
  "shrinking (AddThreads n) s = False"
| "shrinking (RemoveThreads n) s = (removals s = [])"
| "shrinking _ s = True"

definition shrink_step ::
  "('p, 'q) lf_ops \<Rightarrow> nat \<Rightarrow> ('p, 'q) ThreadPool \<Rightarrow> ('p, 'q) ThreadPool \<Rightarrow> bool" where
  "shrink_step Q mx s s' \<longleftrightarrow> (\<exists>x. shrinking x s \<and> pool_exec Q mx x s = Some s')"

definition shrink_inv :: "('p, 'q) ThreadPool \<Rightarrow> bool" where
  "shrink_inv s \<longleftrightarrow>
     active_ok s \<and> length (workers s) < 2 ^ 64 \<and> (W_Exit \<in> set (workers s) \<longrightarrow> stop s) \<and>
     (\<not> stop s \<longrightarrow> unat (target_thread_count s) \<le> cnt ((\<noteq>) W_Gone) (workers s)) \<and>
     (\<forall>old. W_Cas old \<in> set (workers s) \<longrightarrow> target_thread_count s < old) \<and>
     (removals s = [] \<or> (\<exists>t. removals s = [t] \<and> t \<le> target_thread_count s))"

text \<open>A list as a lock-free queue that never is full.\<close>

definition list_queue :: "('p, 'p list) lf_ops" where
  "list_queue = \<lparr>push_op = (\<lambda>p q. (True, q @ [p])),
     pop_op = (\<lambda>q. case q of [] \<Rightarrow> None | p # ps \<Rightarrow> Some (p, ps)), empty_op = (\<lambda>q. q = [])\<rparr>"

subsection \<open>Steps keep the accounts\<close>

lemma wgoto_sel [simp]:
  "queue (wgoto i w s) = queue s" "workers (wgoto i w s) = (workers s)[i := w]"
  "stop (wgoto i w s) = stop s" "active_threads (wgoto i w s) = active_threads s"
  "target_thread_count (wgoto i w s) = target_thread_count s" "task_sem (wgoto i w s) = task_sem s"
  "leftover (wgoto i w s) = leftover s" "producers (wgoto i w s) = producers s"
  "destructor (wgoto i w s) = destructor s" "members_dead (wgoto i w s) = members_dead s"
  "pool_ub (wgoto i w s) = pool_ub s" "submitted (wgoto i w s) = submitted s"
  "taken (wgoto i w s) = taken s" "removals (wgoto i w s) = removals s"
  by (simp_all add: wgoto_def)

lemma pgoto_sel [simp]:
  "queue (pgoto i p s) = queue s" "workers (pgoto i p s) = workers s"
  "stop (pgoto i p s) = stop s" "active_threads (pgoto i p s) = active_threads s"
  "target_thread_count (pgoto i p s) = target_thread_count s" "task_sem (pgoto i p s) = task_sem s"
  "leftover (pgoto i p s) = leftover s" "producers (pgoto i p s) = (producers s)[i := p]"
  "destructor (pgoto i p s) = destructor s" "members_dead (pgoto i p s) = members_dead s"
  "pool_ub (pgoto i p s) = pool_ub s" "submitted (pgoto i p s) = submitted s"
  "taken (pgoto i p s) = taken s" "removals (pgoto i p s) = removals s"
  by (simp_all add: pgoto_def)

lemma sem_release_sel [simp]:
  "queue (sem_release m n s) = queue s" "workers (sem_release m n s) = workers s"
  "stop (sem_release m n s) = stop s" "active_threads (sem_release m n s) = active_threads s"
  "target_thread_count (sem_release m n s) = target_thread_count s"
  "leftover (sem_release m n s) = leftover s" "producers (sem_release m n s) = producers s"
  "destructor (sem_release m n s) = destructor s" "members_dead (sem_release m n s) = members_dead s"
  "submitted (sem_release m n s) = submitted s" "taken (sem_release m n s) = taken s" "removals (sem_release m n s) = removals s"
  by (simp_all add: sem_release_def)

lemma sem_release_ub:
  "pool_ub (sem_release m n s) = None \<Longrightarrow> task_sem (sem_release m n s) = task_sem s + n"
  by (simp add: sem_release_def split: if_splits)

lemmas account_defs = permits_ok_def leftover_ok_def active_ok_def order_ok_def phase_ok_def

lemma lf_pushD:
  "lf_laws Q items \<Longrightarrow> push_op Q p q = (b, q') \<Longrightarrow> items q' = items q @ (if b then [p] else [])"
  unfolding lf_laws_def by (cases b) auto

lemma lf_popD: "lf_laws Q items \<Longrightarrow> pop_op Q q = Some (p, q') \<Longrightarrow> items q = p # items q'"
  unfolding lf_laws_def by blast

lemma lf_pop_None: "lf_laws Q items \<Longrightarrow> pop_op Q q = None \<longleftrightarrow> items q = []"
  unfolding lf_laws_def by blast

lemma no_pushed: "list_all idle ps \<Longrightarrow> cnt pushed ps = 0 \<and> cnt ((=) P_Count) ps = 0"
  by (induction ps) (auto simp: idle_def pushed_def split: ppc.splits)

text \<open>With a permit in hand and no destructor running there is a task to pop.\<close>

lemma permit_has_task:
  assumes "pool_inv Q items s" and "pool_ub s = None" and "destructor s = D_None"
    and "i < length (workers s)" and "workers s ! i = W_Pop"
  shows "pop_op Q (queue s) \<noteq> None"
proof -
  have "0 < cnt ((=) W_Pop) (workers s)" using assms(4,5) by (intro cnt_pos) auto
  with assms(1-3) have "items (queue s) \<noteq> []" by (auto simp: pool_inv_def permits_ok_def)
  with assms(1) lf_pop_None [of Q items "queue s"] show ?thesis by (simp add: pool_inv_def)
qed

lemma worker_step_inv:
  assumes inv: "pool_inv Q items s" and ub: "pool_ub s = None" and i: "i < length (workers s)"
    and pc: "workers s ! i = w"
  shows "pool_inv Q items (worker_step Q i b s w)"
proof -
  note upd = of_nat_cnt_update [OF i, where 'a = int] of_nat_cnt_update [OF i, where 'a = "64 word"] pc
  from inv have laws: "lf_laws Q items" by (simp add: pool_inv_def)
  show ?thesis
  proof (cases w)
    case W_Pop
    show ?thesis
    proof (cases "pop_op Q (queue s)")
      case None
      with permit_has_task [OF inv ub _ i] W_Pop pc have "destructor s \<noteq> D_None" by auto
      with None W_Pop inv ub show ?thesis
        by (auto simp: pool_inv_def account_defs upd counted_def)
    next
      case (Some pq)
      obtain p q where pq: "pq = (p, q)" by (cases pq)
      with lf_popD [OF laws] Some have "items (queue s) = p # items q" by blast
      with Some pq W_Pop inv ub show ?thesis
        by (auto simp: pool_inv_def account_defs upd counted_def)
    qed
  qed (use inv ub in \<open>auto simp: pool_inv_def account_defs upd counted_def of_nat_diff\<close>)
qed

lemma enqueue_call_inv:
  assumes inv: "pool_inv Q items s" and ub: "pool_ub s = None" and i: "i < length (producers s)"
    and pc: "producers s ! i = p"
  shows "pool_inv Q items (enqueue_call_step Q mx i s p)"
proof (cases "idle p")
  case True
  with inv show ?thesis by (cases p) (auto simp: idle_def)
next
  case False
  note upd = of_nat_cnt_update [OF i, where 'a = int] of_nat_cnt_update [OF i, where 'a = "64 word"] pc
  from inv have laws: "lf_laws Q items" by (simp add: pool_inv_def)
  have "\<not> list_all idle (producers s)" using i pc False by (auto simp: list_all_length)
  with inv ub have nod: "destructor s = D_None" by (auto simp: pool_inv_def phase_ok_def)
  show ?thesis
  proof (cases p)
    case (P_Push x)
    obtain ok q where pq: "push_op Q x (queue s) = (ok, q)" by (cases "push_op Q x (queue s)")
    with lf_pushD [OF laws] have "items q = items (queue s) @ (if ok then [x] else [])" by blast
    with pq P_Push inv ub nod show ?thesis
      by (cases ok) (auto simp: pool_inv_def account_defs upd pushed_def)
  next
    case P_Release
    with inv ub nod sem_release_ub [of mx 1 s] show ?thesis
      by (auto simp: pool_inv_def account_defs upd pushed_def)
  qed (use inv ub nod in \<open>auto simp: pool_inv_def account_defs upd pushed_def\<close>)
qed

lemma destructor_step_inv:
  assumes inv: "pool_inv Q items s" and ub: "pool_ub s = None" and idle: "list_all idle (producers s)"
  shows "pool_inv Q items (destructor_step Q mx s (destructor s))"
proof (cases "destructor s")
  case D_Drain
  from inv have laws: "lf_laws Q items" by (simp add: pool_inv_def)
  with D_Drain inv ub lf_popD [OF laws, of "queue s"] show ?thesis
    by (auto simp: pool_inv_def account_defs split: option.split)
qed (use inv ub idle no_pushed [OF idle] in \<open>auto simp: pool_inv_def account_defs\<close>)

lemma pool_exec_inv:
  assumes "pool_exec Q mx x s = Some s'" and inv: "pool_inv Q items s"
  shows "pool_inv Q items s'"
proof (cases x)
  case (CallEnqueue i p)
  with assms have "i < length (producers s)" by (auto split: if_splits)
  note upd = of_nat_cnt_update [OF this, where 'a = int] of_nat_cnt_update [OF this, where 'a = "64 word"]
  from assms CallEnqueue show ?thesis
    by (auto simp: pool_inv_def account_defs upd pushed_def idle_def split: if_splits ppc.splits)
next
  case (RunCaller i)
  with assms enqueue_call_inv [OF inv] show ?thesis by (auto split: if_splits)
next
  case (RunWorker i b)
  with assms worker_step_inv [OF inv] show ?thesis
    by (auto simp: pool_inv_def account_defs split: if_splits)
next
  case RunDestructor
  with assms destructor_step_inv [OF inv] show ?thesis by (auto split: if_splits)
qed (use assms in \<open>auto simp: pool_inv_def account_defs add_threads_def remove_threads_def
    remove_threads_store_def shutdown_def counted_def Let_def split: if_splits\<close>)

lemma pool_init_inv: "pool_init Q items s \<Longrightarrow> pool_inv Q items s"
  by (auto simp: pool_init_def pool_inv_def account_defs ThreadPool_new_def counted_def pushed_def)

interpretation pool: invariant_system "pool_init Q items" "pool_step Q mx" "pool_inv Q items" for Q items mx
  by unfold_locales (auto simp: pool_step_def intro: pool_init_inv pool_exec_inv)

subsection \<open>Shrinking\<close>

lemma active_le_live: "cnt counted ws \<le> cnt ((\<noteq>) W_Gone) ws"
  by (induction ws) (auto simp: counted_def)

lemma unat_active:
  assumes "active_ok s" and "length (workers s) < 2 ^ 64"
  shows "unat (active_threads s) = cnt counted (workers s)"
proof -
  have "cnt counted (workers s) < 2 ^ 64"
    using assms(2) cnt_le_length [of counted "workers s"] by (rule le_less_trans [rotated])
  with assms(1) show ?thesis by (simp add: active_ok_def unat_of_nat)
qed

lemma shrink_worker:
  assumes inv: "shrink_inv s" and i: "i < length (workers s)" and pc: "workers s ! i = w"
  shows "shrink_inv (worker_step Q i b s w)"
proof -
  have sub: "set ((workers s)[i := v]) \<subseteq> insert v (set (workers s))" for v
    by (rule set_update_subset_insert)
  have mem: "w \<in> set (workers s)" using i pc by auto
  have live: "cnt ((\<noteq>) W_Gone) ((workers s)[i := v]) + of_bool (w \<noteq> W_Gone) =
      cnt ((\<noteq>) W_Gone) (workers s) + of_bool (v \<noteq> W_Gone)" for v
    using cnt_update [OF i, of "(\<noteq>) W_Gone" v] pc by (auto split: if_splits)
  have same: "cnt ((\<noteq>) W_Gone) ((workers s)[i := v]) = cnt ((\<noteq>) W_Gone) (workers s)"
    if "v \<noteq> W_Gone" "w \<noteq> W_Gone" for v using live [of v] that by simp
  note upd = of_nat_cnt_update [OF i, where 'a = "64 word"] pc
  show ?thesis
  proof (cases w)
    case (W_Cas old)
    have "unat (target_thread_count s) < cnt ((\<noteq>) W_Gone) (workers s)" if "active_threads s = old"
      using that inv mem W_Cas unat_active [of s] active_le_live [of "workers s"]
      by (auto simp: shrink_inv_def word_less_nat_alt)
    with W_Cas inv live [of W_Gone] live [of W_Stop2] sub [of W_Gone] sub [of W_Stop2] show ?thesis
      by (auto simp: shrink_inv_def active_ok_def upd counted_def)
  next
    case W_Exit
    with inv mem sub [of W_Gone] show ?thesis
      by (auto simp: shrink_inv_def active_ok_def upd counted_def)
  qed (use inv in \<open>auto simp: shrink_inv_def active_ok_def upd counted_def same
      split: option.split dest!: subsetD [OF sub]\<close>)
qed

lemma shrink_lower:
  assumes "shrink_inv s" and "t \<le> target_thread_count s"
  shows "shrink_inv (s\<lparr>target_thread_count := t, removals := []\<rparr>)"
proof -
  from assms(2) have "unat t \<le> unat (target_thread_count s)" by (simp add: word_le_nat_alt)
  with assms show ?thesis by (auto simp: shrink_inv_def active_ok_def intro: le_less_trans)
qed

lemma shrink_exec:
  assumes "pool_exec Q mx x s = Some s'" and "shrinking x s" and inv: "shrink_inv s"
  shows "shrink_inv s'"
proof (cases x)
  case (RunWorker i b)
  with assms(1) shrink_worker [OF inv] inv show ?thesis
    by (auto simp: shrink_inv_def active_ok_def split: if_splits)
next
  case (RunCaller i)
  with assms(1) inv show ?thesis
    by (cases "producers s ! i")
      (auto simp: shrink_inv_def active_ok_def split: if_splits prod.splits bool.splits)
next
  case (RemoveThreads n)
  have "n < t \<Longrightarrow> t - n \<le> t" for t :: u64 by (simp add: word_sub_le)
  with RemoveThreads assms show ?thesis
    by (auto simp: remove_threads_def Let_def shrink_inv_def active_ok_def split: if_splits)
next
  case (StoreTarget i)
  with assms(1) inv obtain t where "removals s = [t]" "t \<le> target_thread_count s" "i = 0"
    by (auto simp: shrink_inv_def split: if_splits)
  with StoreTarget assms(1) shrink_lower [OF inv, of t] show ?thesis
    by (simp add: remove_threads_store_def split: if_splits)
next
  case RunDestructor
  with assms(1) inv show ?thesis
    by (cases "destructor s")
      (auto simp: shrink_inv_def active_ok_def split: if_splits option.splits)
qed (use assms in \<open>auto simp: shrink_inv_def active_ok_def shutdown_def split: if_splits\<close>)

lemma shrink_init: "pool_init Q items s \<Longrightarrow> shrink_inv s"
  by (auto simp: pool_init_def shrink_inv_def active_ok_def ThreadPool_new_def counted_def
      unsigned_less [where 'b = 64, simplified] set_replicate_conv_if split: if_splits)

interpretation shrink: invariant_system "pool_init Q items" "shrink_step Q mx" shrink_inv for Q items mx
  by unfold_locales (auto simp: shrink_step_def intro: shrink_init shrink_exec)

subsection \<open>Runs\<close>

lemma pool_run_reach:
  "pool_run Q mx xs s = Some s' \<Longrightarrow> reach (pool_init Q items) (pool_step Q mx) s \<Longrightarrow>
   reach (pool_init Q items) (pool_step Q mx) s'"
proof (induction xs arbitrary: s)
  case (Cons x xs)
  from Cons.prems(1) obtain t where t: "pool_exec Q mx x s = Some t" "pool_run Q mx xs t = Some s'"
    by (auto split: option.splits)
  then have "pool_step Q mx s t" by (auto simp: pool_step_def)
  with Cons.prems(2) Cons.IH [OF t(2)] show ?case by (auto intro: reach.reach_step)
qed simp

lemma list_queue_laws: "lf_laws list_queue id"
  by (auto simp: lf_laws_def list_queue_def split: list.splits)

lemma list_pool_init: "pool_init list_queue id (ThreadPool_new n [] k)"
  using list_queue_laws by (auto simp: pool_init_def)

lemma list_pool_reach:
  assumes "pool_run list_queue mx xs (ThreadPool_new n [] k) = Some s"
  shows "reach (pool_init list_queue id) (pool_step list_queue mx) s"
  by (rule pool_run_reach [OF assms]) (rule reach.reach_init, rule list_pool_init)

lemma pushed_split: "cnt pushed ps = cnt ((=) P_Count) ps + cnt ((=) P_Release) ps"
  by (induction ps) (auto simp: pushed_def)

lemma pool_run_Cons:
  "pool_exec Q mx x s = Some t \<Longrightarrow> pool_run Q mx (x # xs) s = pool_run Q mx xs t"
  by simp

subsection \<open>Properties\<close>

text \<open>C5: in every reachable state of a pool that is not being destroyed, under every
  interleaving, the permits of the semaphore, the workers that hold one and the calls of
  \<open>enqueue\<close> that still owe one together number exactly the queued tasks: no wake-up is lost
  and none is spurious. The counter behind \<open>get_tasks_left\<close> is the number of tasks that were
  announced and have not finished, so it never underflows.\<close>

theorem pool_accounts:
  assumes "reach (pool_init Q items) (pool_step Q mx) s" and "pool_ub s = None"
    and "destructor s = D_None"
  shows "length (items (queue s)) =
       task_sem s + cnt ((=) W_Pop) (workers s) + cnt pushed (producers s) \<and>
     get_tasks_left s = of_nat (task_sem s + cnt ((=) W_Pop) (workers s) +
       cnt ((=) P_Release) (producers s) + cnt running (workers s))"
proof -
  from pool.reach_inv [OF assms(1)] assms(2,3) have
    p: "int (length (items (queue s))) =
       int (task_sem s + cnt ((=) W_Pop) (workers s) + cnt pushed (producers s))"
    and l: "leftover s + of_nat (cnt ((=) P_Count) (producers s)) =
       of_nat (length (items (queue s))) + of_nat (cnt running (workers s))"
    by (auto simp: pool_inv_def permits_ok_def leftover_ok_def)
  from p have len: "length (items (queue s)) =
      task_sem s + cnt ((=) W_Pop) (workers s) + cnt pushed (producers s)" by linarith
  with l show ?thesis
    by (simp add: get_tasks_left_def pushed_split algebra_simps)
qed

theorem pool_accounts_witness:
  "\<exists>s. reach (pool_init list_queue id) (pool_step list_queue 1) (s :: (nat, nat list) ThreadPool) \<and>
     length (queue s) = 1 \<and> task_sem s = 1 \<and> get_tasks_left s = 1"
proof -
  let ?xs = "CallEnqueue 0 7 # replicate 4 (RunCaller 0) :: nat pool_move list"
  have "map_option (\<lambda>s. (pool_ub s, destructor s, task_sem s, workers s, producers s))
      (pool_run list_queue 1 ?xs (ThreadPool_new 1 [] 1)) =
      Some (None, D_None, 1, [W_Start], [P_Ready Accepted])" by code_simp
  then obtain s where run: "pool_run list_queue 1 ?xs (ThreadPool_new 1 [] 1) = Some s"
    and st: "pool_ub s = None" "destructor s = D_None" "task_sem s = 1" "workers s = [W_Start]"
      "producers s = [P_Ready Accepted]" by auto
  from list_pool_reach [OF run] have r: "reach (pool_init list_queue id) (pool_step list_queue 1) s" .
  from pool_accounts [OF r st(1,2)] r st(3-) show ?thesis
    by (intro exI [of _ s]) (simp add: pushed_def)
qed

text \<open>A worker that obtained a permit always finds a task, so the \<open>pop\<close> behind
  \<open>try_acquire_for\<close> does not fail while the pool is not being destroyed.\<close>

theorem acquired_permit_pops:
  assumes "reach (pool_init Q items) (pool_step Q mx) s" and "pool_ub s = None"
    and "destructor s = D_None" and "i < length (workers s)" and "workers s ! i = W_Pop"
  shows "\<exists>p s'. pool_exec Q mx (RunWorker i b) s = Some s' \<and> workers s' ! i = W_Run p \<and>
     items (queue s) = p # items (queue s')"
proof -
  have inv: "pool_inv Q items s" by (rule pool.reach_inv [OF assms(1)])
  from permit_has_task [OF this assms(2-5)] obtain p q where pq: "pop_op Q (queue s) = Some (p, q)"
    by auto
  moreover from inv have "items (queue s) = p # items q"
    using lf_popD [OF _ pq] by (simp add: pool_inv_def)
  ultimately show ?thesis using assms by auto
qed

theorem acquired_permit_pops_witness:
  "\<exists>s s'. reach (pool_init list_queue id) (pool_step list_queue 1) (s :: (nat, nat list) ThreadPool) \<and>
     workers s ! 0 = W_Pop \<and> pool_exec list_queue 1 (RunWorker 0 False) s = Some s' \<and>
     workers s' ! 0 = W_Run 7"
proof -
  let ?xs = "CallEnqueue 0 7 # replicate 4 (RunCaller 0) @ replicate 3 (RunWorker 0 True) :: nat pool_move list"
  have "map_option (\<lambda>s. (pool_ub s, destructor s, workers s, queue s))
      (pool_run list_queue 1 ?xs (ThreadPool_new 1 [] 1)) =
      Some (None, D_None, [W_Pop], [7])" by code_simp
  then obtain s where run: "pool_run list_queue 1 ?xs (ThreadPool_new 1 [] 1) = Some s"
    and st: "pool_ub s = None" "destructor s = D_None" "workers s = [W_Pop]" "queue s = [7]" by auto
  from list_pool_reach [OF run] have r: "reach (pool_init list_queue id) (pool_step list_queue 1) s" .
  from acquired_permit_pops [OF r st(1,2), of 0 False] st(3,4) obtain p s' where
    "pool_exec list_queue 1 (RunWorker 0 False) s = Some s'" "workers s' ! 0 = W_Run p" "p = 7"
    by (auto simp del: pool_exec.simps)
  with r st(3) show ?thesis by (intro exI [of _ s] exI [of _ s']) simp
qed

text \<open>Under every interleaving, tasks leave the queue in the order in which they were
  submitted and each at most once: the tasks taken so far, by a worker to run them or by the
  destructor to delete them, followed by those still queued, are the tasks submitted.\<close>

theorem tasks_taken_once_in_order:
  assumes "reach (pool_init Q items) (pool_step Q mx) s"
  shows "map fst (taken s) @ items (queue s) = submitted s"
  using pool.reach_inv [OF assms] by (simp add: pool_inv_def order_ok_def)

theorem tasks_taken_once_in_order_witness:
  "\<exists>s. reach (pool_init list_queue id) (pool_step list_queue 2) (s :: (nat, nat list) ThreadPool) \<and>
     submitted s = [7, 8] \<and> map fst (taken s) @ queue s = [7, 8] \<and> taken s = [(7, True)]"
proof -
  let ?xs = "CallEnqueue 0 7 # replicate 4 (RunCaller 0) @ CallEnqueue 0 8 # replicate 4 (RunCaller 0)
    @ replicate 4 (RunWorker 0 True) :: nat pool_move list"
  have "map_option (\<lambda>s. (submitted s, taken s))
      (pool_run list_queue 2 ?xs (ThreadPool_new 1 [] 1)) = Some ([7, 8], [(7, True)])" by code_simp
  then obtain s where run: "pool_run list_queue 2 ?xs (ThreadPool_new 1 [] 1) = Some s"
    and st: "submitted s = [7, 8]" "taken s = [(7, True)]" by auto
  from list_pool_reach [OF run] have r: "reach (pool_init list_queue id) (pool_step list_queue 2) s" .
  from tasks_taken_once_in_order [OF r] r st show ?thesis by auto
qed

text \<open>C9: while nobody adds threads, the calls of \<open>remove_threads\<close> do not overlap and the pool is
  not stopped, removing threads never shrinks the pool below its target, whichever workers race
  for the exit: the workers that have not left are at least \<open>target_thread_count\<close> many, a call of
  \<open>remove_threads\<close> in progress is about to lower the target, and \<open>get_thread_count\<close> is the exact
  number of workers inside their loop.\<close>

theorem pool_keeps_target:
  assumes "reach (pool_init Q items) (shrink_step Q mx) s" and "\<not> stop s"
  shows "unat (target_thread_count s) \<le> cnt ((\<noteq>) W_Gone) (workers s) \<and>
     (\<forall>t \<in> set (removals s). t \<le> target_thread_count s) \<and>
     unat (get_thread_count s) = cnt counted (workers s)"
  using shrink.reach_inv [OF assms(1)] assms(2) unat_active [of s]
  by (auto simp: shrink_inv_def get_thread_count_def)

theorem pool_keeps_target_witness:
  "\<exists>s. reach (pool_init list_queue id) (shrink_step list_queue 1) (s :: (nat, nat list) ThreadPool) \<and>
     unat (target_thread_count s) = 2 \<and> unat (target_thread_count s) \<le> cnt ((\<noteq>) W_Gone) (workers s)"
proof -
  let ?R = "reach (pool_init list_queue id) (shrink_step list_queue 1)"
  let ?s = "ThreadPool_new 3 [] 1 :: (nat, nat list) ThreadPool"
  let ?t = "remove_threads 1 ?s"
  let ?u = "remove_threads_store 0 ?t"
  have r: "?R ?s" by (rule reach.reach_init) (rule list_pool_init)
  have "shrink_step list_queue 1 ?s ?t" unfolding shrink_step_def
    by (rule exI [of _ "RemoveThreads 1"]) (simp add: ThreadPool_new_def)
  with r have r: "?R ?t" by (rule reach.reach_step)
  have "shrink_step list_queue 1 ?t ?u" unfolding shrink_step_def
    by (rule exI [of _ "StoreTarget 0"]) (simp add: ThreadPool_new_def remove_threads_def Let_def)
  with r have r: "?R ?u" by (rule reach.reach_step)
  have "\<not> stop ?u" "unat (target_thread_count ?u) = 2"
    by (simp_all add: ThreadPool_new_def remove_threads_def remove_threads_store_def Let_def)
  with pool_keeps_target [OF r] r show ?thesis by blast
qed

text \<open>C32: two runs in which the pool ends with fewer workers than its target. With a concurrent
  \<open>add_threads\<close> the compare-and-swap on \<open>active_threads\<close> does not protect the target: two workers read the same count, one leaves, the
  added thread raises the count to the value read, and the other leaves too. And of two
  overlapping calls of \<open>remove_threads\<close> the second store undoes the first after workers have
  left: a pool of 4 asked to give up 3 threads and 1 thread ends with one worker and target 3.
  Nothing starts workers again.\<close>

theorem target_lost:
  "(\<exists>s. reach (pool_init list_queue id) (pool_step list_queue 1) (s :: (nat, nat list) ThreadPool) \<and>
     \<not> stop s \<and> length (workers s) = 3 \<and> cnt ((\<noteq>) W_Gone) (workers s) = 1 \<and> target_thread_count s = 2) \<and>
   (\<exists>s. reach (pool_init list_queue id) (pool_step list_queue 1) (s :: (nat, nat list) ThreadPool) \<and>
     \<not> stop s \<and> length (workers s) = 4 \<and> cnt ((\<noteq>) W_Gone) (workers s) = 1 \<and> target_thread_count s = 3 \<and>
     removals s = [])"
proof
  let ?w = "\<lambda>i n. replicate n (RunWorker i False) :: nat pool_move list"
  let ?xs = "?w 0 1 @ ?w 1 1 @ [RemoveThreads 1, StoreTarget 0] @ ?w 0 6 @ ?w 1 6 @ [AddThreads 1] @ ?w 0 1 @ ?w 2 1 @ ?w 1 1"
  have "map_option (\<lambda>s. (stop s, length (workers s), cnt ((\<noteq>) W_Gone) (workers s), target_thread_count s))
      (pool_run list_queue 1 ?xs (ThreadPool_new 2 [] 1)) = Some (False, 3, 1, 2)" by code_simp
  then obtain s where run: "pool_run list_queue 1 ?xs (ThreadPool_new 2 [] 1) = Some s"
    and st: "\<not> stop s" "length (workers s) = 3" "cnt ((\<noteq>) W_Gone) (workers s) = 1" "target_thread_count s = 2" by auto
  from list_pool_reach [OF run] st
  show "\<exists>s. reach (pool_init list_queue id) (pool_step list_queue 1) (s :: (nat, nat list) ThreadPool) \<and>
     \<not> stop s \<and> length (workers s) = 3 \<and> cnt ((\<noteq>) W_Gone) (workers s) = 1 \<and> target_thread_count s = 2" by blast
next
  let ?w = "\<lambda>i n. replicate n (RunWorker i False) :: nat pool_move list"
  let ?xs = "?w 0 1 @ ?w 1 1 @ ?w 2 1 @ ?w 3 1 @ [RemoveThreads 3, RemoveThreads 1, StoreTarget 0] @
    ?w 0 7 @ ?w 1 7 @ ?w 2 7 @ [StoreTarget 0]"
  have "map_option (\<lambda>s. (stop s, length (workers s), cnt ((\<noteq>) W_Gone) (workers s), target_thread_count s, removals s))
      (pool_run list_queue 1 ?xs (ThreadPool_new 4 [] 1)) = Some (False, 4, 1, 3, [])" by code_simp
  then obtain s where run: "pool_run list_queue 1 ?xs (ThreadPool_new 4 [] 1) = Some s"
    and st: "\<not> stop s" "length (workers s) = 4" "cnt ((\<noteq>) W_Gone) (workers s) = 1" "target_thread_count s = 3"
      "removals s = []" by auto
  from list_pool_reach [OF run] st
  show "\<exists>s. reach (pool_init list_queue id) (pool_step list_queue 1) (s :: (nat, nat list) ThreadPool) \<and>
     \<not> stop s \<and> length (workers s) = 4 \<and> cnt ((\<noteq>) W_Gone) (workers s) = 1 \<and> target_thread_count s = 3 \<and>
     removals s = []" by blast
qed

text \<open>One call of \<open>enqueue\<close> that is not interleaved with others. On a stopped pool it throws
  and changes nothing; on a running pool whose queue accepts the task and whose semaphore
  has room it queues the task, counts it and releases one permit; if the queue refuses and
  the pool is stopped meanwhile it throws and the task is not queued.\<close>

theorem enqueue_outcome:
  assumes "pool_ub s = None" and "destructor s = D_None" and "i < length (producers s)"
    and "idle (producers s ! i)"
  shows "(stop s \<longrightarrow> pool_run Q mx [CallEnqueue i p, RunCaller i] s =
       Some (pgoto i (P_Ready PoolStopped) s)) \<and>
     (\<not> stop s \<longrightarrow> push_op Q p (queue s) = (True, q) \<longrightarrow> task_sem s < mx \<longrightarrow>
       pool_run Q mx (CallEnqueue i p # replicate 4 (RunCaller i)) s =
         Some (pgoto i (P_Ready Accepted) (s\<lparr>queue := q, submitted := submitted s @ [p],
           leftover := leftover s + 1, task_sem := Suc (task_sem s)\<rparr>))) \<and>
     (\<not> stop s \<longrightarrow> push_op Q p (queue s) = (False, q) \<longrightarrow>
       pool_run Q mx [CallEnqueue i p, RunCaller i, RunCaller i, Shutdown, RunCaller i] s =
         Some (pgoto i (P_Ready PoolStopped) (s\<lparr>queue := q, stop := True\<rparr>)))"
  using assms by (simp add: numeral_eq_Suc pgoto_def shutdown_def sem_release_def)

theorem enqueue_outcome_witness:
  "pool_run list_queue 1 [CallEnqueue 0 7, RunCaller 0]
     (shutdown (ThreadPool_new 1 [] 1 :: (nat, nat list) ThreadPool)) =
   Some (pgoto 0 (P_Ready PoolStopped) (shutdown (ThreadPool_new 1 [] 1)))"
  using enqueue_outcome [of "shutdown (ThreadPool_new 1 [] 1 :: (nat, nat list) ThreadPool)" 0 list_queue 1 7]
  by (simp add: shutdown_def ThreadPool_new_def idle_def)

text \<open>The semaphore is binary, but \<open>enqueue\<close> releases it once per task: two calls before a
  worker waits make its counter exceed the only maximum that \<open>std::binary_semaphore\<close>
  guarantees, which is undefined behaviour. The destructor of a pool with two or more threads
  does the same at once.\<close>

theorem semaphore_overflow:
  "(\<exists>s. reach (pool_init list_queue id) (pool_step list_queue 1) (s :: (nat, nat list) ThreadPool) \<and>
     pool_ub s = Some SemOverflow \<and> submitted s = [7, 8] \<and> destructor s = D_None) \<and>
   (\<exists>s. reach (pool_init list_queue id) (pool_step list_queue 1) (s :: (nat, nat list) ThreadPool) \<and>
     pool_ub s = Some SemOverflow \<and> submitted s = [] \<and> length (workers s) = 2)"
proof
  let ?xs = "CallEnqueue 0 7 # replicate 4 (RunCaller 0) @ CallEnqueue 0 8 # replicate 4 (RunCaller 0)
    :: nat pool_move list"
  have "map_option (\<lambda>s. (pool_ub s, submitted s, destructor s))
      (pool_run list_queue 1 ?xs (ThreadPool_new 1 [] 1)) = Some (Some SemOverflow, [7, 8], D_None)"
    by code_simp
  then obtain s where run: "pool_run list_queue 1 ?xs (ThreadPool_new 1 [] 1) = Some s"
    and st: "pool_ub s = Some SemOverflow" "submitted s = [7, 8]" "destructor s = D_None" by auto
  from list_pool_reach [OF run] st
  show "\<exists>s. reach (pool_init list_queue id) (pool_step list_queue 1) (s :: (nat, nat list) ThreadPool) \<and>
     pool_ub s = Some SemOverflow \<and> submitted s = [7, 8] \<and> destructor s = D_None" by blast
next
  let ?xs = "[RunDestructor, RunDestructor] :: nat pool_move list"
  have "map_option (\<lambda>s. (pool_ub s, submitted s, length (workers s)))
      (pool_run list_queue 1 ?xs (ThreadPool_new 2 [] 1)) = Some (Some SemOverflow, [], 2)"
    by code_simp
  then obtain s where run: "pool_run list_queue 1 ?xs (ThreadPool_new 2 [] 1) = Some s"
    and st: "pool_ub s = Some SemOverflow" "submitted s = []" "length (workers s) = 2" by auto
  from list_pool_reach [OF run] st
  show "\<exists>s. reach (pool_init list_queue id) (pool_step list_queue 1) (s :: (nat, nat list) ThreadPool) \<and>
     pool_ub s = Some SemOverflow \<and> submitted s = [] \<and> length (workers s) = 2" by blast
qed

text \<open>The destructor's drain loop ends after one \<open>pop\<close> per queued task and one that finds the
  queue empty; it deletes exactly the queued tasks, in order, without running any, and
  subtracts each from the counter.\<close>

theorem drain_terminates:
  assumes "lf_laws Q items" and "pool_ub s = None" and "list_all idle (producers s)"
    and "removals s = []" and "destructor s = D_Drain"
  shows "\<exists>s'. pool_run Q mx (replicate (2 * length (items (queue s)) + 1) RunDestructor) s = Some s' \<and>
     destructor s' = D_Members \<and> items (queue s') = [] \<and> workers s' = workers s \<and>
     taken s' = taken s @ map (\<lambda>p. (p, False)) (items (queue s)) \<and>
     leftover s' = leftover s - of_nat (length (items (queue s)))"
  using assms(2-)
proof (induction "items (queue s)" arbitrary: s)
  case Nil
  with lf_pop_None [OF assms(1), of "queue s"] show ?case by simp
next
  case (Cons p ps)
  with lf_pop_None [OF assms(1), of "queue s"] obtain p' q where pop: "pop_op Q (queue s) = Some (p', q)"
    by (cases "pop_op Q (queue s)") auto
  with lf_popD [OF assms(1) pop] Cons.hyps(2) have q: "p' = p" "items q = ps" by simp_all
  let ?s = "s\<lparr>queue := q, taken := taken s @ [(p, False)], leftover := leftover s - 1, destructor := D_Drain\<rparr>"
  have two: "pool_run Q mx (RunDestructor # RunDestructor # xs) s = pool_run Q mx xs ?s" for xs
    using Cons.prems pop q by simp
  from Cons.hyps(1) [of ?s] Cons.prems q obtain s' where
    "pool_run Q mx (replicate (2 * length ps + 1) RunDestructor) ?s = Some s'"
    "destructor s' = D_Members" "items (queue s') = []" "workers s' = workers s"
    "taken s' = taken s @ (p, False) # map (\<lambda>p. (p, False)) ps"
    "leftover s' = leftover s - 1 - of_nat (length ps)"
    by auto
  moreover have "2 * length (items (queue s)) + 1 = Suc (Suc (2 * length ps + 1))"
    using Cons.hyps(2) by (metis add_Suc_right length_Cons mult_2 add_Suc plus_1_eq_Suc add.commute)
  ultimately show ?case
    using Cons.hyps(2) [symmetric] two by (simp del: pool_run.simps)
qed

theorem drain_terminates_witness:
  "\<exists>s'. pool_run list_queue 1 (replicate 5 RunDestructor)
       ((ThreadPool_new 1 [7, 8] 1 :: (nat, nat list) ThreadPool)\<lparr>destructor := D_Drain, leftover := 2\<rparr>) = Some s' \<and>
     taken s' = [(7, False), (8, False)] \<and> leftover s' = 0"
  using drain_terminates [OF list_queue_laws, of
    "(ThreadPool_new 1 [7, 8] 1 :: (nat, nat list) ThreadPool)\<lparr>destructor := D_Drain, leftover := 2\<rparr>" 1]
  by (auto simp: ThreadPool_new_def idle_def simp del: pool_run.simps)

text \<open>C35: members are destroyed in reverse order of declaration, so the semaphore and the stop
  flag are gone before the vector of threads joins the workers: there is a run in which the
  destructor's body has returned and a worker reads a destroyed member.\<close>

theorem members_destroyed_before_join:
  "\<exists>s. reach (pool_init list_queue id) (pool_step list_queue 1) (s :: (nat, nat list) ThreadPool) \<and>
     pool_ub s = Some DeadMember \<and> destructor s = D_Join \<and> workers s = [W_Wait]"
proof -
  let ?xs = "replicate 2 (RunWorker 0 False) @ replicate 4 RunDestructor @ [RunWorker 0 False] :: nat pool_move list"
  have "map_option (\<lambda>s. (pool_ub s, destructor s, workers s))
      (pool_run list_queue 1 ?xs (ThreadPool_new 1 [] 1)) = Some (Some DeadMember, D_Join, [W_Wait])"
    by code_simp
  then obtain s where run: "pool_run list_queue 1 ?xs (ThreadPool_new 1 [] 1) = Some s"
    and st: "pool_ub s = Some DeadMember" "destructor s = D_Join" "workers s = [W_Wait]" by auto
  from list_pool_reach [OF run] st show ?thesis by blast
qed

end
