(* ===== verification/Executor_Pool.thy ===== *)
theory Executor_Pool
  imports Task_Executor Thread_Pool
begin

text \<open>
  The executor together with the pool it owns: \<open>execute_task\<close> is a call of the pool's \<open>enqueue\<close>,
  made by a client or, for a retry, by the thread that runs the event loop; the worker that takes
  the closure runs \<open>run_task\<close> in it. The pool is private to the executor, so \<open>enqueue\<close> and the
  workers are all there is of it while the executor lives.

  \<open>Task_Executor\<close> sees the pool as the collection of the closures handed to it. Here that
  view is shown to be right: every run of the composed machine is a run of the executor over that
  collection and a run of the pool, so what holds of the one and of the other holds of both
  together.
\<close>

subsection \<open>State\<close>

text \<open>
  Where a worker that runs a closure stands in it: not yet in \<open>run_task\<close>, in the activation with
  the given index, or returned from the part before the \<open>try\<close> block.
\<close>

datatype activation = NotYet | Inside nat | Over

record ('j, 'f, 'q) ExecutorPool =
  ex :: "('j, 'f) TaskExecutor"
  tp :: "(nat, 'q) ThreadPool"
  acts :: "activation list"

text \<open>The pool has one worker per hardware thread; caller 0 of \<open>enqueue\<close> is the event loop.\<close>

definition ExecutorPool_new ::
  "u64 \<Rightarrow> 'q \<Rightarrow> nat \<Rightarrow> (string \<rightharpoonup> 'f) \<Rightarrow> (nat \<Rightarrow> 'j Task) \<Rightarrow> u64 \<Rightarrow> ('j, 'f, 'q) ExecutorPool" where
  "ExecutorPool_new hardware_concurrency q clients fs ts now =
     \<lparr>ex = TaskExecutor_new fs ts now, tp = ThreadPool_new hardware_concurrency q (Suc clients),
      acts = replicate (unat hardware_concurrency) NotYet\<rparr>"

subsection \<open>Steps\<close>

text \<open>
  The closure that the executor's step submits, if any, becomes the argument of a call of
  \<open>enqueue\<close> by thread \<open>k\<close>, which must not be in another call.
\<close>

definition hand_over ::
  "(nat, 'q) lf_ops \<Rightarrow> nat \<Rightarrow> nat \<Rightarrow> ('j, 'f, 'q) ExecutorPool \<Rightarrow> ('j, 'f, 'q) ExecutorPool option" where
  "hand_over Q mx k c =
     (case runnable (ex c) of
        [] \<Rightarrow> Some c
      | t # _ \<Rightarrow> map_option (\<lambda>p. c\<lparr>ex := (ex c)\<lparr>runnable := []\<rparr>, tp := p\<rparr>)
          (pool_exec Q mx (CallEnqueue k t) (tp c)))"

definition by_executor ::
  "(nat, 'q) lf_ops \<Rightarrow> nat \<Rightarrow> 'j \<Rightarrow> nat \<Rightarrow> ('j, 'f) exec_action \<Rightarrow>
   ('j, 'f, 'q) ExecutorPool \<Rightarrow> ('j, 'f, 'q) ExecutorPool option" where
  "by_executor Q mx null k x c =
     (case exec_move null x (ex c) of
        None \<Rightarrow> None
      | Some s \<Rightarrow> hand_over Q mx k (c\<lparr>ex := s\<rparr>))"

definition by_pool ::
  "(nat, 'q) lf_ops \<Rightarrow> nat \<Rightarrow> nat pool_move \<Rightarrow>
   ('j, 'f, 'q) ExecutorPool \<Rightarrow> ('j, 'f, 'q) ExecutorPool option" where
  "by_pool Q mx x c = map_option (\<lambda>p. c\<lparr>tp := p\<rparr>) (pool_exec Q mx x (tp c))"

definition is_running :: "'p wpc \<Rightarrow> bool" where
  "is_running w = (case w of W_Run _ \<Rightarrow> True | _ \<Rightarrow> False)"

definition returned :: "('j, 'f) TaskExecutor \<Rightarrow> activation \<Rightarrow> bool" where
  "returned s a =
     (case a of NotYet \<Rightarrow> False | Over \<Rightarrow> True | Inside r \<Rightarrow> snd (runs s ! r) = R_Done)"

text \<open>The call of the closure: the part of \<open>run_task\<close> before the \<open>try\<close> block.\<close>

definition enter_task :: "'j \<Rightarrow> nat \<Rightarrow> nat \<Rightarrow> ('j, 'f, 'q) ExecutorPool \<Rightarrow> ('j, 'f, 'q) ExecutorPool" where
  "enter_task null i t c =
     (let s = run_task_enter null t ((ex c)\<lparr>started := (started (ex c))(t := Suc (started (ex c) t))\<rparr>)
      in c\<lparr>ex := s, acts := (acts c)[i := if length (runs (ex c)) < length (runs s)
                                      then Inside (length (runs (ex c))) else Over]\<rparr>)"

datatype ('j, 'f) ep_action =
    ClientSubmit nat nat | LoopFire nat | Register string 'f | Clock int | TimerExpires nat
  | EnterTask nat | RunTask nat "'j outcome" | LeaveTask nat | PoolWorker nat bool | PoolCaller nat

text \<open>
  An exception that is no \<open>std::exception\<close> leaves \<open>run_task\<close> and the worker's function: the
  process terminates, in the pool as a task that throws.
\<close>

fun ep_move ::
  "(nat, 'q) lf_ops \<Rightarrow> nat \<Rightarrow> 'j \<Rightarrow> ('j, 'f) ep_action \<Rightarrow>
   ('j, 'f, 'q) ExecutorPool \<Rightarrow> ('j, 'f, 'q) ExecutorPool option" where
  "ep_move Q mx null (ClientSubmit k t) c =
     (if pool_ub (tp c) = None \<and> 0 < k then by_executor Q mx null k (Submit t) c else None)"
| "ep_move Q mx null (LoopFire j) c =
     (if pool_ub (tp c) = None \<and> 0 < length (producers (tp c)) \<and> idle (producers (tp c) ! 0)
      then by_executor Q mx null 0 (Fire j) c else None)"
| "ep_move Q mx null (Register name f) c =
     (if pool_ub (tp c) = None then by_executor Q mx null 0 (AddFunction name f) c else None)"
| "ep_move Q mx null (Clock ns) c =
     (if pool_ub (tp c) = None then by_executor Q mx null 0 (Tick ns) c else None)"
| "ep_move Q mx null (TimerExpires j) c =
     (if pool_ub (tp c) = None then by_executor Q mx null 0 (Expire j) c else None)"
| "ep_move Q mx null (EnterTask i) c =
     (if pool_ub (tp c) = None \<and> i < length (workers (tp c)) \<and> acts c ! i = NotYet
      then (case workers (tp c) ! i of W_Run t \<Rightarrow> Some (enter_task null i t c) | _ \<Rightarrow> None) else None)"
| "ep_move Q mx null (RunTask i out) c =
     (if pool_ub (tp c) = None \<and> i < length (workers (tp c)) \<and> is_running (workers (tp c) ! i)
      then (case acts c ! i of
          Inside r \<Rightarrow>
            (case exec_move null (StepRun r out) (ex c) of
               None \<Rightarrow> None
             | Some s \<Rightarrow> if terminated s then by_pool Q mx (RunWorker i True) (c\<lparr>ex := s\<rparr>)
                 else Some (c\<lparr>ex := s\<rparr>))
        | _ \<Rightarrow> None)
      else None)"
| "ep_move Q mx null (LeaveTask i) c =
     (if i < length (workers (tp c)) \<and> is_running (workers (tp c) ! i) \<and> returned (ex c) (acts c ! i)
      then by_pool Q mx (RunWorker i False) (c\<lparr>acts := (acts c)[i := NotYet]\<rparr>) else None)"
| "ep_move Q mx null (PoolWorker i b) c =
     (if i < length (workers (tp c)) \<and> \<not> is_running (workers (tp c) ! i)
      then by_pool Q mx (RunWorker i b) c else None)"
| "ep_move Q mx null (PoolCaller k) c = by_pool Q mx (RunCaller k) c"

definition ep_step ::
  "(nat, 'q) lf_ops \<Rightarrow> nat \<Rightarrow> 'j \<Rightarrow> ('j, 'f, 'q) ExecutorPool \<Rightarrow> ('j, 'f, 'q) ExecutorPool \<Rightarrow> bool" where
  "ep_step Q mx null c c' \<longleftrightarrow> (\<exists>x. ep_move Q mx null x c = Some c')"

fun ep_run ::
  "(nat, 'q) lf_ops \<Rightarrow> nat \<Rightarrow> 'j \<Rightarrow> ('j, 'f) ep_action list \<Rightarrow>
   ('j, 'f, 'q) ExecutorPool \<Rightarrow> ('j, 'f, 'q) ExecutorPool option" where
  "ep_run Q mx null [] c = Some c"
| "ep_run Q mx null (x # xs) c =
     (case ep_move Q mx null x c of None \<Rightarrow> None | Some c' \<Rightarrow> ep_run Q mx null xs c')"

subsection \<open>Specification\<close>

definition ep_init ::
  "(nat, 'q) lf_ops \<Rightarrow> ('q \<Rightarrow> nat list) \<Rightarrow> (nat \<Rightarrow> 'j Task) \<Rightarrow> ('j, 'f, 'q) ExecutorPool \<Rightarrow> bool" where
  "ep_init Q items ts c \<longleftrightarrow>
     lf_laws Q items \<and> (\<exists>n q k fs now. c = ExecutorPool_new n q k fs ts now \<and> items q = [])"

text \<open>The closures on their way: in a call of \<open>enqueue\<close>, in the queue, popped but not entered.\<close>

fun in_call :: "'p ppc \<Rightarrow> 'p list" where
  "in_call (P_Check p) = [p]"
| "in_call (P_Push p) = [p]"
| "in_call (P_Recheck p) = [p]"
| "in_call _ = []"

fun in_hand :: "'p wpc \<times> activation \<Rightarrow> 'p list" where
  "in_hand (W_Run p, NotYet) = [p]"
| "in_hand _ = []"

definition on_the_way :: "('q \<Rightarrow> nat list) \<Rightarrow> ('j, 'f, 'q) ExecutorPool \<Rightarrow> nat multiset" where
  "on_the_way items c =
     mset (concat (map in_call (producers (tp c)))) + mset (items (queue (tp c))) +
     mset (concat (map in_hand (zip (workers (tp c)) (acts c))))"

definition unfinished :: "nat \<times> 'j rpc \<Rightarrow> bool" where
  "unfinished r \<longleftrightarrow> snd r \<noteq> R_Done"

text \<open>Each unfinished activation has its worker.\<close>

definition ep_ok :: "(nat, 'q) lf_ops \<Rightarrow> ('q \<Rightarrow> nat list) \<Rightarrow> ('j, 'f, 'q) ExecutorPool \<Rightarrow> bool" where
  "ep_ok Q items c \<longleftrightarrow>
     lf_laws Q items \<and> runnable (ex c) = [] \<and> \<not> stop (tp c) \<and> \<not> members_dead (tp c) \<and>
     (terminated (ex c) \<longrightarrow> pool_ub (tp c) \<noteq> None) \<and>
     length (acts c) = length (workers (tp c)) \<and>
     (\<forall>i < length (acts c). \<not> is_running (workers (tp c) ! i) \<longrightarrow> acts c ! i = NotYet) \<and>
     (\<forall>r < length (runs (ex c)). snd (runs (ex c) ! r) \<noteq> R_Done \<longrightarrow> Inside r \<in> set (acts c))"

definition ep_abs ::
  "(nat, 'q) lf_ops \<Rightarrow> ('q \<Rightarrow> nat list) \<Rightarrow> ('j, 'f, 'q) ExecutorPool \<Rightarrow> ('j, 'f) TaskExecutor \<Rightarrow> bool" where
  "ep_abs Q items c a \<longleftrightarrow>
     ep_ok Q items c \<and> a = (ex c)\<lparr>runnable := runnable a\<rparr> \<and> mset (runnable a) = on_the_way items c"

subsection \<open>The executor does not look at the closures\<close>

lemma set_state_runnable [simp]: "set_state t st j m (s\<lparr>runnable := l\<rparr>) = (set_state t st j m s)\<lparr>runnable := l\<rparr>"
  by (simp add: set_state_def upd_task_def)

lemma upd_task_runnable [simp]: "upd_task t f (s\<lparr>runnable := l\<rparr>) = (upd_task t f s)\<lparr>runnable := l\<rparr>"
  by (simp add: upd_task_def)

lemma rgoto_runnable [simp]: "rgoto r p (s\<lparr>runnable := l\<rparr>) = (rgoto r p s)\<lparr>runnable := l\<rparr>"
  by (simp add: rgoto_def)

lemma arm_runnable [simp]: "arm k d (s\<lparr>runnable := l\<rparr>) = (arm k d s)\<lparr>runnable := l\<rparr>"
  by (simp add: arm_def)

lemma cancel_timer_runnable [simp]: "cancel_timer i (s\<lparr>runnable := l\<rparr>) = (cancel_timer i s)\<lparr>runnable := l\<rparr>"
  by (simp add: cancel_timer_def)

lemma run_step_runnable:
  "run_step null r out (s\<lparr>runnable := l\<rparr>) t p = (run_step null r out s t p)\<lparr>runnable := l\<rparr>"
  "runnable (run_step null r out s t p) = runnable s"
  by (cases p; simp add: arm_def rgoto_def split: option.split outcome.split)+

lemma run_task_enter_runnable:
  "run_task_enter null t (s\<lparr>runnable := l\<rparr>) = (run_task_enter null t s)\<lparr>runnable := l\<rparr>"
  "runnable (run_task_enter null t s) = runnable s"
  by (simp_all add: run_task_enter_def Let_def arm_def)

lemma run_task_enter_start:
  "run_task_enter null t (s\<lparr>runnable := l, started := g\<rparr>) = (run_task_enter null t (s\<lparr>started := g\<rparr>))\<lparr>runnable := l\<rparr>"
proof -
  have "s\<lparr>runnable := l, started := g\<rparr> = s\<lparr>started := g, runnable := l\<rparr>" by simp
  then show ?thesis by (simp only: run_task_enter_runnable)
qed

lemma timer_callback_runnable:
  assumes "runnable s = []"
  shows "timer_callback null k (s\<lparr>runnable := l\<rparr>) =
    (timer_callback null k s)\<lparr>runnable := l @ runnable (timer_callback null k s)\<rparr>"
  using assms by (simp add: callback_defs execute_task_def upd_task_def split: timer_kind.split)

lemma exec_move_runnable:
  assumes "exec_move null x s = Some s'" and "runnable s = []" and "\<And>i. x \<noteq> StartRun i"
  shows "exec_move null x (s\<lparr>runnable := l\<rparr>) = Some (s'\<lparr>runnable := l @ runnable s'\<rparr>)"
proof (cases x)
  case (Fire j)
  define k where "k = t_kind (timers s ! j)"
  define u where "u = s\<lparr>timers := (timers s)[j := (timers s ! j)\<lparr>t_status := Gone\<rparr>]\<rparr>"
  have u: "s\<lparr>runnable := l, timers := (timers s)[j := (timers s ! j)\<lparr>t_status := Gone\<rparr>]\<rparr> = u\<lparr>runnable := l\<rparr>"
    "runnable u = []"
    using assms(2) by (simp_all add: u_def)
  from Fire assms(1) have "s' = timer_callback null k u" by (auto simp: k_def u_def split: if_splits)
  with Fire assms(1) timer_callback_runnable [OF u(2), of null k l] u(1) show ?thesis
    by (auto simp flip: k_def split: if_splits)
next
  case (StepRun r out)
  with assms show ?thesis by (auto simp: run_step_runnable split: if_splits)
qed (use assms in \<open>auto simp: execute_task_def register_function_def split: if_splits\<close>)

text \<open>A step of the executor that starts no closure hands over at most one.\<close>

lemma exec_move_hands_one:
  assumes "exec_move null x s = Some s'" and "runnable s = []" and "\<And>i. x \<noteq> StartRun i"
  shows "runnable s' = [] \<or> (\<exists>t. runnable s' = [t])"
proof (cases x)
  case (Fire j)
  with assms(1,2) show ?thesis
    by (cases "t_kind (timers s ! j)") (auto simp: callback_defs split: if_splits)
qed (use assms in \<open>auto simp: run_step_runnable register_function_def split: if_splits\<close>)

subsection \<open>Closures are neither lost nor duplicated\<close>

lemma exchange_parts:
  fixes X :: "'a multiset"
  assumes "X' + u = X + v" and "v + A = u + B"
  shows "X' + A = X + B"
proof (rule multiset_eqI)
  fix x
  from assms have "count X' x + count u x = count X x + count v x" "count v x + count A x = count u x + count B x"
    by (metis count_union)+
  then show "count (X' + A) x = count (X + B) x" by simp
qed

lemma move_in_call:
  assumes "i < length ps" and "mset (in_call p) + A = mset (in_call (ps ! i)) + B"
  shows "mset (concat (map in_call (ps[i := p]))) + A = mset (concat (map in_call ps)) + B"
  using mset_concat_update [OF assms(1)] assms(2) by (rule exchange_parts)

lemma move_in_hand:
  assumes "i < length ws" and "length zs = length ws"
    and "mset (in_hand (w, a)) + A = mset (in_hand (ws ! i, zs ! i)) + B"
  shows "mset (concat (map in_hand (zip (ws[i := w]) (zs[i := a])))) + A =
    mset (concat (map in_hand (zip ws zs))) + B"
proof -
  have "zip (ws[i := w]) (zs[i := a]) = (zip ws zs)[i := (w, a)]" by (metis update_zip fst_conv snd_conv)
  moreover have "i < length (zip ws zs)" "zip ws zs ! i = (ws ! i, zs ! i)" using assms(1,2) by simp_all
  ultimately show ?thesis
    using exchange_parts [OF mset_concat_update, of i "zip ws zs" in_hand "(w, a)" A B] assms(3) by simp
qed

lemma idle_in_call: "idle p \<Longrightarrow> in_call p = []"
  by (cases p) (simp_all add: idle_def)

lemma in_hand_NotYet: "\<not> is_running w \<Longrightarrow> in_hand (w, a) = []"
  by (cases w) (simp_all add: is_running_def)

lemma in_hand_entered: "a \<noteq> NotYet \<Longrightarrow> in_hand (w, a) = []"
  by (cases w; cases a) simp_all

lemma call_enqueue_on_the_way:
  assumes "pool_exec Q mx (CallEnqueue k t) (tp c) = Some p"
  shows "on_the_way items (c\<lparr>tp := p\<rparr>) = add_mset t (on_the_way items c)"
    "workers p = workers (tp c)" "stop p = stop (tp c)" "members_dead p = members_dead (tp c)"
proof -
  from assms have k: "k < length (producers (tp c))" "idle (producers (tp c) ! k)" and p: "p = pgoto k (P_Check t) (tp c)"
    by (auto split: if_splits)
  then show "workers p = workers (tp c)" "stop p = stop (tp c)" "members_dead p = members_dead (tp c)" by simp_all
  have "mset (concat (map in_call ((producers (tp c))[k := P_Check t]))) + {#} =
      mset (concat (map in_call (producers (tp c)))) + {#t#}"
    by (rule move_in_call) (simp_all add: k idle_in_call)
  with p show "on_the_way items (c\<lparr>tp := p\<rparr>) = add_mset t (on_the_way items c)" by (simp add: on_the_way_def)
qed

lemma caller_on_the_way:
  assumes ok: "lf_laws Q items" "\<not> stop (tp c)" and move: "pool_exec Q mx (RunCaller k) (tp c) = Some p"
  shows "on_the_way items (c\<lparr>tp := p\<rparr>) = on_the_way items c"
    "workers p = workers (tp c)" "stop p = stop (tp c)" "members_dead p = members_dead (tp c)"
proof -
  define w where "w = producers (tp c) ! k"
  from move have k: "k < length (producers (tp c))" and p: "p = enqueue_call_step Q mx k (tp c) w"
    by (auto simp: w_def split: if_splits)
  note mv = move_in_call [OF k, where A = "{#}" and B = "{#}", folded w_def]
  show "workers p = workers (tp c)" "stop p = stop (tp c)" "members_dead p = members_dead (tp c)"
    unfolding p by (cases w; simp split: prod.split bool.split)+
  show "on_the_way items (c\<lparr>tp := p\<rparr>) = on_the_way items c"
  proof (cases w)
    case (P_Push x)
    obtain b q where pq: "push_op Q x (queue (tp c)) = (b, q)" by (cases "push_op Q x (queue (tp c))")
    show ?thesis
    proof (cases b)
      case True
      have "mset (concat (map in_call ((producers (tp c))[k := P_Count]))) + {#x#} =
          mset (concat (map in_call (producers (tp c)))) + {#}"
        by (rule move_in_call [OF k]) (simp add: P_Push flip: w_def)
      with True pq lf_pushD [OF ok(1) pq] P_Push show ?thesis
        by (simp add: p on_the_way_def)
    next
      case False
      with pq lf_pushD [OF ok(1) pq] P_Push mv [of "P_Recheck x"] show ?thesis
        by (simp add: p on_the_way_def)
    qed
  next
    case (P_Check x)
    with ok(2) mv [of "P_Push x"] show ?thesis by (simp add: p on_the_way_def)
  next
    case (P_Recheck x)
    with ok(2) mv [of "P_Push x"] show ?thesis by (simp add: p on_the_way_def)
  next
    case P_Count
    with mv [of P_Release] show ?thesis by (simp add: p on_the_way_def)
  next
    case P_Release
    with mv [of "P_Ready Accepted"] show ?thesis by (simp add: p on_the_way_def)
  qed (simp add: p)
qed

text \<open>A worker that runs no closure may take one from the queue, and does nothing else to them.\<close>

lemma worker_on_the_way:
  assumes ok: "ep_ok Q items c" and i: "i < length (workers (tp c))" and "\<not> is_running (workers (tp c) ! i)"
    and move: "pool_exec Q mx (RunWorker i b) (tp c) = Some p"
  shows "on_the_way items (c\<lparr>tp := p\<rparr>) = on_the_way items c"
    "\<exists>w. workers p = (workers (tp c))[i := w]" "stop p = stop (tp c)" "members_dead p = members_dead (tp c)"
proof -
  define w where "w = workers (tp c) ! i"
  from assms have na: "acts c ! i = NotYet" and len: "length (acts c) = length (workers (tp c))"
    and laws: "lf_laws Q items" and nr: "\<not> is_running w" by (auto simp: ep_ok_def w_def)
  from move ok have p: "p = worker_step Q i b (tp c) w"
    by (auto simp: w_def ep_ok_def split: if_splits)
  have id: "acts c = (acts c)[i := NotYet]" using na by (metis list_update_id)
  have mv: "mset (concat (map in_hand (zip ((workers (tp c))[i := v]) (acts c)))) + A =
      mset (concat (map in_hand (zip (workers (tp c)) (acts c))))" if "mset (in_hand (v, NotYet)) + A = {#}" for v A
    using move_in_hand [OF i len, of v NotYet A "{#}"] that nr na
    by (simp add: in_hand_NotYet w_def flip: id)
  show "stop p = stop (tp c)" "members_dead p = members_dead (tp c)"
    unfolding p by (cases w; simp split: option.split)+
  have "workers (tp c) = (workers (tp c))[i := w]" by (simp add: w_def)
  then show "\<exists>w. workers p = (workers (tp c))[i := w]"
    unfolding p by (cases w) (auto split: option.split)
  show "on_the_way items (c\<lparr>tp := p\<rparr>) = on_the_way items c"
  proof (cases w)
    case W_Pop
    show ?thesis
    proof (cases "pop_op Q (queue (tp c))")
      case None
      with W_Pop mv [of W_Active "{#}"] show ?thesis by (simp add: p on_the_way_def)
    next
      case (Some xq)
      obtain x q where xq: "xq = (x, q)" by (cases xq)
      have "mset (concat (map in_hand (zip ((workers (tp c))[i := W_Run x]) (acts c)))) + {#} =
          mset (concat (map in_hand (zip (workers (tp c)) (acts c)))) + {#x#}"
        using move_in_hand [OF i len, of "W_Run x" NotYet "{#}" "{#x#}"] nr
        by (simp add: in_hand_NotYet w_def flip: id)
      with W_Pop Some xq lf_popD [OF laws, of "queue (tp c)" x q] show ?thesis by (simp add: p on_the_way_def)
    qed
  next
    case W_Wait
    with mv [of W_Active "{#}"] mv [of W_Pop "{#}"] show ?thesis by (simp add: p on_the_way_def)
  next
    case (W_Cas old)
    with mv [of W_Gone "{#}"] mv [of W_Stop2 "{#}"] show ?thesis by (simp add: p on_the_way_def)
  qed (use mv [where A = "{#}"] nr in \<open>simp_all add: p on_the_way_def is_running_def\<close>)
qed

subsection \<open>Every step of the composed machine is one of the executor or of the pool\<close>

lemma exec_move_frame:
  assumes "exec_move null x s = Some s'" and "\<And>i. x \<noteq> StartRun i" and "\<And>r out. x \<noteq> StepRun r out"
  shows "runs s' = runs s" "terminated s' = terminated s"
proof -
  have "runs s' = runs s \<and> terminated s' = terminated s"
  proof (cases x)
    case (Fire j)
    with assms(1) show ?thesis
      by (cases "t_kind (timers s ! j)") (auto simp: callback_defs split: if_splits)
  qed (use assms in \<open>auto simp: register_function_def split: if_splits\<close>)
  then show "runs s' = runs s" "terminated s' = terminated s" by simp_all
qed

lemma by_executor_sim:
  assumes abs: "ep_abs Q items c a" and move: "by_executor Q mx null k x c = Some c'"
    and ub: "pool_ub (tp c) = None"
    and x: "\<And>i. x \<noteq> StartRun i" "\<And>r out. x \<noteq> StepRun r out"
  shows "\<exists>a'. exec_step null a a' \<and> ep_abs Q items c' a'"
proof -
  from move obtain s where s: "exec_move null x (ex c) = Some s" and c': "hand_over Q mx k (c\<lparr>ex := s\<rparr>) = Some c'"
    by (auto simp: by_executor_def split: option.splits)
  from abs have ok: "ep_ok Q items c" and a: "a = (ex c)\<lparr>runnable := runnable a\<rparr>"
    and l: "mset (runnable a) = on_the_way items c" by (auto simp: ep_abs_def)
  from ok ub have r: "runnable (ex c) = []" and nt: "\<not> terminated (ex c)" by (simp_all add: ep_ok_def)
  from exec_move_runnable [OF s r x(1), of "runnable a"] a
  have step: "exec_step null a (s\<lparr>runnable := runnable a @ runnable s\<rparr>)" by (auto simp: exec_step_def)
  note fr = exec_move_frame [OF s x]
  have "ep_abs Q items c' (s\<lparr>runnable := runnable a @ runnable s\<rparr>)"
    using exec_move_hands_one [OF s r x(1)]
  proof
    assume "runnable s = []"
    with c' ok l fr nt show ?thesis
      by (auto simp: ep_abs_def hand_over_def ep_ok_def on_the_way_def)
  next
    assume "\<exists>t. runnable s = [t]"
    then obtain t where t: "runnable s = [t]" by blast
    with c' obtain p where p: "pool_exec Q mx (CallEnqueue k t) (tp c) = Some p"
      and c'': "c' = c\<lparr>ex := s\<lparr>runnable := []\<rparr>, tp := p\<rparr>"
      by (auto simp: hand_over_def)
    have "on_the_way items c' = on_the_way items (c\<lparr>tp := p\<rparr>)" by (simp add: on_the_way_def c'')
    with call_enqueue_on_the_way [OF p] c'' ok l fr t nt show ?thesis
      by (simp add: ep_abs_def ep_ok_def)
  qed
  with step show ?thesis by blast
qed

lemma ep_ok_pool:
  assumes "ep_ok Q items c" and "stop p = stop (tp c)" and "members_dead p = members_dead (tp c)"
    and "length zs = length (workers p)" and "length (workers p) = length (workers (tp c))"
    and "\<And>i. i < length zs \<Longrightarrow> \<not> is_running (workers p ! i) \<Longrightarrow> zs ! i = NotYet"
    and "\<And>r. Inside r \<in> set (acts c) \<Longrightarrow> r < length (runs (ex c)) \<Longrightarrow>
      snd (runs (ex c) ! r) \<noteq> R_Done \<Longrightarrow> Inside r \<in> set zs"
    and "terminated (ex c) \<longrightarrow> pool_ub p \<noteq> None"
  shows "ep_ok Q items (c\<lparr>tp := p, acts := zs\<rparr>)"
  using assms by (auto simp: ep_ok_def)

lemma pool_caller_sim:
  assumes abs: "ep_abs Q items c a" and move: "by_pool Q mx (RunCaller k) c = Some c'"
  shows "ep_abs Q items c' a"
proof -
  from abs have ok: "ep_ok Q items c" by (simp add: ep_abs_def)
  from move obtain p where p: "pool_exec Q mx (RunCaller k) (tp c) = Some p" and c': "c' = c\<lparr>tp := p\<rparr>"
    by (auto simp: by_pool_def)
  from p ok have "\<not> terminated (ex c)" by (auto simp: ep_ok_def split: if_splits)
  with caller_on_the_way [OF _ _ p, of items] ok abs show ?thesis by (simp add: ep_abs_def ep_ok_def c')
qed

lemma pool_worker_sim:
  assumes abs: "ep_abs Q items c a" and i: "i < length (workers (tp c))"
    and nr: "\<not> is_running (workers (tp c) ! i)"
    and move: "by_pool Q mx (RunWorker i b) c = Some c'"
  shows "ep_abs Q items c' a"
proof -
  from abs have ok: "ep_ok Q items c" by (simp add: ep_abs_def)
  from move obtain p where p: "pool_exec Q mx (RunWorker i b) (tp c) = Some p" and c': "c' = c\<lparr>tp := p\<rparr>"
    by (auto simp: by_pool_def)
  note w = worker_on_the_way [OF ok i nr p]
  from w(2) obtain v where v: "workers p = (workers (tp c))[i := v]" by blast
  from p ok have nt: "\<not> terminated (ex c)" by (auto simp: ep_ok_def split: if_splits)
  have "ep_ok Q items (c\<lparr>tp := p, acts := acts c\<rparr>)"
    by (rule ep_ok_pool [OF ok w(3,4)])
      (use ok i nr v nt in \<open>auto simp: ep_ok_def nth_list_update split: if_splits\<close>)
  with w(1) abs show ?thesis by (simp add: ep_abs_def c')
qed

lemma leave_task_sim:
  assumes abs: "ep_abs Q items c a" and i: "i < length (workers (tp c))"
    and run: "is_running (workers (tp c) ! i)" and ret: "returned (ex c) (acts c ! i)"
    and move: "by_pool Q mx (RunWorker i False) (c\<lparr>acts := (acts c)[i := NotYet]\<rparr>) = Some c'"
  shows "ep_abs Q items c' a"
proof -
  from abs have ok: "ep_ok Q items c" by (simp add: ep_abs_def)
  then have len: "length (acts c) = length (workers (tp c))" by (simp add: ep_ok_def)
  from move ok run have c': "c' = c\<lparr>tp := wgoto i W_Sub (tp c), acts := (acts c)[i := NotYet]\<rparr>"
    and ub: "pool_ub (tp c) = None"
    by (auto simp: by_pool_def ep_ok_def is_running_def split: if_splits wpc.splits)
  from ok ub have nt: "\<not> terminated (ex c)" by (auto simp: ep_ok_def)
  have "ep_ok Q items c'" unfolding c'
  proof (rule ep_ok_pool [OF ok], simp_all add: len nt)
    fix j
    assume "j < length (workers (tp c))" "\<not> is_running ((workers (tp c))[i := W_Sub] ! j)"
    with ok i len show "(acts c)[i := NotYet] ! j = NotYet" by (auto simp: ep_ok_def nth_list_update)
  next
    fix r
    assume r: "Inside r \<in> set (acts c)" "snd (runs (ex c) ! r) \<noteq> R_Done"
    then obtain j where j: "j < length (acts c)" "acts c ! j = Inside r" by (auto simp: in_set_conv_nth)
    with r ret have "j \<noteq> i" by (auto simp: returned_def)
    with j show "Inside r \<in> set ((acts c)[i := NotYet])"
      by (metis length_list_update nth_list_update_neq nth_mem)
  qed
  moreover have "on_the_way items c' = on_the_way items c"
  proof -
    have "acts c ! i \<noteq> NotYet" using ret by (auto simp: returned_def)
    then have "in_hand (workers (tp c) ! i, acts c ! i) = []" by (rule in_hand_entered)
    with move_in_hand [OF i len, of W_Sub NotYet "{#}" "{#}"] show ?thesis
      by (simp add: on_the_way_def c')
  qed
  ultimately show ?thesis using abs by (simp add: ep_abs_def c')
qed

lemma take_one:
  assumes "mset l = add_mset t A"
  shows "\<exists>j < length l. l ! j = t \<and> mset (take j l @ drop (Suc j) l) = A"
proof -
  have "t \<in> set l" using assms by (metis set_mset_mset union_single_eq_member)
  then obtain j where j: "j < length l" "l ! j = t" by (auto simp: in_set_conv_nth)
  have "mset l = add_mset t (mset (take j l @ drop (Suc j) l))"
    using id_take_nth_drop [OF j(1)] j(2)
    by (metis mset.simps(2) mset_append union_mset_add_mset_right)
  with assms j show ?thesis by auto
qed

lemma run_task_enter_runs:
  "\<exists>zs. runs (run_task_enter null t s) = runs s @ zs \<and> length zs \<le> 1"
  "terminated (run_task_enter null t s) = terminated s"
  by (simp_all add: run_task_enter_def Let_def)

lemma enter_task_ok:
  assumes ok: "ep_ok Q items c" and i: "i < length (workers (tp c))"
    and run: "is_running (workers (tp c) ! i)" and ny: "acts c ! i = NotYet"
  shows "ep_ok Q items (enter_task null i t c)"
proof -
  let ?s = "run_task_enter null t ((ex c)\<lparr>started := (started (ex c))(t := Suc (started (ex c) t))\<rparr>)"
  let ?n = "length (runs (ex c))"
  from ok have len: "length (acts c) = length (workers (tp c))" by (simp add: ep_ok_def)
  obtain zs where zs: "runs ?s = runs (ex c) @ zs" "length zs \<le> 1"
    using run_task_enter_runs(1) [of null t "(ex c)\<lparr>started := (started (ex c))(t := Suc (started (ex c) t))\<rparr>"] by auto
  define z where "z = (if ?n < length (runs ?s) then Inside ?n else Over)"
  have c': "enter_task null i t c = c\<lparr>ex := ?s, acts := (acts c)[i := z]\<rparr>"
    by (simp add: enter_task_def z_def Let_def)
  have keep: "Inside r \<in> set ((acts c)[i := z])" if "Inside r \<in> set (acts c)" for r
  proof -
    from that obtain j where "j < length (acts c)" "acts c ! j = Inside r" by (auto simp: in_set_conv_nth)
    with ny show ?thesis by (metis activation.distinct(1) length_list_update nth_list_update_neq nth_mem)
  qed
  have "Inside r \<in> set ((acts c)[i := z])" if "r < length (runs ?s)" "snd (runs ?s ! r) \<noteq> R_Done" for r
  proof (cases "r < ?n")
    case True
    with that zs(1) ok show ?thesis by (intro keep) (auto simp: ep_ok_def nth_append)
  next
    case False
    with that zs have "r = ?n" "z = Inside ?n" by (auto simp: z_def)
    with i len show ?thesis by (simp add: set_update_memI)
  qed
  moreover have "(acts c)[i := z] ! j = NotYet"
    if "j < length (acts c)" "\<not> is_running (workers (tp c) ! j)" for j
    using that run ok by (cases "j = i") (auto simp: ep_ok_def)
  ultimately show ?thesis
    using ok len by (simp add: c' ep_ok_def run_task_enter_runnable run_task_enter_runs)
qed

lemma enter_task_sim:
  assumes abs: "ep_abs Q items c a" and ub: "pool_ub (tp c) = None" and i: "i < length (workers (tp c))"
    and w: "workers (tp c) ! i = W_Run t" and ny: "acts c ! i = NotYet"
  shows "\<exists>a'. exec_step null a a' \<and> ep_abs Q items (enter_task null i t c) a'"
proof -
  let ?c = "enter_task null i t c"
  from abs have ok: "ep_ok Q items c" and a: "a = (ex c)\<lparr>runnable := runnable a\<rparr>"
    and l: "mset (runnable a) = on_the_way items c" by (auto simp: ep_abs_def)
  from ok ub have len: "length (acts c) = length (workers (tp c))" and nt: "\<not> terminated (ex c)"
    by (auto simp: ep_ok_def)
  define z where "z = (if length (runs (ex c)) < length (runs (ex ?c)) then Inside (length (runs (ex c))) else Over)"
  have z: "z \<noteq> NotYet" "acts ?c = (acts c)[i := z]" and tp: "tp ?c = tp c"
    by (auto simp: enter_task_def z_def Let_def)
  have "mset (concat (map in_hand (zip ((workers (tp c))[i := W_Run t]) ((acts c)[i := z])))) + {#t#} =
      mset (concat (map in_hand (zip (workers (tp c)) (acts c)))) + {#}"
    by (rule move_in_hand [OF i len]) (simp add: w ny in_hand_entered z)
  moreover have "(workers (tp c))[i := W_Run t] = workers (tp c)" using w by (metis list_update_id)
  ultimately have "on_the_way items c = add_mset t (on_the_way items ?c)"
    by (simp add: on_the_way_def tp z(2))
  with l take_one obtain j where j: "j < length (runnable a)" "runnable a ! j = t"
    "mset (take j (runnable a) @ drop (Suc j) (runnable a)) = on_the_way items ?c" by metis
  let ?l = "take j (runnable a) @ drop (Suc j) (runnable a)"
  have "exec_move null (StartRun j) ((ex c)\<lparr>runnable := runnable a\<rparr>) = Some ((ex ?c)\<lparr>runnable := ?l\<rparr>)"
    using j(1,2) nt by (simp add: enter_task_def Let_def run_task_enter_start)
  then have "exec_step null a ((ex ?c)\<lparr>runnable := ?l\<rparr>)" using a exec_step_def by metis
  moreover have "ep_abs Q items ?c ((ex ?c)\<lparr>runnable := ?l\<rparr>)"
    using enter_task_ok [OF ok i _ ny] j(3) w by (simp add: ep_abs_def is_running_def)
  ultimately show ?thesis by blast
qed

lemma run_step_runs:
  "length (runs (run_step null r out s t p)) = length (runs s)"
  "r' \<noteq> r \<Longrightarrow> runs (run_step null r out s t p) ! r' = runs s ! r'"
  by (cases p; auto split: option.split outcome.split)+

lemma run_task_sim:
  assumes abs: "ep_abs Q items c a" and i: "i < length (workers (tp c))" and inr: "acts c ! i = Inside r"
    and move: "exec_move null (StepRun r out) (ex c) = Some s"
    and tp: "queue p = queue (tp c)" "workers p = workers (tp c)" "producers p = producers (tp c)"
      "stop p = stop (tp c)" "members_dead p = members_dead (tp c)" "terminated s \<longrightarrow> pool_ub p \<noteq> None"
  shows "\<exists>a'. exec_step null a a' \<and> ep_abs Q items (c\<lparr>ex := s, tp := p\<rparr>) a'"
proof -
  from abs have ok: "ep_ok Q items c" and a: "a = (ex c)\<lparr>runnable := runnable a\<rparr>"
    and l: "mset (runnable a) = on_the_way items c" by (auto simp: ep_abs_def)
  from ok have rn: "runnable (ex c) = []" and len: "length (acts c) = length (workers (tp c))"
    by (simp_all add: ep_ok_def)
  from move have s: "s = run_step null r out (ex c) (fst (runs (ex c) ! r)) (snd (runs (ex c) ! r))"
    by (auto split: if_splits)
  have rs: "runnable s = []" using rn by (simp add: s run_step_runnable)
  from exec_move_runnable [OF move rn, of "runnable a"] rs
  have "exec_move null (StepRun r out) ((ex c)\<lparr>runnable := runnable a\<rparr>) = Some (s\<lparr>runnable := runnable a\<rparr>)"
    by (simp del: exec_move.simps)
  then have "exec_step null a (s\<lparr>runnable := runnable a\<rparr>)" using a exec_step_def by metis
  moreover have "Inside r' \<in> set (acts c)" if "r' < length (runs s)" "snd (runs s ! r') \<noteq> R_Done" for r'
  proof (cases "r' = r")
    case True
    with inr i len show ?thesis by (metis nth_mem)
  next
    case False
    with that ok show ?thesis by (simp add: s run_step_runs ep_ok_def)
  qed
  then have "ep_ok Q items (c\<lparr>ex := s, tp := p\<rparr>)"
    using ok tp rs by (simp add: ep_ok_def)
  then have "ep_abs Q items (c\<lparr>ex := s, tp := p\<rparr>) (s\<lparr>runnable := runnable a\<rparr>)"
    using l tp by (simp add: ep_abs_def on_the_way_def)
  ultimately show ?thesis by blast
qed

lemma ep_move_sim:
  assumes move: "ep_move Q mx null x c = Some c'" and abs: "ep_abs Q items c a"
  shows "\<exists>a'. (a' = a \<or> exec_step null a a') \<and> ep_abs Q items c' a'"
proof (cases x)
  case (RunTask i out)
  with move obtain r s where r: "acts c ! i = Inside r" "i < length (workers (tp c))" "is_running (workers (tp c) ! i)"
    "exec_move null (StepRun r out) (ex c) = Some s" "pool_ub (tp c) = None"
    and c': "if terminated s then by_pool Q mx (RunWorker i True) (c\<lparr>ex := s\<rparr>) = Some c' else c' = c\<lparr>ex := s\<rparr>"
    by (auto split: if_splits activation.splits option.splits)
  define p where "p = (if terminated s then (tp c)\<lparr>pool_ub := Some TaskThrew\<rparr> else tp c)"
  have "c' = c\<lparr>ex := s, tp := p\<rparr>"
    using c' r abs
    by (auto simp: by_pool_def p_def ep_abs_def ep_ok_def is_running_def split: if_splits wpc.splits)
  with run_task_sim [OF abs r(2,1,4), of p] show ?thesis by (auto simp: p_def)
next
  case (EnterTask i)
  with move enter_task_sim [OF abs, of i] show ?thesis by (auto split: if_splits wpc.splits)
next
  case (LeaveTask i)
  with move leave_task_sim [OF abs, of i] show ?thesis by (auto split: if_splits)
next
  case (PoolWorker i b)
  with move pool_worker_sim [OF abs, of i] show ?thesis by (auto split: if_splits)
next
  case (PoolCaller k)
  with move pool_caller_sim [OF abs] show ?thesis by auto
qed (use move in \<open>auto dest: by_executor_sim [OF abs] split: if_splits\<close>)

lemma ep_init_abs: "ep_init Q items ts c \<Longrightarrow> exec_init ts (ex c) \<and> ep_abs Q items c (ex c)"
  by (auto simp: ep_init_def ExecutorPool_new_def TaskExecutor_new_def ThreadPool_new_def exec_init_def
      ep_abs_def ep_ok_def on_the_way_def is_running_def zip_replicate)

interpretation over_pool: simulation "ep_init Q items ts" "ep_step Q mx null" "exec_init ts" "exec_step null" "ep_abs Q items"
  for Q items ts mx null
  by unfold_locales (auto simp: ep_step_def dest: ep_init_abs intro: ep_move_sim)

lemma by_executor_pool:
  "by_executor Q mx null k x c = Some c' \<Longrightarrow> tp c' = tp c \<or> pool_step Q mx (tp c) (tp c')"
  by (auto simp: by_executor_def hand_over_def pool_step_def simp del: pool_exec.simps split: option.splits list.splits)

lemma by_pool_pool: "by_pool Q mx x c = Some c' \<Longrightarrow> pool_step Q mx (tp c) (tp c')"
  by (auto simp: by_pool_def pool_step_def)

lemma ep_move_pool:
  assumes "ep_move Q mx null x c = Some c'"
  shows "tp c' = tp c \<or> pool_step Q mx (tp c) (tp c')"
proof (cases x)
  case (EnterTask i)
  with assms show ?thesis by (auto simp: enter_task_def Let_def split: if_splits wpc.splits)
next
  case (RunTask i out)
  with assms show ?thesis
    by (auto dest: by_pool_pool simp del: exec_move.simps split: if_splits activation.splits option.splits)
next
  case (LeaveTask i)
  with assms show ?thesis by (auto dest: by_pool_pool split: if_splits)
qed (use assms in \<open>auto dest: by_executor_pool by_pool_pool split: if_splits\<close>)

lemma ep_init_pool: "ep_init Q items ts c \<Longrightarrow> pool_init Q items (tp c)"
  unfolding ep_init_def ExecutorPool_new_def pool_init_def by force

interpretation its_pool: simulation "ep_init Q items ts" "ep_step Q mx null" "pool_init Q items" "pool_step Q mx" "\<lambda>c p. p = tp c"
  for Q items ts mx null
  by unfold_locales (auto simp: ep_step_def dest: ep_init_pool ep_move_pool)

subsection \<open>Properties\<close>

lemma unfinished_le_workers:
  assumes "ep_ok Q items c"
  shows "cnt unfinished (runs (ex c)) \<le> length (workers (tp c))"
proof -
  let ?I = "{r. r < length (runs (ex c)) \<and> unfinished (runs (ex c) ! r)}"
  have "cnt unfinished (runs (ex c)) = card ?I" by (simp add: cnt_def length_filter_conv_card)
  also have "\<dots> = card (Inside ` ?I)" by (rule card_image [symmetric]) (simp add: inj_on_def)
  also have "\<dots> \<le> card (set (acts c))"
    using assms by (intro card_mono) (auto simp: ep_ok_def unfinished_def)
  also have "\<dots> \<le> length (acts c)" by (rule card_length)
  finally show ?thesis using assms by (simp add: ep_ok_def)
qed

lemma ep_run_reach:
  "ep_run Q mx null xs c = Some c' \<Longrightarrow> reach (ep_init Q items ts) (ep_step Q mx null) c \<Longrightarrow>
   reach (ep_init Q items ts) (ep_step Q mx null) c'"
proof (induction xs arbitrary: c)
  case (Cons x xs)
  from Cons.prems(1) obtain u where u: "ep_move Q mx null x c = Some u" "ep_run Q mx null xs u = Some c'"
    by (auto split: option.splits)
  then have "ep_step Q mx null c u" by (auto simp: ep_step_def)
  with Cons.prems(2) Cons.IH [OF u(2)] show ?case by (auto intro: reach.reach_step)
qed simp

lemma list_ep_reach:
  assumes "ep_run list_queue mx null xs (ExecutorPool_new n [] k fs ts now) = Some c"
  shows "reach (ep_init list_queue id ts) (ep_step list_queue mx null) c"
  by (rule ep_run_reach [OF assms]) (rule reach.reach_init, auto simp: ep_init_def list_queue_laws)

text \<open>C2: the executor on top of its pool, under every interleaving of clients, event loop and
  workers, is the executor over the collection of closures on their way, and its pool is a pool
  as specified by itself: every reachable state of the composition projects to a reachable
  state of either.\<close>

theorem executor_pool_refines:
  assumes "reach (ep_init Q items ts) (ep_step Q mx null) c"
  shows "(\<exists>l. mset l = on_the_way items c \<and> reach (exec_init ts) (exec_step null) ((ex c)\<lparr>runnable := l\<rparr>)) \<and>
     reach (pool_init Q items) (pool_step Q mx) (tp c)"
proof (intro conjI)
  from over_pool.sim_reach [OF assms] obtain a where a: "reach (exec_init ts) (exec_step null) a" "ep_abs Q items c a"
    by blast
  then show "\<exists>l. mset l = on_the_way items c \<and> reach (exec_init ts) (exec_step null) ((ex c)\<lparr>runnable := l\<rparr>)"
    by (intro exI [of _ "runnable a"]) (auto simp: ep_abs_def)
  from its_pool.sim_reach [OF assms] show "reach (pool_init Q items) (pool_step Q mx) (tp c)" by blast
qed

theorem executor_pool_refines_witness:
  "\<exists>c l. mset l = on_the_way id c \<and> l = [0] \<and>
     reach (exec_init (\<lambda>_. Task_new () 0)) (exec_step ()) ((ex (c :: (unit, unit, nat list) ExecutorPool))\<lparr>runnable := l\<rparr>)"
proof -
  let ?xs = "ClientSubmit 1 0 # replicate 4 (PoolCaller 1) @ replicate 4 (PoolWorker 0 True)"
  have "map_option (on_the_way id) (ep_run list_queue 1 () ?xs
      (ExecutorPool_new 1 [] 1 [[] \<mapsto> ()] (\<lambda>_. Task_new () 0) 5) :: (unit, unit, nat list) ExecutorPool option) = Some {#0#}"
    by code_simp
  then obtain c where run: "ep_run list_queue 1 () ?xs (ExecutorPool_new 1 [] 1 [[] \<mapsto> ()] (\<lambda>_. Task_new () 0) 5) =
      Some (c :: (unit, unit, nat list) ExecutorPool)" and w: "on_the_way id c = {#0#}" by auto
  from executor_pool_refines [OF list_ep_reach [OF run]] w
  have "reach (exec_init (\<lambda>_. Task_new () 0)) (exec_step ()) ((ex c)\<lparr>runnable := [0]\<rparr>)" by (auto simp: mset_single_iff)
  with w show ?thesis by (intro exI [of _ c] exI [of _ "[0]"] conjI) simp_all
qed

text \<open>C4: no task is lost or run twice on the way through the pool: a task was started once for its
  submission and once per retry, less the closures still on their way; and at most as many
  activations are unfinished as the pool has workers.\<close>

theorem executor_pool_accounts:
  assumes "reach (ep_init Q items ts) (ep_step Q mx null) c"
  shows "started (ex c) t + count (on_the_way items c) t + unat (retry_count (ts t)) =
      of_bool (t \<in> known (ex c)) + unat (retry_count (task_at (ex c) t)) \<and>
    started (ex c) t \<le> 1 + (unat (max_retry (ts t)) - unat (retry_count (ts t))) \<and>
    cnt unfinished (runs (ex c)) \<le> length (workers (tp c))"
proof -
  from over_pool.sim_reach [OF assms] obtain a where a: "reach (exec_init ts) (exec_step null) a" "ep_abs Q items c a"
    by blast
  then have abs: "ep_ok Q items c" "a = (ex c)\<lparr>runnable := runnable a\<rparr>" "mset (runnable a) = on_the_way items c"
    by (auto simp: ep_abs_def)
  have "cnt ((=) t) (runnable a) = count (mset (runnable a)) t"
    by (simp add: cnt_def count_mset count_list_eq_length_filter)
  with attempts.reach_inv [OF a(1)] abs(2,3)
  have at: "attempts_at (ts t) ((ex c)\<lparr>runnable := runnable a\<rparr>) t"
    and n: "cnt ((=) t) (runnable a) = count (on_the_way items c) t" by (auto simp: attempts_inv_def)
  then have "int (started (ex c) t) + int (count (on_the_way items c) t) + int (unat (retry_count (ts t))) =
      of_bool (t \<in> known (ex c)) + int (unat (retry_count (task_at (ex c) t)))"
    "unat (retry_count (task_at (ex c) t)) \<le> max (unat (retry_count (ts t))) (unat (max_retry (ts t)))"
    by (simp_all add: attempts_at_def)
  moreover obtain b :: nat where "of_bool (t \<in> known (ex c)) = b" "of_bool (t \<in> known (ex c)) = int b" "b \<le> 1"
    by (cases "t \<in> known (ex c)") auto
  ultimately have "started (ex c) t + count (on_the_way items c) t + unat (retry_count (ts t)) =
      b + unat (retry_count (task_at (ex c) t)) \<and>
      started (ex c) t \<le> 1 + (unat (max_retry (ts t)) - unat (retry_count (ts t)))" by linarith
  with unfinished_le_workers [OF abs(1)] \<open>of_bool (t \<in> known (ex c)) = b\<close> show ?thesis by simp
qed

theorem executor_pool_accounts_witness:
  "\<exists>c. reach (ep_init list_queue id (\<lambda>_. Task_new () 0)) (ep_step list_queue 1 ()) (c :: (unit, unit, nat list) ExecutorPool) \<and>
     started (ex c) 0 = 1 \<and> state (task_at (ex c) 0) = SUCCESS \<and> count (on_the_way id c) 0 = 0 \<and>
     cnt unfinished (runs (ex c)) \<le> 1"
proof -
  let ?xs = "ClientSubmit 1 0 # replicate 4 (PoolCaller 1) @ replicate 4 (PoolWorker 0 True) @ EnterTask 0 #
    replicate 5 (RunTask 0 (Returned ())) @ [LeaveTask 0, PoolWorker 0 False]"
  have "map_option (\<lambda>c. (started (ex c) 0, known (ex c), retry_count (task_at (ex c) 0), state (task_at (ex c) 0),
      length (workers (tp c)))) (ep_run list_queue 1 () ?xs
      (ExecutorPool_new 1 [] 1 [[] \<mapsto> ()] (\<lambda>_. Task_new () 0) 5) :: (unit, unit, nat list) ExecutorPool option) =
      Some (1, {0}, 0, SUCCESS, 1)"
    by code_simp
  then obtain c where run: "ep_run list_queue 1 () ?xs (ExecutorPool_new 1 [] 1 [[] \<mapsto> ()] (\<lambda>_. Task_new () 0) 5) =
      Some (c :: (unit, unit, nat list) ExecutorPool)"
    and st: "started (ex c) 0 = 1" "known (ex c) = {0}" "retry_count (task_at (ex c) 0) = 0"
      "state (task_at (ex c) 0) = SUCCESS" "length (workers (tp c)) = 1" by auto
  from list_ep_reach [OF run] have r: "reach (ep_init list_queue id (\<lambda>_. Task_new () 0)) (ep_step list_queue 1 ()) c" .
  from executor_pool_accounts [OF r, of 0] r st show ?thesis by (auto simp: Task_new_def)
qed

end
