(* ===== verification/Executor_Destroy.thy ===== *)
theory Executor_Destroy
  imports Executor_Pool
begin

text \<open>
  The end of an executor. \<open>~TaskExecutor\<close> is defaulted: the pool, the member declared last, is
  destroyed first, with its drain and its join, while workers that are inside \<open>run_task\<close> finish. The
  event loop belongs to the owner of the \<open>io_context\<close> and goes on; the callbacks of the timers
  keep the executor as a bare \<open>this\<close>.
\<close>

subsection \<open>State\<close>

text \<open>
  How a callback fails: with the exception of an \<open>enqueue\<close> on a stopped pool, which leaves the
  event loop, or by a call on an executor, or an access to a pool, that no longer exists.
\<close>

datatype loop_error = LoopThrows | LoopUseAfterFree

record ('j, 'f, 'q) ExecutorLife =
  alive :: "('j, 'f, 'q) ExecutorPool"
  loop_failed :: "loop_error option"

subsection \<open>Steps\<close>

text \<open>The callback of timer \<open>j\<close> once the destruction has begun. \<open>ExecutorPool\<close> keeps its fields as
  the memory that was the executor.\<close>

definition late_fire ::
  "'j \<Rightarrow> nat \<Rightarrow> ('j, 'f, 'q) ExecutorLife \<Rightarrow> ('j, 'f, 'q) ExecutorLife option" where
  "late_fire null j e =
     (case exec_move null (Fire j) (ex (alive e)) of
        None \<Rightarrow> None
      | Some s \<Rightarrow>
          if destructor (tp (alive e)) = D_End then Some (e\<lparr>loop_failed := Some LoopUseAfterFree\<rparr>)
          else if runnable s = [] then Some (e\<lparr>alive := (alive e)\<lparr>ex := s\<rparr>\<rparr>)
          else Some (e\<lparr>alive := (alive e)\<lparr>ex := s\<lparr>runnable := []\<rparr>\<rparr>,
            loop_failed := Some (if members_dead (tp (alive e)) then LoopUseAfterFree else LoopThrows)\<rparr>))"

datatype ('j, 'f) life_action = Do "('j, 'f) ep_action" | Destroy

text \<open>
  Nobody calls the executor once its destruction has begun; its destructor starts when no call of
  it is in progress.
\<close>

fun needs_executor :: "('j, 'f) ep_action \<Rightarrow> bool" where
  "needs_executor (ClientSubmit k t) = True"
| "needs_executor (Register name f) = True"
| "needs_executor _ = False"

fun life_move ::
  "(nat, 'q) lf_ops \<Rightarrow> nat \<Rightarrow> 'j \<Rightarrow> ('j, 'f) life_action \<Rightarrow>
   ('j, 'f, 'q) ExecutorLife \<Rightarrow> ('j, 'f, 'q) ExecutorLife option" where
  "life_move Q mx null Destroy e =
     (if loop_failed e = None
      then map_option (\<lambda>c. e\<lparr>alive := c\<rparr>) (by_pool Q mx RunDestructor (alive e)) else None)"
| "life_move Q mx null (Do x) e =
     (if loop_failed e \<noteq> None then None
      else if destructor (tp (alive e)) = D_None
        then map_option (\<lambda>c. e\<lparr>alive := c\<rparr>) (ep_move Q mx null x (alive e))
      else if needs_executor x then None
      else (case x of
          LoopFire j \<Rightarrow> if pool_ub (tp (alive e)) = None then late_fire null j e else None
        | _ \<Rightarrow> map_option (\<lambda>c. e\<lparr>alive := c\<rparr>) (ep_move Q mx null x (alive e))))"

definition life_step ::
  "(nat, 'q) lf_ops \<Rightarrow> nat \<Rightarrow> 'j \<Rightarrow> ('j, 'f, 'q) ExecutorLife \<Rightarrow> ('j, 'f, 'q) ExecutorLife \<Rightarrow> bool" where
  "life_step Q mx null e e' \<longleftrightarrow> (\<exists>x. life_move Q mx null x e = Some e')"

fun life_run ::
  "(nat, 'q) lf_ops \<Rightarrow> nat \<Rightarrow> 'j \<Rightarrow> ('j, 'f) life_action list \<Rightarrow>
   ('j, 'f, 'q) ExecutorLife \<Rightarrow> ('j, 'f, 'q) ExecutorLife option" where
  "life_run Q mx null [] e = Some e"
| "life_run Q mx null (x # xs) e =
     (case life_move Q mx null x e of None \<Rightarrow> None | Some e' \<Rightarrow> life_run Q mx null xs e')"

subsection \<open>Specification\<close>

definition life_init ::
  "(nat, 'q) lf_ops \<Rightarrow> ('q \<Rightarrow> nat list) \<Rightarrow> (nat \<Rightarrow> 'j Task) \<Rightarrow> ('j, 'f, 'q) ExecutorLife \<Rightarrow> bool" where
  "life_init Q items ts e \<longleftrightarrow> loop_failed e = None \<and> ep_init Q items ts (alive e)"

text \<open>A destroyed executor has no thread left.\<close>

definition joined :: "('p, 'q) ThreadPool \<Rightarrow> bool" where
  "joined p \<longleftrightarrow> (destructor p = D_End \<longrightarrow> list_all (\<lambda>w. w = W_Gone) (workers p))"

text \<open>The executor is gone and no timer is left that could call it.\<close>

definition at_rest :: "('j, 'f, 'q) ExecutorLife \<Rightarrow> bool" where
  "at_rest e \<longleftrightarrow>
     destructor (tp (alive e)) = D_End \<and> loop_failed e = None \<and>
     list_all (\<lambda>tm. \<not> live tm) (timers (ex (alive e)))"

subsection \<open>Lemmas\<close>

lemma life_run_reach:
  "life_run Q mx null xs e = Some e' \<Longrightarrow> reach (life_init Q items ts) (life_step Q mx null) e \<Longrightarrow>
   reach (life_init Q items ts) (life_step Q mx null) e'"
proof (induction xs arbitrary: e)
  case (Cons x xs)
  from Cons.prems(1) obtain u where u: "life_move Q mx null x e = Some u" "life_run Q mx null xs u = Some e'"
    by (auto split: option.splits)
  then have "life_step Q mx null e u" by (auto simp: life_step_def)
  with Cons.prems(2) Cons.IH [OF u(2)] show ?case by (auto intro: reach.reach_step)
qed simp

lemma list_life_reach:
  assumes "life_run list_queue mx null xs
    \<lparr>alive = ExecutorPool_new n [] k fs ts now, loop_failed = None\<rparr> = Some e"
  shows "reach (life_init list_queue id ts) (life_step list_queue mx null) e"
  by (rule life_run_reach [OF assms])
    (rule reach.reach_init, auto simp: life_init_def ep_init_def list_queue_laws)

lemma worker_step_destructor [simp]: "destructor (worker_step Q i b p w) = destructor p"
  by (cases w) (simp_all split: option.split)

lemma enqueue_call_frame [simp]:
  "destructor (enqueue_call_step Q mx i p w) = destructor p"
  "workers (enqueue_call_step Q mx i p w) = workers p"
  by (cases w; simp split: prod.split bool.split)+

lemma pool_exec_joined:
  assumes "pool_exec Q mx x p = Some p'" and "joined p"
  shows "joined p'"
proof (cases x)
  case (RunWorker i b)
  with assms show ?thesis by (auto simp: joined_def list_all_length split: if_splits)
next
  case RunDestructor
  with assms show ?thesis
    by (cases "destructor p") (auto simp: joined_def split: if_splits option.splits)
qed (use assms in \<open>auto simp: joined_def add_threads_def remove_threads_def remove_threads_store_def shutdown_def Let_def split: if_splits\<close>)

lemma pool_step_joined: "pool_step Q mx p p' \<Longrightarrow> joined p \<Longrightarrow> joined p'"
  by (auto simp: pool_step_def intro: pool_exec_joined)

lemma late_fire_pool: "late_fire null j e = Some e' \<Longrightarrow> tp (alive e') = tp (alive e)"
  by (auto simp: late_fire_def simp del: exec_move.simps split: option.splits if_splits)

lemma life_move_pool:
  assumes "life_move Q mx null x e = Some e'"
  shows "tp (alive e') = tp (alive e) \<or> pool_step Q mx (tp (alive e)) (tp (alive e'))"
proof (cases x)
  case Destroy
  with assms show ?thesis by (auto dest: by_pool_pool split: if_splits)
next
  case (Do y)
  show ?thesis
  proof (cases "\<exists>j. y = LoopFire j \<and> destructor (tp (alive e)) \<noteq> D_None")
    case True
    with Do assms show ?thesis by (auto dest: late_fire_pool split: if_splits)
  next
    case False
    then have "\<exists>c. ep_move Q mx null y (alive e) = Some c \<and> e' = e\<lparr>alive := c\<rparr>"
      using Do assms by (cases y) (auto simp del: ep_move.simps split: if_splits)
    with ep_move_pool [of Q mx null y "alive e"] show ?thesis by auto
  qed
qed

lemma life_init_joined: "life_init Q items ts e \<Longrightarrow> joined (tp (alive e))"
  by (auto simp: life_init_def ep_init_def ExecutorPool_new_def ThreadPool_new_def joined_def)

lemma life_step_joined: "life_step Q mx null e e' \<Longrightarrow> joined (tp (alive e)) \<Longrightarrow> joined (tp (alive e'))"
  by (auto simp: life_step_def dest!: life_move_pool intro: pool_step_joined)

interpretation life: invariant_system "life_init Q items ts" "life_step Q mx null" "\<lambda>e. joined (tp (alive e))"
  for Q items ts mx null
  by unfold_locales (auto intro: life_init_joined life_step_joined)

lemma nobody_runs:
  "joined p \<Longrightarrow> destructor p = D_End \<Longrightarrow> i < length (workers p) \<Longrightarrow> workers p ! i = W_Gone"
  by (simp add: joined_def list_all_length)

lemma no_live_timer:
  "list_all (\<lambda>tm. \<not> live tm) tms \<Longrightarrow> j < length tms \<Longrightarrow> t_status (tms ! j) = Gone"
  by (simp add: list_all_length live_def)

lemma at_rest_ep:
  assumes move: "ep_move Q mx null x c = Some c'" and x: "\<not> needs_executor x" "\<And>j. x \<noteq> LoopFire j"
    and gone: "joined (tp c)" "destructor (tp c) = D_End" and tm: "list_all (\<lambda>tm. \<not> live tm) (timers (ex c))"
  shows "task_at (ex c') = task_at (ex c) \<and> timers (ex c') = timers (ex c) \<and> destructor (tp c') = D_End"
proof (cases x)
  case (Clock ns)
  with move gone(2) show ?thesis
    by (auto simp: by_executor_def hand_over_def split: if_splits list.splits)
next
  case (TimerExpires j)
  with move no_live_timer [OF tm, of j] show ?thesis by (auto simp: by_executor_def split: if_splits)
next
  case (PoolWorker i b)
  with move nobody_runs [OF gone, of i] gone(2) show ?thesis by (auto simp: by_pool_def split: if_splits)
next
  case (PoolCaller k)
  with move gone(2) show ?thesis by (auto simp: by_pool_def split: if_splits)
qed (use move x nobody_runs [OF gone] in \<open>auto simp: is_running_def split: if_splits\<close>)

lemma at_rest_move:
  assumes move: "life_move Q mx null x e = Some e'" and j: "joined (tp (alive e))" and rest: "at_rest e"
  shows "at_rest e' \<and> task_at (ex (alive e')) = task_at (ex (alive e))"
proof (cases x)
  case Destroy
  with move rest show ?thesis by (auto simp: at_rest_def by_pool_def split: if_splits)
next
  case (Do y)
  from rest have d: "destructor (tp (alive e)) = D_End" and tm: "list_all (\<lambda>tm. \<not> live tm) (timers (ex (alive e)))"
    by (simp_all add: at_rest_def)
  have "y \<noteq> LoopFire k" for k
    using Do move d no_live_timer [OF tm, of k]
    by (auto simp: late_fire_def split: if_splits option.splits)
  moreover from this obtain c where "ep_move Q mx null y (alive e) = Some c" "e' = e\<lparr>alive := c\<rparr>" "\<not> needs_executor y"
    using Do move d by (cases y) (auto simp del: ep_move.simps split: if_splits)
  ultimately show ?thesis using at_rest_ep [OF _ _ _ j d tm] rest by (simp add: at_rest_def)
qed

subsection \<open>Properties\<close>

text \<open>C13: an executor may be destroyed when nothing is left to call it: once its destructor has
  returned and no timer of it is pending, no step of the event loop or of a thread touches it,
  and every task keeps the state it has.\<close>

theorem quiet_destruction_safe:
  assumes "reach (life_init Q items ts) (life_step Q mx null) e" and "at_rest e"
    and "life_run Q mx null xs e = Some e'"
  shows "loop_failed e' = None \<and> task_at (ex (alive e')) = task_at (ex (alive e))"
proof -
  have "joined (tp (alive e))" using life.reach_inv [OF assms(1)] .
  with assms(2,3) have "at_rest e' \<and> task_at (ex (alive e')) = task_at (ex (alive e))"
  proof (induction xs arbitrary: e)
    case (Cons x xs)
    from Cons.prems(2) obtain u where u: "life_move Q mx null x e = Some u" "life_run Q mx null xs u = Some e'"
      by (auto split: option.splits)
    have "joined (tp (alive u))"
      using life_move_pool [OF u(1)] pool_step_joined Cons.prems(3) by metis
    with Cons.IH [OF _ u(2)] at_rest_move [OF u(1) Cons.prems(3,1)] show ?case by auto
  qed simp
  then show ?thesis by (simp add: at_rest_def)
qed

theorem quiet_destruction_safe_witness:
  "\<exists>e e'. at_rest (e :: (unit, unit, nat list) ExecutorLife) \<and> state (task_at (ex (alive e')) 0) = SUCCESS \<and>
     life_run list_queue 1 () [Do (Clock 99000000000)] e = Some e' \<and> loop_failed e' = None"
proof -
  let ?xs = "map Do (ClientSubmit 1 0 # replicate 4 (PoolCaller 1) @ replicate 4 (PoolWorker 0 True) @ EnterTask 0 #
    replicate 5 (RunTask 0 (Returned ())) @ [LeaveTask 0]) @ [Destroy] @ map Do (replicate 5 (PoolWorker 0 False)) @
    replicate 5 Destroy"
  let ?e = "life_run list_queue 1 () ?xs
    \<lparr>alive = ExecutorPool_new 1 [] 1 [[] \<mapsto> ()] (\<lambda>_. Task_new () 0) 5, loop_failed = None\<rparr>
    :: (unit, unit, nat list) ExecutorLife option"
  have "map_option (\<lambda>e. (destructor (tp (alive e)), loop_failed e, map t_status (timers (ex (alive e))),
      state (task_at (ex (alive e)) 0), map_option (\<lambda>_. ()) (life_run list_queue 1 () [Do (Clock 99000000000)] e))) ?e =
      Some (D_End, None, [Gone], SUCCESS, Some ())" by code_simp
  then obtain e e' where run: "?e = Some e"
    and st: "destructor (tp (alive e)) = D_End" "loop_failed e = None" "map t_status (timers (ex (alive e))) = [Gone]"
      "state (task_at (ex (alive e)) 0) = SUCCESS"
    and e': "life_run list_queue 1 () [Do (Clock 99000000000)] e = Some e'" by auto
  have rest: "at_rest e" using st by (auto simp: at_rest_def live_def map_eq_Cons_conv)
  from quiet_destruction_safe [OF list_life_reach [OF run] rest e'] rest st e' show ?thesis
    by (intro exI [of _ e] exI [of _ e'] conjI) simp_all
qed

text \<open>C27: nothing makes a destruction wait for that. There are runs with one worker in which the
  destroyed executor is called by the timer of a pending retry; in which such a timer, due
  while the destructor is at work, finds the pool stopped and its exception leaves the event
  loop; and in which a task that was accepted is dropped from the queue, never started and still
  \<open>PENDING\<close> after the destructor has returned.\<close>

theorem destruction_hazards:
  "\<exists>(e1 :: (unit, unit, nat list) ExecutorLife) (e2 :: (unit, unit, nat list) ExecutorLife)
     (e3 :: (unit, unit, nat list) ExecutorLife).
     reach (life_init list_queue id (\<lambda>_. Task_new () 0)) (life_step list_queue 1 ()) e1 \<and>
     reach (life_init list_queue id (\<lambda>_. Task_new () 0)) (life_step list_queue 1 ()) e2 \<and>
     reach (life_init list_queue id (\<lambda>_. Task_new () 0)) (life_step list_queue 1 ()) e3 \<and>
     destructor (tp (alive e1)) = D_End \<and> loop_failed e1 = Some LoopUseAfterFree \<and>
     destructor (tp (alive e2)) = D_ReleaseAll \<and> loop_failed e2 = Some LoopThrows \<and>
     destructor (tp (alive e3)) = D_End \<and> taken (tp (alive e3)) = [(0, False)] \<and>
     started (ex (alive e3)) 0 = 0 \<and> state (task_at (ex (alive e3)) 0) = PENDING"
proof -
  let ?new = "\<lparr>alive = ExecutorPool_new 1 [] 1 [[] \<mapsto> ()] (\<lambda>_. Task_new () 0) 0, loop_failed = None\<rparr>
    :: (unit, unit, nat list) ExecutorLife"
  let ?submit = "map Do (ClientSubmit 1 0 # replicate 4 (PoolCaller 1))"
  let ?retry = "?submit @ map Do (replicate 4 (PoolWorker 0 True) @ EnterTask 0 #
    replicate 5 (RunTask 0 (ThrewSystem ConnectionRefused [])) @ [LeaveTask 0])"
  let ?fire = "map Do [Clock 1000000000, TimerExpires 1, LoopFire 1]"
  let ?gone = "[Destroy] @ map Do (replicate 5 (PoolWorker 0 False)) @ replicate 5 Destroy"
  let ?drop = "?submit @ map Do (replicate 3 (PoolWorker 0 True)) @ replicate 5 Destroy @
    map Do (replicate 5 (PoolWorker 0 False)) @ [Destroy, Destroy]"
  note inst = map_option_eq_Some prod.inject
  have "map_option (\<lambda>e. (destructor (tp (alive e)), loop_failed e)) (life_run list_queue 1 () (?retry @ ?gone @ ?fire) ?new) =
      Some (D_End, Some LoopUseAfterFree)" by code_simp
  then obtain e1 where e1: "life_run list_queue 1 () (?retry @ ?gone @ ?fire) ?new = Some e1"
    "destructor (tp (alive e1)) = D_End" "loop_failed e1 = Some LoopUseAfterFree" by (auto simp only: inst)
  have "map_option (\<lambda>e. (destructor (tp (alive e)), loop_failed e)) (life_run list_queue 1 () (?retry @ [Destroy] @ ?fire) ?new) =
      Some (D_ReleaseAll, Some LoopThrows)" by code_simp
  then obtain e2 where e2: "life_run list_queue 1 () (?retry @ [Destroy] @ ?fire) ?new = Some e2"
    "destructor (tp (alive e2)) = D_ReleaseAll" "loop_failed e2 = Some LoopThrows" by (auto simp only: inst)
  have "map_option (\<lambda>e. (destructor (tp (alive e)), taken (tp (alive e)), started (ex (alive e)) 0,
      state (task_at (ex (alive e)) 0))) (life_run list_queue 1 () ?drop ?new) = Some (D_End, [(0, False)], 0, PENDING)"
    by code_simp
  then obtain e3 where e3: "life_run list_queue 1 () ?drop ?new = Some e3" "destructor (tp (alive e3)) = D_End"
    "taken (tp (alive e3)) = [(0, False)]" "started (ex (alive e3)) 0 = 0" "state (task_at (ex (alive e3)) 0) = PENDING"
    by (auto simp only: inst)
  show ?thesis
    by (rule exI [of _ e1], rule exI [of _ e2], rule exI [of _ e3])
      (intro conjI list_life_reach [OF e1(1)] list_life_reach [OF e2(1)] list_life_reach [OF e3(1)] e1(2,3) e2(2,3) e3(2-5))
qed

end
