(* ===== verification/Executor_Races.thy ===== *)
theory Executor_Races
  imports Task_Executor
begin

text \<open>
  The members that \<open>task_executor.cpp\<close> shares between threads without synchronisation. Tasks are
  reached through shared pointers by the worker that runs them and by the thread of the event
  loop, the map of functions by every worker and by the caller of \<open>register_function\<close>; only
  the cancellation flag and the retry counter of the class are atomic. Each step of the executor is
  given the plain locations it accesses, and a race is a pair of steps of two threads, both
  possible in the same state, that access one location and do not both only read it.

  That the accesses are those of the machine is proved for the writes: what a step changes, it
  accesses as a writer.

  The theory also shows what the state of a task says about its activity: a task whose state is
  \<open>PENDING\<close> or \<open>RUNNING\<close> is still queued, running or waiting for its retry, and nothing is
  abandoned half-way.
\<close>

subsection \<open>Locations and threads\<close>

text \<open>
  \<open>StateOf\<close> stands for the four members that \<open>update_task_state\<close> writes. The other members of a
  task and \<open>available_resources_\<close> are never written by the executor.
\<close>

datatype exec_loc = StateOf nat | StartOf nat | RetryOf nat | FunctionMap

text \<open>
  A worker about to enter the closure with index \<open>i\<close>, a worker inside the activation \<open>r\<close>, the
  event loop about to call back the timer \<open>i\<close>, the \<open>k\<close>th thread that calls \<open>register_function\<close>.
\<close>

datatype actor = Entering nat | Running nat | Looping nat | Registering nat

subsection \<open>Accesses\<close>

text \<open>The plain accesses of each step, with whether it writes.\<close>

definition enter_accesses :: "('j, 'f) TaskExecutor \<Rightarrow> nat \<Rightarrow> (exec_loc \<times> bool) list" where
  "enter_accesses s t =
     (if \<not> check_resources (available_resources s) (required (task_at s t)) \<or>
         sint (remaining_timeout (task_at s t) (now_ms s)) < 0
      then [(StateOf t, True)] else [])"

fun run_accesses :: "('j, 'f) TaskExecutor \<Rightarrow> nat \<Rightarrow> 'j rpc \<Rightarrow> (exec_loc \<times> bool) list" where
  "run_accesses s t (R_Begin tm now) = [(StartOf t, True), (StateOf t, True)]"
| "run_accesses s t (R_Lookup tm) = [(FunctionMap, False)]"
| "run_accesses s t (R_Call tm) = [(FunctionMap, False)]"
| "run_accesses s t (R_Return tm j) = [(StateOf t, True)]"
| "run_accesses s t (R_Catch tm ec what) =
     (if is_retryable_error ec then [(RetryOf t, False)] else []) @
     (if is_retryable_error ec \<and> retry_count (task_at s t) < max_retry (task_at s t)
      then [] else [(StateOf t, True)])"
| "run_accesses s t R_Quota = (if retrying_cnt s \<ge> MAX_CONCURRENT_RETRY then [] else [(RetryOf t, False)])"
| "run_accesses s t R_QuotaFull = []"
| "run_accesses s t R_QuotaFail = [(StateOf t, True)]"
| "run_accesses s t (R_Cancel tm) = []"
| "run_accesses s t R_Done = []"

fun timer_accesses :: "timer_kind \<Rightarrow> (exec_loc \<times> bool) list" where
  "timer_accesses (ExecTimer t) = [(StateOf t, True)]"
| "timer_accesses (RetryTimer t) = [(RetryOf t, True)]"

fun actor_accesses :: "('j, 'f) TaskExecutor \<Rightarrow> actor \<Rightarrow> (exec_loc \<times> bool) list" where
  "actor_accesses s (Entering i) =
     (if i < length (runnable s) \<and> \<not> terminated s then enter_accesses s (runnable s ! i) else [])"
| "actor_accesses s (Running r) =
     (if r < length (runs s) \<and> \<not> terminated s
      then run_accesses s (fst (runs s ! r)) (snd (runs s ! r)) else [])"
| "actor_accesses s (Looping i) =
     (if i < length (timers s) \<and> t_status (timers s ! i) = Expired \<and> \<not> terminated s
      then timer_accesses (t_kind (timers s ! i)) else [])"
| "actor_accesses s (Registering k) = [(FunctionMap, True)]"

text \<open>The event loop is one thread.\<close>

fun same_thread :: "actor \<Rightarrow> actor \<Rightarrow> bool" where
  "same_thread (Looping i) (Looping j) = True"
| "same_thread a b = (a = b)"

definition race :: "('j, 'f) TaskExecutor \<Rightarrow> exec_loc \<Rightarrow> actor \<Rightarrow> actor \<Rightarrow> bool" where
  "race s l a b \<longleftrightarrow> \<not> same_thread a b \<and>
     ((l, True) \<in> set (actor_accesses s a) \<and> l \<in> fst ` set (actor_accesses s b) \<or>
      (l, True) \<in> set (actor_accesses s b) \<and> l \<in> fst ` set (actor_accesses s a))"

text \<open>The actors that can make a step of the machine, and what a step changes.\<close>

fun makes :: "actor \<Rightarrow> ('j, 'f) exec_action \<Rightarrow> bool" where
  "makes (Entering i) (StartRun j) \<longleftrightarrow> i = j"
| "makes (Running r) (StepRun q out) \<longleftrightarrow> r = q"
| "makes (Looping i) (Fire j) \<longleftrightarrow> i = j"
| "makes (Registering k) (AddFunction name f) \<longleftrightarrow> True"
| "makes _ _ \<longleftrightarrow> False"

fun changes :: "('j, 'f) TaskExecutor \<Rightarrow> ('j, 'f) TaskExecutor \<Rightarrow> exec_loc \<Rightarrow> bool" where
  "changes s s' (StateOf t) \<longleftrightarrow>
     (state (task_at s t), result (task_at s t), error_msg (task_at s t), finish_ts (task_at s t)) \<noteq>
     (state (task_at s' t), result (task_at s' t), error_msg (task_at s' t), finish_ts (task_at s' t))"
| "changes s s' (StartOf t) \<longleftrightarrow> start_ts (task_at s t) \<noteq> start_ts (task_at s' t)"
| "changes s s' (RetryOf t) \<longleftrightarrow> retry_count (task_at s t) \<noteq> retry_count (task_at s' t)"
| "changes s s' FunctionMap \<longleftrightarrow> registered s \<noteq> registered s'"

text \<open>The members of a task that no location stands for.\<close>

definition rest_of :: "'j Task \<Rightarrow> 'j \<Rightarrow> 'j Task" where
  "rest_of x null = x\<lparr>state := 0, result := null, error_msg := [], finish_ts := 0, start_ts := 0, retry_count := 0\<rparr>"

subsection \<open>Specification\<close>

text \<open>The thread carries the one activity that a task has.\<close>

fun carries :: "('j, 'f) TaskExecutor \<Rightarrow> nat \<Rightarrow> actor \<Rightarrow> bool" where
  "carries s t (Entering i) \<longleftrightarrow> i < length (runnable s) \<and> t = runnable s ! i"
| "carries s t (Running r) \<longleftrightarrow> r < length (runs s) \<and> run_of t (runs s ! r)"
| "carries s t (Looping i) \<longleftrightarrow> i < length (timers s) \<and> retry_of t (timers s ! i)"
| "carries s t (Registering k) \<longleftrightarrow> False"

definition times_out :: "('j, 'f) TaskExecutor \<Rightarrow> nat \<Rightarrow> actor \<Rightarrow> bool" where
  "times_out s t a \<longleftrightarrow> (\<exists>i. a = Looping i \<and> i < length (timers s) \<and> t_kind (timers s ! i) = ExecTimer t)"

fun timer_task :: "timer_kind \<Rightarrow> nat" where
  "timer_task (ExecTimer t) = t"
| "timer_task (RetryTimer t) = t"

text \<open>\<open>PENDING\<close> to \<open>CANCELLED\<close>.\<close>

definition enumerator :: "TaskState \<Rightarrow> bool" where
  "enumerator st \<longleftrightarrow> st \<in> {PENDING, RUNNING, SUCCESS, FAILED, TIMEOUT, CANCELLED}"

text \<open>What refers to a task, refers to a submitted one; other tasks are as they were.\<close>

definition refers_ok :: "('j, 'f) TaskExecutor \<Rightarrow> bool" where
  "refers_ok s \<longleftrightarrow>
     set (runnable s) \<subseteq> known s \<and> fst ` set (runs s) \<subseteq> known s \<and>
     (\<lambda>tm. timer_task (t_kind tm)) ` set (timers s) \<subseteq> known s"

definition typed :: "(nat \<Rightarrow> 'j Task) \<Rightarrow> ('j, 'f) TaskExecutor \<Rightarrow> bool" where
  "typed ts s \<longleftrightarrow> refers_ok s \<and>
     (\<forall>t. t \<notin> known s \<longrightarrow> task_at s t = ts t) \<and>
     (\<forall>t. state (task_at s t) = state (ts t) \<or> enumerator (state (task_at s t)))"

text \<open>
  The states of a task under way and of one that is over; an execution timer turns either into
  \<open>TIMEOUT\<close>. \<open>state_at st0 p st\<close>: an activation at \<open>p\<close> of a task submitted in state \<open>st0\<close> is in \<open>st\<close>.
\<close>

definition under_way :: "TaskState \<Rightarrow> bool" where
  "under_way st \<longleftrightarrow> st = RUNNING \<or> st = TIMEOUT"

definition over :: "TaskState \<Rightarrow> bool" where
  "over st \<longleftrightarrow> st = SUCCESS \<or> st = FAILED \<or> st = TIMEOUT"

fun state_at :: "TaskState \<Rightarrow> 'j rpc \<Rightarrow> TaskState \<Rightarrow> bool" where
  "state_at st0 (R_Begin tm now) st \<longleftrightarrow> st = st0 \<or> under_way st"
| "state_at st0 (R_Cancel tm) st \<longleftrightarrow> over st"
| "state_at st0 R_Done st \<longleftrightarrow> True"
| "state_at st0 _ st \<longleftrightarrow> under_way st"

definition state_tells :: "TaskState \<Rightarrow> ('j, 'f) TaskExecutor \<Rightarrow> nat \<Rightarrow> bool" where
  "state_tells st0 s t \<longleftrightarrow>
     (t \<in> set (runnable s) \<longrightarrow> state (task_at s t) = st0 \<or> under_way (state (task_at s t))) \<and>
     (\<forall>p. (t, p) \<in> set (runs s) \<longrightarrow> state_at st0 p (state (task_at s t))) \<and>
     (0 < cnt (retry_of t) (timers s) \<longrightarrow> under_way (state (task_at s t))) \<and>
     (t \<in> known s \<longrightarrow> tokens s t = 0 \<longrightarrow> over (state (task_at s t)))"

definition states_inv :: "(nat \<Rightarrow> 'j Task) \<Rightarrow> ('j, 'f) TaskExecutor \<Rightarrow> bool" where
  "states_inv ts s \<longleftrightarrow> attempts_inv ts s \<and> typed ts s \<and> (\<forall>t. state_tells (state (ts t)) s t)"

subsection \<open>One activity per task\<close>

lemma cnt_two:
  assumes "i < length xs" "j < length xs" "i \<noteq> j" "P (xs ! i)" "P (xs ! j)"
  shows "2 \<le> cnt P xs"
proof -
  have "card {i, j} \<le> card {k. k < length xs \<and> P (xs ! k)}"
    using assms by (intro card_mono) auto
  with assms(3) show ?thesis by (simp add: cnt_def length_filter_conv_card)
qed

lemma carries_two:
  assumes "carries s t a" and "carries s t b" and "a \<noteq> b"
  shows "2 \<le> tokens s t"
proof -
  note pos = cnt_pos [of _ "runnable s" "(=) t"] cnt_pos [of _ "runs s" "run_of t"]
    cnt_pos [of _ "timers s" "retry_of t"]
  note two = cnt_two [of _ "runnable s" _ "(=) t"] cnt_two [of _ "runs s" _ "run_of t"]
    cnt_two [of _ "timers s" _ "retry_of t"]
  show ?thesis using assms
    by (cases a; cases b) (fastforce simp: tokens_def dest: pos two)+
qed

lemma carries_unique:
  assumes "reach (exec_init ts) (exec_step null) s" and "carries s t a" and "carries s t b"
  shows "a = b"
proof (rule ccontr)
  assume "a \<noteq> b"
  with carries_two assms(2,3) have "2 \<le> tokens s t" by blast
  moreover from attempts.reach_inv [OF assms(1)] have "attempts_at (ts t) s t"
    by (simp add: attempts_inv_def)
  ultimately show False by (cases "t \<in> known s") (auto simp: attempts_at_def)
qed

lemma run_accesses_of:
  assumes "(l, w) \<in> set (run_accesses s t p)"
  shows "(l = FunctionMap \<and> \<not> w \<or> l = StateOf t \<or> l = StartOf t \<or> l = RetryOf t) \<and> p \<noteq> R_Done"
  using assms by (cases p) (auto split: if_splits)

lemma access_StateOf:
  assumes "(StateOf t, w) \<in> set (actor_accesses s a)"
  shows "carries s t a \<or> times_out s t a"
proof (cases a)
  case (Running r)
  with assms run_accesses_of [of "StateOf t" w s "fst (runs s ! r)" "snd (runs s ! r)"] show ?thesis
    by (auto simp: run_of_def split: if_splits)
next
  case (Looping i)
  with assms show ?thesis by (cases "t_kind (timers s ! i)") (auto simp: times_out_def split: if_splits)
qed (use assms in \<open>auto simp: enter_accesses_def split: if_splits\<close>)

lemma access_RetryOf:
  assumes "(RetryOf t, w) \<in> set (actor_accesses s a)"
  shows "carries s t a"
proof (cases a)
  case (Running r)
  with assms run_accesses_of [of "RetryOf t" w s "fst (runs s ! r)" "snd (runs s ! r)"] show ?thesis
    by (auto simp: run_of_def split: if_splits)
next
  case (Looping i)
  with assms show ?thesis
    by (cases "t_kind (timers s ! i)") (auto simp: retry_of_def live_def split: if_splits)
qed (use assms in \<open>auto simp: enter_accesses_def split: if_splits\<close>)

lemma access_StartOf:
  assumes "(StartOf t, w) \<in> set (actor_accesses s a)"
  shows "carries s t a"
proof (cases a)
  case (Running r)
  with assms run_accesses_of [of "StartOf t" w s "fst (runs s ! r)" "snd (runs s ! r)"] show ?thesis
    by (auto simp: run_of_def split: if_splits)
next
  case (Looping i)
  with assms show ?thesis by (cases "t_kind (timers s ! i)") (auto split: if_splits)
qed (use assms in \<open>auto simp: enter_accesses_def split: if_splits\<close>)

lemma access_FunctionMap:
  assumes "(FunctionMap, w) \<in> set (actor_accesses s a)"
  shows "(\<exists>k. a = Registering k) \<or> (\<exists>r. a = Running r \<and> \<not> w)"
proof (cases a)
  case (Running r)
  with assms run_accesses_of [of FunctionMap w s "fst (runs s ! r)" "snd (runs s ! r)"] show ?thesis
    by (auto split: if_splits)
next
  case (Looping i)
  with assms show ?thesis by (cases "t_kind (timers s ! i)") (auto split: if_splits)
qed (use assms in \<open>auto simp: enter_accesses_def split: if_splits\<close>)

lemma same_thread_refl [simp]: "same_thread a a"
  by (cases a) simp_all

subsection \<open>Typing\<close>

lemma enumerators [simp]:
  "enumerator PENDING" "enumerator RUNNING" "enumerator SUCCESS" "enumerator FAILED" "enumerator TIMEOUT"
  by (simp_all add: enumerator_def)

lemma update_typed:
  "typed ts s \<Longrightarrow> t \<in> known s \<Longrightarrow> enumerator st \<Longrightarrow> typed ts (set_state t st j m s)"
  by (auto simp: typed_def refers_ok_def)

lemma typed_cong:
  assumes "typed ts s" and "known s' = known s" and "task_at s' = task_at s"
    and "set (runnable s') \<subseteq> known s" and "fst ` set (runs s') \<subseteq> known s"
    and "(\<lambda>tm. timer_task (t_kind tm)) ` set (timers s') \<subseteq> known s"
  shows "typed ts s'"
  using assms by (auto simp: typed_def refers_ok_def)

lemma fst_runs_rgoto: "r < length rs \<Longrightarrow> fst ` set (rs[r := (fst (rs ! r), p)]) = fst ` set rs"
  by (metis fst_conv list.set_map list_update_id map_update nth_map length_map)

lemma rgoto_typed: "typed ts s \<Longrightarrow> r < length (runs s) \<Longrightarrow> typed ts (rgoto r p s)"
  by (rule typed_cong) (auto simp: typed_def refers_ok_def fst_runs_rgoto)

lemma timer_kinds_update:
  "i < length tms \<Longrightarrow>
   (\<lambda>tm. timer_task (t_kind tm)) ` set (tms[i := (tms ! i)\<lparr>t_status := st\<rparr>]) = (\<lambda>tm. timer_task (t_kind tm)) ` set tms"
  by (metis (no_types, lifting) list.set_map list_update_id map_update nth_map length_map timer.select_convs(1)
      timer.surjective timer.update_convs(3))

lemma upd_task_typed:
  assumes "typed ts s" and "t \<in> known s" and "state (f (task_at s t)) = state (task_at s t)"
  shows "typed ts (upd_task t f s)"
  using assms by (auto simp: typed_def refers_ok_def)

lemma execute_task_typed: "typed ts s \<Longrightarrow> t \<in> known s \<Longrightarrow> typed ts (execute_task t s)"
  by (auto simp: typed_def refers_ok_def)

lemma run_step_typed:
  assumes "typed ts s" and r: "r < length (runs s)" and t: "fst (runs s ! r) = t"
  shows "typed ts (run_step null r out s t p)"
proof -
  have k: "t \<in> known s" using assms by (force simp: typed_def refers_ok_def)
  note intro = rgoto_typed update_typed upd_task_typed assms(1)
  show ?thesis
  proof (cases p)
    case (R_Call tm)
    moreover have "typed ts (s\<lparr>terminated := True\<rparr>)" using assms(1) by (simp add: typed_def refers_ok_def)
    ultimately show ?thesis using r by (auto split: outcome.split intro!: intro)
  next
    case (R_Cancel tm)
    have "typed ts (cancel_timer tm s)"
      using assms(1) by (auto simp: cancel_timer_def typed_def refers_ok_def timer_kinds_update)
    with R_Cancel r show ?thesis by (auto intro!: rgoto_typed)
  next
    case R_Quota
    have "typed ts (s\<lparr>retrying_cnt := n\<rparr>)" "typed ts (arm (RetryTimer t) d (s\<lparr>retrying_cnt := n\<rparr>))" for n d
      using assms(1) k by (auto simp: typed_def refers_ok_def)
    with R_Quota r show ?thesis by (auto intro!: rgoto_typed)
  next
    case R_QuotaFull
    have "typed ts (s\<lparr>retrying_cnt := n\<rparr>)" for n using assms(1) by (simp add: typed_def refers_ok_def)
    with R_QuotaFull r show ?thesis by (auto intro!: rgoto_typed)
  qed (use r k in \<open>auto split: option.split intro!: intro\<close>)
qed

lemma exec_move_typed:
  assumes move: "exec_move null x s = Some s'" and ty: "typed ts s"
  shows "typed ts s'"
proof (cases x)
  case (StepRun r out)
  with move run_step_typed [OF ty] show ?thesis by (auto split: if_splits)
next
  case (StartRun i)
  define t where "t = runnable s ! i"
  define u where "u = s\<lparr>runnable := take i (runnable s) @ drop (Suc i) (runnable s),
    started := (started s)(t := Suc (started s t))\<rparr>"
  from StartRun move have i: "i < length (runnable s)" and s': "s' = run_task_enter null t u"
    by (auto simp: t_def u_def split: if_splits)
  have k: "t \<in> known u" using i ty by (auto simp: t_def u_def typed_def refers_ok_def)
  have "typed ts u"
    by (rule typed_cong [OF ty]) (use ty in \<open>auto simp: u_def typed_def refers_ok_def dest: in_set_takeD in_set_dropD\<close>)
  moreover from this k have "typed ts ((arm (ExecTimer t) d u)\<lparr>runs := runs u @ [(t, p)]\<rparr>)" for d p
    by (auto simp: typed_def refers_ok_def)
  ultimately show ?thesis using k by (auto simp: s' run_task_enter_def Let_def intro!: update_typed)
next
  case (Expire i)
  with move have i: "i < length (timers s)"
    and s': "s' = s\<lparr>timers := (timers s)[i := (timers s ! i)\<lparr>t_status := Expired\<rparr>]\<rparr>" by (auto split: if_splits)
  from i ty show ?thesis by (simp add: s' typed_def refers_ok_def timer_kinds_update)
next
  case (Fire i)
  define u where "u = s\<lparr>timers := (timers s)[i := (timers s ! i)\<lparr>t_status := Gone\<rparr>]\<rparr>"
  from Fire move have i: "i < length (timers s)" and s': "s' = timer_callback null (t_kind (timers s ! i)) u"
    by (auto simp: u_def split: if_splits)
  have u: "typed ts u" using ty i by (simp add: u_def typed_def refers_ok_def timer_kinds_update)
  have k: "timer_task (t_kind (timers s ! i)) \<in> known u" using ty i by (force simp: u_def typed_def refers_ok_def)
  have "typed ts (u\<lparr>flags := fl\<rparr>)" "typed ts (u\<lparr>retrying_cnt := n\<rparr>)" for fl n
    using u by (simp_all add: typed_def refers_ok_def)
  with k show ?thesis
    by (cases "t_kind (timers s ! i)")
      (auto simp: s' callback_defs intro!: update_typed upd_task_typed execute_task_typed)
qed (use move ty in \<open>force simp: typed_def refers_ok_def register_function_def image_subset_iff split: if_splits\<close>)+

lemma typed_init: "exec_init ts s \<Longrightarrow> typed ts s"
  by (auto simp: exec_init_def TaskExecutor_new_def typed_def refers_ok_def)

interpretation typing: invariant_system "exec_init ts" "exec_step null" "typed ts" for ts null
  by unfold_locales (auto simp: exec_step_def intro: typed_init exec_move_typed)

subsection \<open>The writes are those of the machine\<close>

lemma rest_of_upd [simp]:
  "rest_of (update_task_state n st res m x) j = rest_of x j" "rest_of (x\<lparr>start_ts := q\<rparr>) j = rest_of x j"
  "rest_of (x\<lparr>retry_count := c\<rparr>) j = rest_of x j"
  by (simp_all add: rest_of_def update_task_state_def)

lemma run_step_writes:
  "changes s (run_step null r out s u p) l \<Longrightarrow> (l, True) \<in> set (run_accesses s u p)"
  by (cases p; cases l) (auto simp: update_task_state_def split: if_splits option.splits outcome.splits)

lemma run_step_rest:
  "rest_of (task_at (run_step null r out s u p) t) j = rest_of (task_at s t) j"
  "available_resources (run_step null r out s u p) = available_resources s"
  by (cases p; auto split: option.split outcome.split)+

lemma callback_writes:
  "changes s (timer_callback null k (s\<lparr>timers := tms\<rparr>)) l \<Longrightarrow> (l, True) \<in> set (timer_accesses k)"
  by (cases k; cases l) (auto simp: callback_defs update_task_state_def split: if_splits)

lemma callback_rest:
  "rest_of (task_at (timer_callback null k (s\<lparr>timers := tms\<rparr>)) t) j = rest_of (task_at s t) j"
  "available_resources (timer_callback null k (s\<lparr>timers := tms\<rparr>)) = available_resources s"
  by (cases k; simp add: callback_defs)+

lemma enter_writes:
  "changes s (run_task_enter null u (s\<lparr>runnable := q, started := st\<rparr>)) l \<Longrightarrow> (l, True) \<in> set (enter_accesses s u)"
  by (cases l) (auto simp: run_task_enter_def enter_accesses_def Let_def update_task_state_def split: if_splits)

lemma enter_rest:
  "rest_of (task_at (run_task_enter null u (s\<lparr>runnable := q, started := st\<rparr>)) t) j = rest_of (task_at s t) j"
  "available_resources (run_task_enter null u (s\<lparr>runnable := q, started := st\<rparr>)) = available_resources s"
  by (simp_all add: run_task_enter_def Let_def)

lemma move_writes:
  assumes move: "exec_move null x s = Some s'" and "changes s s' l"
  shows "\<exists>a. makes a x \<and> (l, True) \<in> set (actor_accesses s a)"
proof (cases x)
  case (StepRun r out)
  with assms have "(l, True) \<in> set (actor_accesses s (Running r))" by (auto dest: run_step_writes split: if_splits)
  with StepRun show ?thesis by (intro exI [of _ "Running r"]) simp
next
  case (StartRun i)
  with assms have "(l, True) \<in> set (actor_accesses s (Entering i))" by (auto dest: enter_writes split: if_splits)
  with StartRun show ?thesis by (intro exI [of _ "Entering i"]) simp
next
  case (Fire i)
  with assms have "(l, True) \<in> set (actor_accesses s (Looping i))" by (auto dest: callback_writes split: if_splits)
  with Fire show ?thesis by (intro exI [of _ "Looping i"]) simp
next
  case (AddFunction name f)
  with assms have "(l, True) \<in> set (actor_accesses s (Registering 0))" by (cases l) (auto simp: register_function_def)
  with AddFunction show ?thesis by (intro exI [of _ "Registering 0"]) simp
qed (use assms in \<open>cases l; simp split: if_splits; fastforce\<close>)+

lemma move_rest:
  assumes "exec_move null x s = Some s'"
  shows "rest_of (task_at s' t) j = rest_of (task_at s t) j" and "available_resources s' = available_resources s"
  using assms
  by (cases x; auto simp: run_step_rest callback_rest enter_rest register_function_def split: if_splits)+

subsection \<open>What the state of a task tells\<close>

lemma tokens_run:
  assumes "attempts_at x0 s u" and r: "r < length (runs s)" and p: "runs s ! r = (u, p)" "p \<noteq> R_Done"
  shows "u \<notin> set (runnable s)" and "cnt (retry_of u) (timers s) = 0" and "u \<in> known s"
    and "(u, q) \<in> set ((runs s)[r := (u, p')]) \<Longrightarrow> q = p' \<or> q = R_Done"
proof -
  have "0 < cnt (run_of u) (runs s)" using p by (intro cnt_pos [OF r]) (simp add: run_of_def)
  with assms(1) have one: "cnt (run_of u) (runs s) = 1" and z: "cnt ((=) u) (runnable s) = 0"
    "cnt (retry_of u) (timers s) = 0" "u \<in> known s"
    by (cases "u \<in> known s"; simp add: attempts_at_def tokens_def)+
  from z show "u \<notin> set (runnable s)" "cnt (retry_of u) (timers s) = 0" "u \<in> known s"
    by (auto simp: cnt_zero_iff)
  assume "(u, q) \<in> set ((runs s)[r := (u, p')])"
  then obtain k where k: "k < length (runs s)" "(runs s)[r := (u, p')] ! k = (u, q)" by (auto simp: in_set_conv_nth)
  show "q = p' \<or> q = R_Done"
  proof (cases "k = r")
    case True
    with k show ?thesis by simp
  next
    case False
    with k r have "runs s ! k = (u, q)" by simp
    with cnt_two [of k "runs s" r "run_of u"] one k(1) r p False show ?thesis by (auto simp: run_of_def)
  qed
qed

text \<open>A step of an activation, seen from the states of the tasks.\<close>

lemma tells_rgoto:
  assumes inv: "states_inv ts s" and r: "r < length (runs s)" "runs s ! r = (u, p)" "p \<noteq> R_Done"
    and s': "runs s' = (runs s)[r := (u, p')]" "runnable s' = runnable s" "known s' = known s"
      "\<And>t. t \<noteq> u \<Longrightarrow> state (task_at s' t) = state (task_at s t)"
      "\<And>t. cnt (retry_of t) (timers s') = cnt (retry_of t) (timers s) + of_bool (t = u \<and> retry)"
    and st: "state_at (state (ts u)) p' (state (task_at s' u))" "retry \<Longrightarrow> under_way (state (task_at s' u))"
      "p' = R_Done \<Longrightarrow> \<not> retry \<Longrightarrow> over (state (task_at s' u))"
  shows "state_tells (state (ts t)) s' t"
proof (cases "t = u")
  case True
  from inv have at: "attempts_at (ts u) s u" by (simp add: states_inv_def attempts_inv_def)
  note alone = tokens_run [OF at r]
  have "0 < cnt (run_of u) (runs s')" if "p' \<noteq> R_Done"
    using that r s'(1) cnt_pos [of r "runs s'" "run_of u"] by (simp add: run_of_def)
  then have "tokens s' u \<noteq> 0" if "p' \<noteq> R_Done \<or> retry" using that s'(5) [of u] by (auto simp: tokens_def)
  moreover have "state_at (state (ts u)) q (state (task_at s' u))" if "(u, q) \<in> set (runs s')" for q
    using alone(4) [of q p'] that s'(1) st(1) by auto
  ultimately show ?thesis using True alone(1-3) s'(2,3,5) st(2,3) by (auto simp: state_tells_def)
next
  case False
  have same: "(t, q) \<in> set (runs s') \<longleftrightarrow> (t, q) \<in> set (runs s)" for q
    using False r by (auto simp: s'(1) in_set_conv_nth nth_list_update split: if_splits)
      (metis fst_conv)
  have "cnt (run_of t) (runs s') = cnt (run_of t) (runs s)"
    using cnt_update [OF r(1), of "run_of t" "(u, p')"] False r(2) by (simp add: s'(1) run_of_def)
  with False s' have "tokens s' t = tokens s t" by (simp add: tokens_def)
  with inv False s' same show ?thesis by (simp add: states_inv_def state_tells_def)
qed

lemma tells_run_step:
  assumes inv: "states_inv ts s" and r: "r < length (runs s)" "runs s ! r = (u, p)"
  shows "state_tells (state (ts t)) (run_step null r out s u p) t"
proof (cases "p = R_Done")
  case True
  with inv show ?thesis by (simp add: states_inv_def)
next
  case False
  note go = tells_rgoto [OF inv r False, where retry = False, simplified]
  have mem: "(u, p) \<in> set (runs s)" using r by (metis nth_mem)
  with inv have st: "state_at (state (ts u)) p (state (task_at s u))" by (auto simp: states_inv_def state_tells_def)
  show ?thesis
  proof (cases p)
    case (R_Cancel tm)
    have "cnt (retry_of t) (timers (cancel_timer tm s)) = cnt (retry_of t) (timers s)" for t
      using inv mem R_Cancel
      by (intro cancel_timer_exec) (auto simp: states_inv_def attempts_inv_def quota_inv_def retry_of_def)
    with R_Cancel st r show ?thesis by (auto intro!: go)
  next
    case R_Quota
    show ?thesis
    proof (cases "retrying_cnt s \<ge> MAX_CONCURRENT_RETRY")
      case True
      with R_Quota st r show ?thesis by (auto intro!: go)
    next
      case less: False
      with R_Quota st r show ?thesis
        by (auto simp: retry_of_def live_def intro!: tells_rgoto [OF inv r False, where retry = True and p' = R_Done])
    qed
  next
    case (R_Call tm)
    have "state_tells (state (ts t)) (s\<lparr>terminated := True\<rparr>) t"
      using inv by (simp add: states_inv_def state_tells_def tokens_def)
    with R_Call st r show ?thesis by (cases out) (auto intro!: go)
  qed (use st r False in \<open>auto simp: under_way_def over_def intro!: go split: option.split\<close>)
qed

lemma idle_runs: "cnt (run_of u) rs = 0 \<Longrightarrow> (u, p) \<in> set rs \<Longrightarrow> state_at st0 p st"
  by (cases p) (auto simp: cnt_zero_iff run_of_def)

lemma tells_start:
  assumes inv: "states_inv ts s" and i: "i < length (runnable s)" and u: "u = runnable s ! i"
  shows "state_tells (state (ts t)) (run_task_enter null u
    (s\<lparr>runnable := take i (runnable s) @ drop (Suc i) (runnable s), started := st\<rparr>)) t"
proof -
  let ?q = "take i (runnable s) @ drop (Suc i) (runnable s)"
  note taken = cnt_taken [OF i]
  from inv have tells: "state_tells (state (ts t)) s t" and at: "attempts_at (ts t) s t"
    by (simp_all add: states_inv_def attempts_inv_def)
  show ?thesis
  proof (cases "t = u")
    case False
    then have "tokens (run_task_enter null u (s\<lparr>runnable := ?q, started := st\<rparr>)) t = tokens s t"
      using taken [of "(=) t"] u
      by (auto simp: tokens_def run_task_enter_def Let_def run_of_def retry_of_def)
    with False tells show ?thesis
      by (auto simp: state_tells_def run_task_enter_def Let_def retry_of_def dest: in_set_takeD in_set_dropD split: if_splits)
  next
    case True
    have "0 < cnt ((=) u) (runnable s)" using u by (intro cnt_pos [OF i]) simp
    with at True have one: "cnt ((=) u) (runnable s) = 1" and z: "cnt (run_of u) (runs s) = 0"
      "cnt (retry_of u) (timers s) = 0" "u \<in> known s"
      by (cases "u \<in> known s"; simp add: attempts_at_def tokens_def)+
    have "cnt ((=) u) ?q = 0" using taken [of "(=) u"] u one by simp
    then have q: "u \<notin> set ?q" by (auto simp: cnt_zero_iff)
    have "state (task_at s u) = state (ts u) \<or> under_way (state (task_at s u))"
      using tells True u i by (auto simp: state_tells_def)
    with True q z show ?thesis
      by (auto simp: idle_runs state_tells_def run_task_enter_def Let_def tokens_def run_of_def retry_of_def over_def)
  qed
qed

lemma tells_fire:
  assumes inv: "states_inv ts s" and i: "i < length (timers s)" "t_status (timers s ! i) = Expired"
  shows "state_tells (state (ts t)) (timer_callback null (t_kind (timers s ! i))
    (s\<lparr>timers := (timers s)[i := (timers s ! i)\<lparr>t_status := Gone\<rparr>]\<rparr>)) t"
proof -
  from inv have tells: "state_tells (state (ts t)) s t" by (simp add: states_inv_def)
  have cnt: "int (cnt (retry_of t) ((timers s)[i := (timers s ! i)\<lparr>t_status := Gone\<rparr>])) =
      int (cnt (retry_of t) (timers s)) - of_bool (retry_of t (timers s ! i))"
    by (subst of_nat_cnt_update [OF i(1)]) (simp add: retry_of_def live_def)
  show ?thesis
  proof (cases "t_kind (timers s ! i)")
    case (ExecTimer u)
    then have "\<not> retry_of t (timers s ! i)" by (simp add: retry_of_def)
    moreover have "state_at st0 p TIMEOUT" for st0 and p :: "'a rpc" by (cases p) (simp_all add: under_way_def over_def)
    ultimately show ?thesis using ExecTimer tells cnt
      by (auto simp: state_tells_def callback_defs tokens_def under_way_def over_def)
  next
    case (RetryTimer u)
    show ?thesis
    proof (cases "t = u")
      case True
      with RetryTimer i(2) have "retry_of t (timers s ! i)" by (simp add: retry_of_def live_def)
      with cnt_pos [OF i(1)] tells have "under_way (state (task_at s t))" by (auto simp: state_tells_def)
      with RetryTimer True tells cnt show ?thesis
        by (auto simp: state_tells_def callback_defs tokens_def)
    next
      case False
      with RetryTimer have "\<not> retry_of t (timers s ! i)" by (simp add: retry_of_def)
      with RetryTimer False tells cnt show ?thesis
        by (auto simp: state_tells_def callback_defs tokens_def)
    qed
  qed
qed

lemma tells_submit:
  assumes inv: "states_inv ts s" and "u \<notin> known s"
  shows "state_tells (state (ts t)) ((execute_task u s)\<lparr>known := insert u (known s)\<rparr>) t"
proof -
  from inv have tells: "state_tells (state (ts t)) s t" and at: "attempts_at (ts u) s u"
    and ty: "task_at s u = ts u" using assms(2) by (auto simp: states_inv_def attempts_inv_def typed_def)
  have z: "cnt (run_of u) (runs s) = 0" "cnt (retry_of u) (timers s) = 0"
    using at assms(2) by (simp_all add: attempts_at_def tokens_def)
  with tells ty assms(2) show ?thesis by (cases "t = u") (auto simp: idle_runs state_tells_def tokens_def)
qed

lemma tells_cong:
  "state_tells st0 s t \<Longrightarrow> runnable s' = runnable s \<Longrightarrow> runs s' = runs s \<Longrightarrow> known s' = known s \<Longrightarrow>
   task_at s' = task_at s \<Longrightarrow> cnt (retry_of t) (timers s') = cnt (retry_of t) (timers s) \<Longrightarrow> state_tells st0 s' t"
  by (simp add: state_tells_def tokens_def)

lemma exec_move_tells:
  assumes move: "exec_move null x s = Some s'" and inv: "states_inv ts s"
  shows "state_tells (state (ts t)) s' t"
proof -
  have tells: "state_tells (state (ts t)) s t" using inv by (simp add: states_inv_def)
  show ?thesis
  proof (cases x)
    case (StepRun r out)
    obtain u p where "runs s ! r = (u, p)" by (cases "runs s ! r")
    with StepRun move tells_run_step [OF inv] show ?thesis by (auto split: if_splits)
  next
    case (StartRun i)
    with move tells_start [OF inv] show ?thesis by (auto split: if_splits)
  next
    case (Fire i)
    with move tells_fire [OF inv] show ?thesis by (auto split: if_splits)
  next
    case (Submit u)
    with move tells_submit [OF inv] show ?thesis by (auto split: if_splits)
  next
    case (Expire i)
    with move have i: "i < length (timers s)" "t_status (timers s ! i) = Armed"
      and s': "s' = s\<lparr>timers := (timers s)[i := (timers s ! i)\<lparr>t_status := Expired\<rparr>]\<rparr>" by (auto split: if_splits)
    from i(2) cnt_update [OF i(1), of "retry_of t" "(timers s ! i)\<lparr>t_status := Expired\<rparr>"]
    have c: "cnt (retry_of t) (timers s') = cnt (retry_of t) (timers s)"
      by (auto simp: s' retry_of_def live_def split: if_splits)
    show ?thesis by (rule tells_cong [OF tells _ _ _ _ c]) (simp_all add: s')
  qed (use move tells in \<open>auto simp: register_function_def intro: tells_cong split: if_splits\<close>)
qed

lemma states_init: "exec_init ts s \<Longrightarrow> states_inv ts s"
  using attempts_init [of ts s] typed_init [of ts s]
  by (auto simp: states_inv_def state_tells_def exec_init_def TaskExecutor_new_def)

interpretation states: invariant_system "exec_init ts" "exec_step null" "states_inv ts" for ts null
proof unfold_locales
  fix s s' :: "('a, 'b) TaskExecutor"
  assume "exec_step null s s'" and inv: "states_inv ts s"
  then obtain x where move: "exec_move null x s = Some s'" by (auto simp: exec_step_def)
  moreover have "attempts_inv ts s'"
    using move inv by (auto simp: states_inv_def attempts_inv_def intro: quota_move attempts_move)
  ultimately show "states_inv ts s'"
    using inv exec_move_tells [OF move inv] exec_move_typed [OF move] by (simp add: states_inv_def)
qed (fact states_init)

subsection \<open>Properties\<close>

text \<open>C11: every race of the executor is one of three: the timeout callback of a task against the
  worker that holds the task, on the members \<open>update_task_state\<close> writes; a call of
  \<open>register_function\<close> against a worker's look-up in the map; and two calls of \<open>register_function\<close>
  against each other. All other plain members, the retry count and the start time of a task among
  them, are accessed without a race under every interleaving, although nothing synchronises them:
  a task has one activity at a time. The accesses are faithful to the machine: whatever of these
  members a step changes, an actor that can make the step is listed as writing, and no step
  changes any other member of a task or the available resources.\<close>

theorem executor_races:
  assumes "reach (exec_init ts) (exec_step null) s"
  shows "(race s l a b \<longrightarrow>
      (\<exists>t. l = StateOf t \<and> (times_out s t a \<and> carries s t b \<or> times_out s t b \<and> carries s t a)) \<or>
      l = FunctionMap \<and> (\<exists>k r. a = Registering k \<and> b = Running r \<or> b = Registering k \<and> a = Running r) \<or>
      l = FunctionMap \<and> (\<exists>j k. a = Registering j \<and> b = Registering k \<and> j \<noteq> k)) \<and>
    (exec_move null x s = Some s' \<longrightarrow>
      (changes s s' l \<longrightarrow> (\<exists>a. makes a x \<and> (l, True) \<in> set (actor_accesses s a))) \<and>
      rest_of (task_at s' t) j = rest_of (task_at s t) j \<and> available_resources s' = available_resources s)"
proof (intro conjI impI)
  assume race: "race s l a b"
  show "(\<exists>t. l = StateOf t \<and> (times_out s t a \<and> carries s t b \<or> times_out s t b \<and> carries s t a)) \<or>
      l = FunctionMap \<and> (\<exists>k r. a = Registering k \<and> b = Running r \<or> b = Registering k \<and> a = Running r) \<or>
      l = FunctionMap \<and> (\<exists>j k. a = Registering j \<and> b = Registering k \<and> j \<noteq> k)"
  proof (cases l)
    case (StateOf t)
    with race have "carries s t a \<or> times_out s t a" "carries s t b \<or> times_out s t b" "\<not> same_thread a b"
      by (auto simp: race_def dest: access_StateOf)
    moreover have "same_thread a b" if "times_out s t a" "times_out s t b"
      using that by (auto simp: times_out_def)
    ultimately show ?thesis using carries_unique [OF assms, of t a b] StateOf by auto
  next
    case (RetryOf t)
    with race have "carries s t a" "carries s t b" "\<not> same_thread a b"
      by (auto simp: race_def dest: access_RetryOf)
    with carries_unique [OF assms, of t a b] show ?thesis by simp
  next
    case (StartOf t)
    with race have "carries s t a" "carries s t b" "\<not> same_thread a b"
      by (auto simp: race_def dest: access_StartOf)
    with carries_unique [OF assms, of t a b] show ?thesis by simp
  next
    case FunctionMap
    with race show ?thesis by (fastforce simp: race_def dest: access_FunctionMap)
  qed
qed (simp_all add: move_writes move_rest)

text \<open>All three happen.\<close>

theorem executor_races_witness:
  "\<exists>s s'. reach (exec_init (\<lambda>_. Task_new () 7)) (exec_step ()) (s :: (unit, unit) TaskExecutor) \<and>
     race s (StateOf 0) (Running 0) (Looping 0) \<and> times_out s 0 (Looping 0) \<and> carries s 0 (Running 0) \<and>
     reach (exec_init (\<lambda>_. Task_new () 7)) (exec_step ()) (s' :: (unit, unit) TaskExecutor) \<and>
     race s' FunctionMap (Running 0) (Registering 0) \<and> race s' FunctionMap (Registering 0) (Registering 1)"
proof -
  let ?o = "Returned () :: unit outcome"
  let ?ys = "[Submit 0, StartRun 0, StepRun 0 ?o] :: (unit, unit) exec_action list"
  let ?xs = "?ys @ [StepRun 0 ?o, StepRun 0 ?o, Tick 30000000000, Expire 0]"
  let ?new = "TaskExecutor_new [[] \<mapsto> ()] (\<lambda>_. Task_new () 7) 0 :: (unit, unit) TaskExecutor"
  have "map_option (\<lambda>s. (actor_accesses s (Running 0), actor_accesses s (Looping 0), runs s)) (exec_run () ?xs ?new) =
      Some ([(StateOf 0, True)], [(StateOf 0, True)], [(0, R_Return 0 ())])" by code_simp
  then obtain s where run: "exec_run () ?xs ?new = Some s"
    and acc: "actor_accesses s (Running 0) = [(StateOf 0, True)]" "actor_accesses s (Looping 0) = [(StateOf 0, True)]"
    and runs: "runs s = [(0, R_Return 0 ())]" by (auto simp del: exec_run.simps)
  have "map_option (\<lambda>s. actor_accesses s (Running 0)) (exec_run () ?ys ?new) = Some [(FunctionMap, False)]" by code_simp
  then obtain s' where run': "exec_run () ?ys ?new = Some s'" and acc': "actor_accesses s' (Running 0) = [(FunctionMap, False)]"
    by (auto simp del: exec_run.simps)
  have r: "race s (StateOf 0) (Running 0) (Looping 0)" using acc by (simp add: race_def)
  have r': "race s' FunctionMap (Running 0) (Registering 0)" using acc' by (simp add: race_def)
  have r2: "race s' FunctionMap (Registering 0) (Registering 1)" by (simp add: race_def)
  have "carries s 0 (Running 0)" using runs by (simp add: run_of_def)
  moreover from executor_races [OF exec_new_reach [OF run]] r have "times_out s 0 (Looping 0)"
    by (fastforce simp: times_out_def)
  ultimately show ?thesis
    using exec_new_reach [OF run] exec_new_reach [OF run'] r r' r2 by blast
qed

text \<open>C18: no task is abandoned. Under every interleaving a submitted task has at most one activity,
  and its state tells which: queued or at its first statement, it is in the state in which it was
  submitted, \<open>RUNNING\<close> or \<open>TIMEOUT\<close> (the latter two before a retry); inside the function, on its
  way to the retry or waiting for it, \<open>RUNNING\<close> or \<open>TIMEOUT\<close>; once the activity is over but for the
  cancellation of its timer, and once nothing of it is left, \<open>SUCCESS\<close>, \<open>FAILED\<close> or \<open>TIMEOUT\<close>. So a
  task that is reported as \<open>PENDING\<close> or \<open>RUNNING\<close> is still being worked on.\<close>

theorem no_task_abandoned:
  assumes "reach (exec_init ts) (exec_step null) s" and "t \<in> known s"
  shows "(tokens s t = 0 \<or> tokens s t = 1) \<and>
    (state (task_at s t) \<in> {PENDING, RUNNING} \<longrightarrow> tokens s t = 1) \<and>
    (tokens s t = 0 \<longrightarrow> state (task_at s t) \<in> {SUCCESS, FAILED, TIMEOUT}) \<and>
    (t \<in> set (runnable s) \<longrightarrow> state (task_at s t) \<in> {state (ts t), RUNNING, TIMEOUT}) \<and>
    (\<forall>p. (t, p) \<in> set (runs s) \<longrightarrow> state_at (state (ts t)) p (state (task_at s t))) \<and>
    (0 < cnt (retry_of t) (timers s) \<longrightarrow> state (task_at s t) \<in> {RUNNING, TIMEOUT})"
proof -
  from states.reach_inv [OF assms(1)] have tells: "state_tells (state (ts t)) s t" and at: "attempts_at (ts t) s t"
    by (simp_all add: states_inv_def attempts_inv_def)
  from at assms(2) have "tokens s t = 0 \<or> tokens s t = 1" by (auto simp: attempts_at_def tokens_def)
  with tells assms(2) show ?thesis by (auto simp: state_tells_def under_way_def over_def)
qed

theorem no_task_abandoned_witness:
  "\<exists>s. reach (exec_init (\<lambda>_. Task_new () 0)) (exec_step ()) (s :: (unit, unit) TaskExecutor) \<and>
     0 \<in> known s \<and> state (task_at s 0) = RUNNING \<and> tokens s 0 = 1"
proof -
  let ?xs = "[Submit 0, StartRun 0, StepRun 0 (Returned ())] :: (unit, unit) exec_action list"
  have "map_option (\<lambda>s. (known s, state (task_at s 0))) (exec_run () ?xs (TaskExecutor_new [[] \<mapsto> ()] (\<lambda>_. Task_new () 0) 5)) =
      Some ({0}, RUNNING)" by code_simp
  then obtain s where run: "exec_run () ?xs (TaskExecutor_new [[] \<mapsto> ()] (\<lambda>_. Task_new () 0) 5) = Some s"
    and k: "known s = {0}" "state (task_at s 0) = RUNNING" by (auto simp del: exec_run.simps)
  from no_task_abandoned [OF exec_new_reach [OF run], of 0] k exec_new_reach [OF run] show ?thesis by auto
qed

end
