(* ===== verification/Grpc_Client.thy ===== *)
theory Grpc_Client
  imports Prelude
begin

text \<open>
  Model of \<open>src/common/include/grpc_client.hpp\<close> and \<open>src/common/src/grpc_client.cpp\<close>: the
  tags that the client hands to the completion queue, their state machines, the loop that
  dispatches completions, and the calls of the client.

  The gRPC library is the environment. An operation started with a tag is delivered once, with
  any \<open>ok\<close>, any response and any final status; an operation started without a tag is never
  delivered. A tag's step returns the tag that is left (\<open>None\<close> after \<open>delete this\<close>), the
  operations it started, and its effects on promises and callbacks. \<open>conv\<close> stands for
  \<open>TaskFromProto\<close>; messages of type \<open>'r\<close> and tasks of type \<open>'t\<close> are opaque here.
\<close>

subsection \<open>Status, operations and effects\<close>

datatype StatusCode = SC_OK | SC_CANCELLED | SC_INTERNAL | SC_UNAVAILABLE | SC_Other nat

record Status =
  error_code :: StatusCode
  error_message :: string

definition status_ok :: "Status \<Rightarrow> bool" where
  "status_ok st \<longleftrightarrow> error_code st = SC_OK"

definition Status_OK :: Status where
  "Status_OK = \<lparr>error_code = SC_OK, error_message = []\<rparr>"

datatype tag_op = OpStart | OpRead | OpFinish

text \<open>The task that a callback receives: \<open>set_value(std::move(task))\<close> leaves a moved-from one.\<close>

datatype 't cb_arg = Given 't | MovedFrom | DefaultTask

datatype 't effect =
    SetValue 't | SetException Status | SetBool bool | CallCb "'t cb_arg" Status | AssertFails

text \<open>One completion: \<open>ok\<close>, and what the operation wrote before it completed.\<close>

record 'r completion =
  c_op :: tag_op
  c_ok :: bool
  c_response :: 'r
  c_status :: Status

datatype unary_step = kLaunch | kFinish

subsection \<open>AsyncSubmitTag\<close>

record 'r AsyncSubmitTag =
  sub_step :: unary_step
  sub_status :: Status
  sub_response :: 'r
  sub_callback :: bool
  sub_once :: bool

text \<open>The constructor; \<open>r0\<close> is the default-constructed response.\<close>

definition AsyncSubmitTag_new :: "bool \<Rightarrow> 'r \<Rightarrow> 'r AsyncSubmitTag" where
  "AsyncSubmitTag_new cb r0 =
     \<lparr>sub_step = kLaunch, sub_status = Status_OK, sub_response = r0, sub_callback = cb, sub_once = False\<rparr>"

definition submit_SetResult :: "('r \<Rightarrow> 't) \<Rightarrow> 'r AsyncSubmitTag \<Rightarrow> 't effect list" where
  "submit_SetResult conv tag =
     (if sub_once tag then []
      else if status_ok (sub_status tag) then
        SetValue (conv (sub_response tag)) #
          (if sub_callback tag then [CallCb MovedFrom (sub_status tag)] else [])
      else
        SetException (sub_status tag) #
          (if sub_callback tag then [CallCb DefaultTask (sub_status tag)] else []))"

definition submit_proceed ::
  "('r \<Rightarrow> 't) \<Rightarrow> bool \<Rightarrow> 'r AsyncSubmitTag \<Rightarrow> 'r AsyncSubmitTag option \<times> tag_op list \<times> 't effect list" where
  "submit_proceed conv okay tag =
     (case sub_step tag of
        kLaunch \<Rightarrow>
          let tag1 = (if \<not> okay then tag\<lparr>sub_status := \<lparr>error_code = SC_INTERNAL, error_message = ''StartCall failed''\<rparr>\<rparr>
                      else tag)
          in (Some (tag1\<lparr>sub_step := kFinish\<rparr>), [OpFinish], [])
      | kFinish \<Rightarrow>
          let tag1 = (if \<not> okay then tag\<lparr>sub_status := \<lparr>error_code = SC_INTERNAL, error_message = ''Finish cq !ok''\<rparr>\<rparr>
                      else tag)
          in (None, [], submit_SetResult conv tag1))"

subsection \<open>AsyncCancelTag and AsyncQueryTag\<close>

text \<open>
  The response of a cancel call is its \<open>success\<close> field; the requests of both kinds hold a task
  identifier.
\<close>

record AsyncCancelTag =
  can_step :: unary_step
  can_status :: Status
  can_request :: string
  can_response :: bool

definition AsyncCancelTag_new :: AsyncCancelTag where
  "AsyncCancelTag_new = \<lparr>can_step = kLaunch, can_status = Status_OK, can_request = [], can_response = False\<rparr>"

definition cancel_proceed ::
  "bool \<Rightarrow> AsyncCancelTag \<Rightarrow> AsyncCancelTag option \<times> tag_op list \<times> 't effect list" where
  "cancel_proceed okay tag =
     (if can_step tag = kLaunch \<and> okay then (Some (tag\<lparr>can_step := kFinish\<rparr>), [OpFinish], [])
      else
        let st = (if \<not> okay \<and> can_step tag = kLaunch
                  then \<lparr>error_code = SC_INTERNAL, error_message = ''cq !ok''\<rparr> else can_status tag)
        in (None, [], [SetBool (status_ok st \<and> can_response tag)]))"

record 'r AsyncQueryTag =
  qry_step :: unary_step
  qry_status :: Status
  qry_request :: string
  qry_response :: 'r
  qry_once :: bool

definition AsyncQueryTag_new :: "'r \<Rightarrow> 'r AsyncQueryTag" where
  "AsyncQueryTag_new r0 =
     \<lparr>qry_step = kLaunch, qry_status = Status_OK, qry_request = [], qry_response = r0, qry_once = False\<rparr>"

definition query_SetResult :: "('r \<Rightarrow> 't) \<Rightarrow> 'r AsyncQueryTag \<Rightarrow> 't effect list" where
  "query_SetResult conv tag =
     (if qry_once tag then []
      else if status_ok (qry_status tag) then [SetValue (conv (qry_response tag))]
      else [SetException (qry_status tag)])"

definition query_proceed ::
  "('r \<Rightarrow> 't) \<Rightarrow> bool \<Rightarrow> 'r AsyncQueryTag \<Rightarrow> 'r AsyncQueryTag option \<times> tag_op list \<times> 't effect list" where
  "query_proceed conv okay tag =
     (if qry_step tag = kLaunch \<and> okay then (Some (tag\<lparr>qry_step := kFinish\<rparr>), [OpFinish], [])
      else
        let tag1 = (if \<not> okay \<and> qry_step tag = kLaunch
                    then tag\<lparr>qry_status := \<lparr>error_code = SC_INTERNAL, error_message = ''cq !ok''\<rparr>\<rparr> else tag)
        in (None, [], query_SetResult conv tag1))"

subsection \<open>AsyncListenTag\<close>

datatype listen_step = L_Start | L_Read | L_Finish | L_Done

text \<open>The request holds a client identifier, the response is the optional task of a \<open>TaskResult\<close>.\<close>

record 'r AsyncListenTag =
  lst_step :: listen_step
  lst_status :: Status
  lst_request :: string
  lst_response :: "'r option"
  lst_callback :: bool

definition AsyncListenTag_new :: "bool \<Rightarrow> 'r AsyncListenTag" where
  "AsyncListenTag_new cb =
     \<lparr>lst_step = L_Start, lst_status = Status_OK, lst_request = [], lst_response = None, lst_callback = cb\<rparr>"

definition TransitionToFinish ::
  "StatusCode \<Rightarrow> 'r AsyncListenTag \<Rightarrow> 'r AsyncListenTag option \<times> tag_op list \<times> 't effect list" where
  "TransitionToFinish code tag =
     (let tag1 = tag\<lparr>lst_step := L_Finish\<rparr>;
          tag2 = (if code \<noteq> SC_OK then tag1\<lparr>lst_status := \<lparr>error_code = code, error_message = ''stream aborted''\<rparr>\<rparr>
                  else tag1)
      in (Some tag2, [OpFinish], []))"

definition listen_proceed ::
  "('r \<Rightarrow> 't) \<Rightarrow> bool \<Rightarrow> 'r AsyncListenTag \<Rightarrow> 'r AsyncListenTag option \<times> tag_op list \<times> 't effect list" where
  "listen_proceed conv okay tag =
     (case lst_step tag of
        L_Start \<Rightarrow>
          if \<not> okay then TransitionToFinish SC_CANCELLED tag
          else (Some (tag\<lparr>lst_step := L_Read\<rparr>), [OpRead], [])
      | L_Read \<Rightarrow>
          if \<not> okay then TransitionToFinish SC_CANCELLED tag
          else (case lst_response tag of
              Some m \<Rightarrow>
                (Some (tag\<lparr>lst_response := None\<rparr>), [OpRead],
                 if lst_callback tag then [CallCb (Given (conv m)) Status_OK] else [])
            | None \<Rightarrow> TransitionToFinish SC_OK tag)
      | L_Finish \<Rightarrow>
          (None, [], if lst_callback tag \<and> \<not> status_ok (lst_status tag)
                     then [CallCb DefaultTask (lst_status tag)] else [])
      | L_Done \<Rightarrow> (Some tag, [], [AssertFails]))"

subsection \<open>Completions\<close>

text \<open>
  \<open>Finish\<close> writes the response and the status through the pointers it was given, \<open>Read\<close> the
  response when it succeeds; the tag then proceeds.
\<close>

definition submit_deliver ::
  "('r \<Rightarrow> 't) \<Rightarrow> 'r completion \<Rightarrow> 'r AsyncSubmitTag \<Rightarrow> 'r AsyncSubmitTag option \<times> tag_op list \<times> 't effect list" where
  "submit_deliver conv c tag =
     submit_proceed conv (c_ok c)
       (if c_op c = OpFinish then tag\<lparr>sub_response := c_response c, sub_status := c_status c\<rparr> else tag)"

definition cancel_deliver ::
  "bool completion \<Rightarrow> AsyncCancelTag \<Rightarrow> AsyncCancelTag option \<times> tag_op list \<times> 't effect list" where
  "cancel_deliver c tag =
     cancel_proceed (c_ok c)
       (if c_op c = OpFinish then tag\<lparr>can_response := c_response c, can_status := c_status c\<rparr> else tag)"

definition query_deliver ::
  "('r \<Rightarrow> 't) \<Rightarrow> 'r completion \<Rightarrow> 'r AsyncQueryTag \<Rightarrow> 'r AsyncQueryTag option \<times> tag_op list \<times> 't effect list" where
  "query_deliver conv c tag =
     query_proceed conv (c_ok c)
       (if c_op c = OpFinish then tag\<lparr>qry_response := c_response c, qry_status := c_status c\<rparr> else tag)"

definition listen_deliver ::
  "('r \<Rightarrow> 't) \<Rightarrow> 'r option completion \<Rightarrow> 'r AsyncListenTag \<Rightarrow>
   'r AsyncListenTag option \<times> tag_op list \<times> 't effect list" where
  "listen_deliver conv c tag =
     listen_proceed conv (c_ok c)
       (if c_op c = OpFinish then tag\<lparr>lst_status := c_status c\<rparr>
        else if c_op c = OpRead \<and> c_ok c then tag\<lparr>lst_response := c_response c\<rparr>
        else tag)"

text \<open>
  The life of one tag: \<open>n\<close> of its operations are in flight, each completion consumes one. A
  completion of a deleted tag would be a use after free.
\<close>

datatype ('tag, 'f) tag_life = NoSuchCompletion | UseAfterDelete | Alive 'tag nat "'f list" | Deleted nat "'f list"

fun drive ::
  "('e \<Rightarrow> 'tag \<Rightarrow> 'tag option \<times> 'o list \<times> 'f list) \<Rightarrow> 'e list \<Rightarrow> ('tag, 'f) tag_life \<Rightarrow> ('tag, 'f) tag_life" where
  "drive deliver [] l = l"
| "drive deliver (e # es) (Alive tag n fx) =
     (if n = 0 then NoSuchCompletion
      else case deliver e tag of
          (Some tag', ops, fx') \<Rightarrow> drive deliver es (Alive tag' (n - 1 + length ops) (fx @ fx'))
        | (None, ops, fx') \<Rightarrow> drive deliver es (Deleted (n - 1 + length ops) (fx @ fx')))"
| "drive deliver (e # es) (Deleted n fx) = (if n = 0 then NoSuchCompletion else UseAfterDelete)"
| "drive deliver (e # es) l = l"

text \<open>The operations that the tag starts on the way, in order.\<close>

fun started_ops ::
  "('e \<Rightarrow> 'tag \<Rightarrow> 'tag option \<times> 'o list \<times> 'f list) \<Rightarrow> 'e list \<Rightarrow> 'tag \<Rightarrow> 'o list" where
  "started_ops deliver [] tag = []"
| "started_ops deliver (e # es) tag =
     (case deliver e tag of
        (Some tag', ops, fx) \<Rightarrow> ops @ started_ops deliver es tag'
      | (None, ops, fx) \<Rightarrow> ops)"

subsection \<open>The client\<close>

datatype 'r any_tag =
    TSubmit "'r AsyncSubmitTag" | TCancel AsyncCancelTag | TQuery "'r AsyncQueryTag"
  | TListen "'r AsyncListenTag"

datatype rpc_kind = SubmitCall | CancelCall | QueryCall | ListenCall

datatype client_error = NullDeref | DeadTag

text \<open>One call of the client: its tag, its operations in flight, and its effects so far.\<close>

record ('r, 't) call =
  call_kind :: rpc_kind
  call_tag :: "'r any_tag option"
  in_flight :: nat
  effects :: "'t effect list"

record ('r, 't) GrpcClient =
  stub :: bool
  client_shutdown :: bool
  calls :: "('r, 't) call list"
  client_ub :: "client_error option"

definition GrpcClient_new :: "bool \<Rightarrow> ('r, 't) GrpcClient" where
  "GrpcClient_new has_stub = \<lparr>stub = has_stub, client_shutdown = False, calls = [], client_ub = None\<rparr>"

text \<open>
  \<open>StartCall()\<close> takes no tag: nothing of the call is in flight. \<open>converted\<close> tells whether
  \<open>TaskToProto\<close> returned; an exception of it leaves no call behind, only the allocated tag.
\<close>

definition submit_task_async :: "bool \<Rightarrow> 'r \<Rightarrow> bool \<Rightarrow> ('r, 't) GrpcClient \<Rightarrow> ('r, 't) GrpcClient" where
  "submit_task_async converted r0 cb s =
     (if \<not> stub s then
        s\<lparr>calls := calls s @ [\<lparr>call_kind = SubmitCall, call_tag = None, in_flight = 0,
          effects = SetException \<lparr>error_code = SC_UNAVAILABLE,
              error_message = ''stub_ is null (channel create failed or moved)''\<rparr> #
            (if cb then [CallCb DefaultTask \<lparr>error_code = SC_UNAVAILABLE, error_message = ''stub_ null''\<rparr>] else [])\<rparr>]\<rparr>
      else if \<not> converted then s
      else
        s\<lparr>calls := calls s @ [\<lparr>call_kind = SubmitCall, call_tag = Some (TSubmit (AsyncSubmitTag_new cb r0)),
          in_flight = 0, effects = []\<rparr>]\<rparr>)"

text \<open>
  \<open>Finish\<close> is started with the released tag; \<open>tag.release()\<close> empties the owning pointer, which
  the next statement dereferences.
\<close>

definition cancel_task_async :: "string \<Rightarrow> ('r, 't) GrpcClient \<Rightarrow> ('r, 't) GrpcClient" where
  "cancel_task_async task_id s =
     (if \<not> stub s then s\<lparr>client_ub := Some NullDeref\<rparr>
      else s\<lparr>calls := calls s @ [\<lparr>call_kind = CancelCall,
          call_tag = Some (TCancel (AsyncCancelTag_new\<lparr>can_request := task_id\<rparr>)), in_flight = 1, effects = []\<rparr>],
        client_ub := Some NullDeref\<rparr>)"

definition query_status_async :: "'r \<Rightarrow> string \<Rightarrow> ('r, 't) GrpcClient \<Rightarrow> ('r, 't) GrpcClient" where
  "query_status_async r0 task_id s =
     (if \<not> stub s then s\<lparr>client_ub := Some NullDeref\<rparr>
      else s\<lparr>calls := calls s @ [\<lparr>call_kind = QueryCall,
          call_tag = Some (TQuery ((AsyncQueryTag_new r0)\<lparr>qry_request := task_id\<rparr>)), in_flight = 1, effects = []\<rparr>],
        client_ub := Some NullDeref\<rparr>)"

text \<open>\<open>get()\<close> on the future of a call: it waits, throws what was set, or returns it.\<close>

datatype 'a get_result = Waits | Crashes client_error | Throws Status | Gets 'a

fun future_get :: "('t effect \<Rightarrow> 'a option) \<Rightarrow> 't effect list \<Rightarrow> 'a get_result" where
  "future_get val [] = Waits"
| "future_get val (SetException st # fx) = Throws st"
| "future_get val (f # fx) = (case val f of Some x \<Rightarrow> Gets x | None \<Rightarrow> future_get val fx)"

definition future_of :: "('t effect \<Rightarrow> 'a option) \<Rightarrow> ('r, 't) GrpcClient \<Rightarrow> 'a get_result" where
  "future_of val s =
     (case client_ub s of Some e \<Rightarrow> Crashes e | None \<Rightarrow> future_get val (effects (last (calls s))))"

definition cancel_task :: "string \<Rightarrow> ('r, 't) GrpcClient \<Rightarrow> bool get_result" where
  "cancel_task task_id s =
     future_of (\<lambda>f. case f of SetBool b \<Rightarrow> Some b | _ \<Rightarrow> None) (cancel_task_async task_id s)"

definition query_status :: "'r \<Rightarrow> string \<Rightarrow> ('r, 't) GrpcClient \<Rightarrow> 't get_result" where
  "query_status r0 task_id s =
     future_of (\<lambda>f. case f of SetValue t \<Rightarrow> Some t | _ \<Rightarrow> None) (query_status_async r0 task_id s)"

definition listen_results :: "string \<Rightarrow> bool \<Rightarrow> ('r, 't) GrpcClient \<Rightarrow> ('r, 't) GrpcClient" where
  "listen_results client_id cb s =
     (if \<not> stub s then s\<lparr>client_ub := Some NullDeref\<rparr>
      else s\<lparr>calls := calls s @ [\<lparr>call_kind = ListenCall,
        call_tag = Some (TListen ((AsyncListenTag_new cb)\<lparr>lst_request := client_id\<rparr>)),
        in_flight = 1, effects = []\<rparr>]\<rparr>)"

text \<open>
  The synchronous call: \<open>to_proto\<close> is \<open>TaskToProto\<close>, which may throw, and \<open>rpc\<close> the library's
  blocking \<open>SubmitTask\<close>.
\<close>

datatype 'e call_error = RpcFailed Status | NotConverted 'e

definition submit_task_sync ::
  "('a \<Rightarrow> 'e + 'q) \<Rightarrow> ('r \<Rightarrow> 'b) \<Rightarrow> ('q \<Rightarrow> Status \<times> 'r) \<Rightarrow> 'a \<Rightarrow> ('r, 't) GrpcClient \<Rightarrow> 'e call_error + 'b" where
  "submit_task_sync to_proto conv rpc task s =
     (if \<not> stub s then
        Inl (RpcFailed \<lparr>error_code = SC_UNAVAILABLE, error_message = ''channel not created / connection refused''\<rparr>)
      else case to_proto task of
          Inl e \<Rightarrow> Inl (NotConverted e)
        | Inr req \<Rightarrow>
            (case rpc req of (st, resp) \<Rightarrow>
               if \<not> status_ok st then Inl (RpcFailed st) else Inr (conv resp)))"

text \<open>
  One event of the dispatch loop: a completion of call \<open>i\<close>. The four completions are what the
  library would deliver to a tag of each kind.
\<close>

record 'r completions =
  for_submit :: "'r completion"
  for_cancel :: "bool completion"
  for_query :: "'r completion"
  for_listen :: "'r option completion"

definition after_step ::
  "('tag \<Rightarrow> 'r any_tag) \<Rightarrow> 'tag option \<times> tag_op list \<times> 't effect list \<Rightarrow> ('r, 't) call \<Rightarrow> ('r, 't) call" where
  "after_step wrap r c =
     (case r of (tag', ops, fx) \<Rightarrow>
        c\<lparr>call_tag := map_option wrap tag', in_flight := in_flight c - 1 + length ops,
          effects := effects c @ fx\<rparr>)"

definition dispatch :: "('r \<Rightarrow> 't) \<Rightarrow> 'r completions \<Rightarrow> ('r, 't) call \<Rightarrow> ('r, 't) call option" where
  "dispatch conv d c =
     (case call_tag c of
        None \<Rightarrow> None
      | Some (TSubmit tag) \<Rightarrow> Some (after_step TSubmit (submit_deliver conv (for_submit d) tag) c)
      | Some (TCancel tag) \<Rightarrow> Some (after_step TCancel (cancel_deliver (for_cancel d) tag) c)
      | Some (TQuery tag) \<Rightarrow> Some (after_step TQuery (query_deliver conv (for_query d) tag) c)
      | Some (TListen tag) \<Rightarrow> Some (after_step TListen (listen_deliver conv (for_listen d) tag) c))"

definition CompleteRpc ::
  "('r \<Rightarrow> 't) \<Rightarrow> nat \<Rightarrow> 'r completions \<Rightarrow> ('r, 't) GrpcClient \<Rightarrow> ('r, 't) GrpcClient" where
  "CompleteRpc conv i d s =
     (case dispatch conv d (calls s ! i) of
        None \<Rightarrow> s\<lparr>client_ub := Some DeadTag\<rparr>
      | Some c \<Rightarrow> s\<lparr>calls := (calls s)[i := c]\<rparr>)"

text \<open>The destructor stops the loop: what is in flight is not dispatched any more.\<close>

definition GrpcClient_destroy :: "('r, 't) GrpcClient \<Rightarrow> ('r, 't) GrpcClient" where
  "GrpcClient_destroy s = s\<lparr>client_shutdown := True\<rparr>"

inductive client_step ::
  "('r \<Rightarrow> 't) \<Rightarrow> 'r \<Rightarrow> ('r, 't) GrpcClient \<Rightarrow> ('r, 't) GrpcClient \<Rightarrow> bool"
  for conv :: "'r \<Rightarrow> 't" and r0 :: 'r where
  submit: "client_ub s = None \<Longrightarrow> client_step conv r0 s (submit_task_async converted r0 cb s)"
| cancel: "client_ub s = None \<Longrightarrow> client_step conv r0 s (cancel_task_async task_id s)"
| query: "client_ub s = None \<Longrightarrow> client_step conv r0 s (query_status_async r0 task_id s)"
| listen: "client_ub s = None \<Longrightarrow> client_step conv r0 s (listen_results client_id cb s)"
| complete: "client_ub s = None \<Longrightarrow> \<not> client_shutdown s \<Longrightarrow> i < length (calls s) \<Longrightarrow>
    0 < in_flight (calls s ! i) \<Longrightarrow> client_step conv r0 s (CompleteRpc conv i d s)"
| destroy: "client_ub s = None \<Longrightarrow> client_step conv r0 s (GrpcClient_destroy s)"

definition client_init :: "('r, 't) GrpcClient \<Rightarrow> bool" where
  "client_init s \<longleftrightarrow> (\<exists>b. s = GrpcClient_new b)"

subsection \<open>Specification\<close>

definition settles :: "'t effect \<Rightarrow> bool" where
  "settles f = (case f of SetValue _ \<Rightarrow> True | SetException _ \<Rightarrow> True | SetBool _ \<Rightarrow> True | _ \<Rightarrow> False)"

text \<open>
  A submitted call has nothing in flight; a stream in progress has one operation in flight
  and a finished one none.
\<close>

definition call_ok :: "bool \<Rightarrow> ('r, 't) call \<Rightarrow> bool" where
  "call_ok has_stub c \<longleftrightarrow>
     (case call_kind c of
        SubmitCall \<Rightarrow> in_flight c = 0 \<and> (has_stub \<longrightarrow> effects c = [] \<and> call_tag c \<noteq> None)
      | ListenCall \<Rightarrow>
          (case call_tag c of
             None \<Rightarrow> in_flight c = 0
           | Some (TListen tag) \<Rightarrow> in_flight c = 1 \<and> lst_step tag \<noteq> L_Done
           | Some _ \<Rightarrow> False)
      | _ \<Rightarrow> True)"

definition client_inv :: "bool \<Rightarrow> ('r, 't) GrpcClient \<Rightarrow> bool" where
  "client_inv b s \<longleftrightarrow>
     stub s = b \<and> client_ub s \<noteq> Some DeadTag \<and>
     (\<forall>c \<in> set (calls s). call_ok b c \<and> (call_kind c \<in> {CancelCall, QueryCall} \<longrightarrow> client_ub s \<noteq> None))"

subsection \<open>The contract of a tag\<close>

text \<open>
  What the dispatch loop relies on: a step either leaves the tag alive with exactly one new
  operation in flight, or deletes it and starts none.
\<close>

locale async_tag =
  fixes deliver :: "'e \<Rightarrow> 'tag \<Rightarrow> 'tag option \<times> 'o list \<times> 'f list"
    and good :: "'tag \<Rightarrow> bool"
  assumes stays: "good t \<Longrightarrow> deliver e t = (Some t', ops, fx) \<Longrightarrow> good t' \<and> length ops = 1"
    and leaves: "good t \<Longrightarrow> deliver e t = (None, ops, fx) \<Longrightarrow> ops = []"
begin

lemma drive_deleted: "drive deliver es (Deleted 0 fx) \<in> {Deleted 0 fx, NoSuchCompletion}"
  by (cases es) simp_all

lemma drive_balanced:
  "good t \<Longrightarrow>
   (case drive deliver es (Alive t 1 fx) of
      Alive t' n fx' \<Rightarrow> good t' \<and> n = 1 | Deleted n fx' \<Rightarrow> n = 0
    | NoSuchCompletion \<Rightarrow> True | UseAfterDelete \<Rightarrow> False)"
proof (induction es arbitrary: t fx)
  case (Cons e es)
  obtain t' ops fx' where d: "deliver e t = (t', ops, fx')" by (cases "deliver e t")
  show ?case
  proof (cases t')
    case None
    with d have "deliver e t = (None, ops, fx')" by simp
    from this leaves [OF Cons.prems this] drive_deleted [of es "fx @ fx'"] show ?thesis by auto
  next
    case (Some u)
    with stays [OF Cons.prems] d have "good u" "length ops = 1" by auto
    with Some d Cons.IH [of u "fx @ fx'"] show ?thesis by simp
  qed
qed simp

lemma no_use_after_delete: "good t \<Longrightarrow> drive deliver es (Alive t 1 fx) \<noteq> UseAfterDelete"
  using drive_balanced [of t es fx] by auto

end

text \<open>A tag that owns a promise settles it in its last step and only there.\<close>

locale promise_tag = async_tag deliver good
  for deliver :: "'e \<Rightarrow> 'tag \<Rightarrow> 'tag option \<times> 'o list \<times> 'f list" and good :: "'tag \<Rightarrow> bool" +
  fixes settle :: "'f \<Rightarrow> bool"
  assumes waits: "good t \<Longrightarrow> deliver e t = (Some t', ops, fx) \<Longrightarrow> cnt settle fx = 0"
    and settled_last: "good t \<Longrightarrow> deliver e t = (None, ops, fx) \<Longrightarrow> cnt settle fx = 1"
begin

lemma drive_settles_once:
  "good t \<Longrightarrow>
   (case drive deliver es (Alive t 1 fx) of
      Alive t' n fx' \<Rightarrow> cnt settle fx' = cnt settle fx
    | Deleted n fx' \<Rightarrow> cnt settle fx' = Suc (cnt settle fx) | _ \<Rightarrow> True)"
proof (induction es arbitrary: t fx)
  case (Cons e es)
  obtain t' ops fx' where d: "deliver e t = (t', ops, fx')" by (cases "deliver e t")
  show ?case
  proof (cases t')
    case None
    with d have "deliver e t = (None, ops, fx')" by simp
    from this leaves [OF Cons.prems this] settled_last [OF Cons.prems this] drive_deleted [of es "fx @ fx'"]
    show ?thesis by auto
  next
    case (Some u)
    with stays [OF Cons.prems] waits [OF Cons.prems] d
    have "good u" "length ops = 1" "cnt settle fx' = 0" by auto
    with Some d Cons.IH [of u "fx @ fx'"] show ?thesis by (simp split: tag_life.splits)
  qed
qed simp

lemma settles_once:
  "good t \<Longrightarrow> drive deliver es (Alive t 1 []) = Deleted n fx \<Longrightarrow> n = 0 \<and> cnt settle fx = 1"
  using drive_balanced [where t = t and es = es and fx = "[]"]
    drive_settles_once [where t = t and es = es and fx = "[]"] by simp

end

lemmas unary_defs = submit_deliver_def submit_proceed_def submit_SetResult_def
  cancel_deliver_def cancel_proceed_def query_deliver_def query_proceed_def query_SetResult_def

interpretation submit_tag: promise_tag "submit_deliver conv" "\<lambda>t. \<not> sub_once t" settles for conv
  by unfold_locales
    (auto simp: unary_defs settles_def Let_def split: unary_step.splits if_splits)

interpretation cancel_tag: promise_tag cancel_deliver "\<lambda>t. True" settles
  by unfold_locales (auto simp: unary_defs settles_def Let_def split: if_splits)

interpretation query_tag: promise_tag "query_deliver conv" "\<lambda>t. \<not> qry_once t" settles for conv
  by unfold_locales (auto simp: unary_defs settles_def Let_def split: if_splits)

lemmas listen_defs = listen_deliver_def listen_proceed_def TransitionToFinish_def

interpretation listen_tag: async_tag "listen_deliver conv" "\<lambda>t. lst_step t \<noteq> L_Done" for conv
  by unfold_locales
    (auto simp: listen_defs Let_def split: listen_step.splits if_splits option.splits)

subsection \<open>The client\<close>

lemma dispatch_ok:
  assumes "call_ok b c" and "0 < in_flight c" and "call_kind c \<notin> {CancelCall, QueryCall}"
  shows "\<exists>c'. dispatch conv d c = Some c' \<and> call_ok b c' \<and> call_kind c' = call_kind c"
proof -
  from assms have k: "call_kind c = ListenCall" by (cases "call_kind c") (auto simp: call_ok_def)
  with assms obtain tag where tag: "call_tag c = Some (TListen tag)" "in_flight c = 1" "lst_step tag \<noteq> L_Done"
    by (auto simp: call_ok_def split: option.splits any_tag.splits)
  obtain t' ops fx where d: "listen_deliver conv (for_listen d) tag = (t', ops, fx)"
    by (cases "listen_deliver conv (for_listen d) tag")
  have "case t' of None \<Rightarrow> ops = [] | Some u \<Rightarrow> lst_step u \<noteq> L_Done \<and> length ops = 1"
  proof (cases t')
    case None
    with listen_tag.leaves [OF tag(3), of conv "for_listen d" ops fx] d show ?thesis by simp
  next
    case (Some u)
    with listen_tag.stays [OF tag(3), of conv "for_listen d" u ops fx] d show ?thesis by simp
  qed
  with k tag d show ?thesis by (auto simp: dispatch_def after_step_def call_ok_def split: option.splits)
qed

lemma client_step_inv: "client_step conv r0 s s' \<Longrightarrow> client_inv b s \<Longrightarrow> client_inv b s'"
proof (induction rule: client_step.induct)
  case (complete s i d)
  then have "call_ok b (calls s ! i)" "call_kind (calls s ! i) \<notin> {CancelCall, QueryCall}"
    by (auto simp: client_inv_def)
  from dispatch_ok [OF this(1) _ this(2)] complete this obtain c where
    "dispatch conv d (calls s ! i) = Some c" "call_ok b c" "call_kind c \<notin> {CancelCall, QueryCall}"
    by metis
  with complete show ?case
    using set_update_subset_insert [of "calls s" i c] by (auto simp: client_inv_def CompleteRpc_def)
qed (auto simp: client_inv_def call_ok_def submit_task_async_def cancel_task_async_def
    query_status_async_def listen_results_def GrpcClient_destroy_def AsyncSubmitTag_new_def
    AsyncListenTag_new_def split: if_splits)

interpretation client: invariant_system "\<lambda>s. s = GrpcClient_new b" "client_step conv r0" "client_inv b"
  for b conv r0
proof unfold_locales
  fix s :: "('a, 'b) GrpcClient"
  assume "s = GrpcClient_new b"
  then show "client_inv b s" by (simp add: client_inv_def GrpcClient_new_def)
next
  fix s s' :: "('a, 'b) GrpcClient"
  assume "client_step conv r0 s s'" "client_inv b s"
  then show "client_inv b s'" by (rule client_step_inv)
qed

text \<open>A stream that receives messages.\<close>

lemma listen_reads:
  assumes "lst_step tag = L_Read" and "lst_callback tag"
  shows "\<exists>tag'. drive (listen_deliver conv)
      (map (\<lambda>m. \<lparr>c_op = OpRead, c_ok = True, c_response = Some m, c_status = st0\<rparr>) ms @ es) (Alive tag 1 fx) =
    drive (listen_deliver conv) es (Alive tag' 1 (fx @ map (\<lambda>m. CallCb (Given (conv m)) Status_OK) ms)) \<and>
    started_ops (listen_deliver conv)
      (map (\<lambda>m. \<lparr>c_op = OpRead, c_ok = True, c_response = Some m, c_status = st0\<rparr>) ms @ es) tag =
    replicate (length ms) OpRead @ started_ops (listen_deliver conv) es tag' \<and>
    lst_step tag' = L_Read \<and> lst_callback tag'"
  using assms
proof (induction ms arbitrary: tag fx)
  case (Cons m ms)
  let ?tag = "tag\<lparr>lst_response := None\<rparr>"
  from Cons.IH [of ?tag "fx @ [CallCb (Given (conv m)) Status_OK]"] Cons.prems show ?case
    by (simp add: listen_defs)
qed auto

subsection \<open>Properties\<close>

text \<open>C22: whatever the completion queue delivers, no completion reaches a tag that deleted
  itself; a unary tag settles its promise exactly once, in the step that deletes it, and with
  nothing left in flight.\<close>

theorem tags_settle_once:
  assumes "\<not> sub_once t1" and "\<not> qry_once t3" and "lst_step t4 \<noteq> L_Done"
  shows "drive (submit_deliver conv) e1 (Alive t1 1 []) \<noteq> UseAfterDelete \<and>
     drive cancel_deliver e2 (Alive t2 1 ([] :: 't effect list)) \<noteq> UseAfterDelete \<and>
     drive (query_deliver conv) e3 (Alive t3 1 []) \<noteq> UseAfterDelete \<and>
     drive (listen_deliver conv) e4 (Alive t4 1 []) \<noteq> UseAfterDelete \<and>
     (\<forall>n fx. drive (submit_deliver conv) e1 (Alive t1 1 []) = Deleted n fx \<longrightarrow> n = 0 \<and> cnt settles fx = 1) \<and>
     (\<forall>n fx. drive cancel_deliver e2 (Alive t2 1 ([] :: 't effect list)) = Deleted n fx \<longrightarrow> n = 0 \<and> cnt settles fx = 1) \<and>
     (\<forall>n fx. drive (query_deliver conv) e3 (Alive t3 1 []) = Deleted n fx \<longrightarrow> n = 0 \<and> cnt settles fx = 1)"
  by (intro conjI allI impI submit_tag.no_use_after_delete cancel_tag.no_use_after_delete
      query_tag.no_use_after_delete listen_tag.no_use_after_delete assms TrueI)
    (erule submit_tag.settles_once [OF assms(1), THEN conjunct1]
        submit_tag.settles_once [OF assms(1), THEN conjunct2]
        cancel_tag.settles_once [OF TrueI, THEN conjunct1]
        cancel_tag.settles_once [OF TrueI, THEN conjunct2]
        query_tag.settles_once [OF assms(2), THEN conjunct1]
        query_tag.settles_once [OF assms(2), THEN conjunct2])+

theorem tags_settle_once_witness:
  "\<exists>n fx. drive (submit_deliver (\<lambda>x. x))
      [\<lparr>c_op = OpStart, c_ok = True, c_response = 5, c_status = Status_OK\<rparr>,
       \<lparr>c_op = OpFinish, c_ok = True, c_response = 5, c_status = Status_OK\<rparr>]
      (Alive (AsyncSubmitTag_new True (0::nat)) 1 []) = Deleted n fx \<and> n = 0 \<and> cnt settles fx = 1"
proof -
  let ?es = "[\<lparr>c_op = OpStart, c_ok = True, c_response = 5, c_status = Status_OK\<rparr>,
       \<lparr>c_op = OpFinish, c_ok = True, c_response = 5, c_status = Status_OK\<rparr>]"
  let ?q = "AsyncQueryTag_new (0::nat)"
  let ?l = "AsyncListenTag_new True :: nat AsyncListenTag"
  obtain n fx where "drive (submit_deliver (\<lambda>x. x)) ?es (Alive (AsyncSubmitTag_new True (0::nat)) 1 []) = Deleted n fx"
    by (simp add: AsyncSubmitTag_new_def unary_defs status_ok_def Status_OK_def)
  moreover have "\<not> sub_once (AsyncSubmitTag_new True (0::nat))" "\<not> qry_once ?q" "lst_step ?l \<noteq> L_Done"
    by (simp_all add: AsyncSubmitTag_new_def AsyncQueryTag_new_def AsyncListenTag_new_def)
  from tags_settle_once [OF this, of "\<lambda>x. x" ?es] calculation have "n = 0 \<and> cnt settles fx = 1" by blast
  ultimately show ?thesis by blast
qed

text \<open>C39: \<open>submit_task_async\<close> starts its call without a tag, so nothing is ever in flight for it.
  In every run of a client that has a stub, no submitted call ever has an effect: its promise
  is neither given a value nor an exception, and its callback is never called.\<close>

theorem submit_future_never_ready:
  assumes "reach (\<lambda>s. s = GrpcClient_new True) (client_step conv r0) s"
    and "c \<in> set (calls s)" and "call_kind c = SubmitCall"
  shows "effects c = [] \<and> in_flight c = 0 \<and> call_tag c \<noteq> None"
  using client.reach_inv [OF assms(1)] assms(2,3) by (auto simp: client_inv_def call_ok_def)

theorem submit_future_never_ready_witness:
  "\<exists>s c. reach (\<lambda>s. s = GrpcClient_new True) (client_step (\<lambda>x. x) 0) (s :: (nat, nat) GrpcClient) \<and>
     c \<in> set (calls s) \<and> call_kind c = SubmitCall \<and> effects c = []"
proof -
  let ?s = "submit_task_async True 0 True (GrpcClient_new True) :: (nat, nat) GrpcClient"
  have "client_step (\<lambda>x. x) 0 (GrpcClient_new True) ?s"
    by (rule client_step.submit) (simp add: GrpcClient_new_def)
  then have r: "reach (\<lambda>s. s = GrpcClient_new True) (client_step (\<lambda>x. x) 0) ?s"
    by (rule reach.reach_step [rotated]) (rule reach.reach_init, rule refl)
  obtain c where c: "c \<in> set (calls ?s)" "call_kind c = SubmitCall"
    by (auto simp: submit_task_async_def GrpcClient_new_def)
  from submit_future_never_ready [OF r c] r c show ?thesis by blast
qed

text \<open>C23: a result stream with a callback that opens, delivers any number of messages with a task
  and then ends, with a failed read or with a message without a task, calls the callback once
  per message, in order. It starts one read when it opens and one after each message, then
  exactly one \<open>Finish\<close>; when that completes, the tag is deleted with nothing in flight, after one
  more callback exactly when the final status is an error. A stream that fails to open starts
  nothing but the \<open>Finish\<close>, and ends in the same way.\<close>

theorem listen_stream_callbacks:
  assumes "lst_step tag = L_Start" and "lst_callback tag"
    and "es = \<lparr>c_op = OpStart, c_ok = True, c_response = None, c_status = st0\<rparr> #
      map (\<lambda>m. \<lparr>c_op = OpRead, c_ok = True, c_response = Some m, c_status = st0\<rparr>) ms @
      [\<lparr>c_op = OpRead, c_ok = b, c_response = None, c_status = st0\<rparr>,
       \<lparr>c_op = OpFinish, c_ok = True, c_response = None, c_status = st\<rparr>]"
    and "fs = [\<lparr>c_op = OpStart, c_ok = False, c_response = None, c_status = st0\<rparr>,
      \<lparr>c_op = OpFinish, c_ok = True, c_response = None, c_status = st\<rparr>]"
  shows "drive (listen_deliver conv) es (Alive tag 1 []) =
     Deleted 0 (map (\<lambda>m. CallCb (Given (conv m)) Status_OK) ms @
       (if status_ok st then [] else [CallCb DefaultTask st])) \<and>
   started_ops (listen_deliver conv) es tag = OpRead # replicate (length ms) OpRead @ [OpFinish] \<and>
   drive (listen_deliver conv) fs (Alive tag 1 []) =
     Deleted 0 (if status_ok st then [] else [CallCb DefaultTask st]) \<and>
   started_ops (listen_deliver conv) fs tag = [OpFinish]"
proof -
  let ?es = "[\<lparr>c_op = OpRead, c_ok = b, c_response = None, c_status = st0\<rparr>,
       \<lparr>c_op = OpFinish, c_ok = True, c_response = None, c_status = st\<rparr>]"
  let ?ms = "map (\<lambda>m. \<lparr>c_op = OpRead, c_ok = True, c_response = Some m, c_status = st0\<rparr>) ms"
  obtain tag' where "drive (listen_deliver conv) (?ms @ ?es) (Alive (tag\<lparr>lst_step := L_Read\<rparr>) 1 []) =
    drive (listen_deliver conv) ?es (Alive tag' 1 ([] @ map (\<lambda>m. CallCb (Given (conv m)) Status_OK) ms))"
    "started_ops (listen_deliver conv) (?ms @ ?es) (tag\<lparr>lst_step := L_Read\<rparr>) =
     replicate (length ms) OpRead @ started_ops (listen_deliver conv) ?es tag'"
    "lst_step tag' = L_Read" "lst_callback tag'"
    using listen_reads [of "tag\<lparr>lst_step := L_Read\<rparr>" conv st0 ms ?es "[]"] assms(1,2) by auto
  with assms show ?thesis by (cases b) (simp_all add: listen_defs Let_def)
qed

theorem listen_stream_callbacks_witness:
  "drive (listen_deliver Suc)
     (\<lparr>c_op = OpStart, c_ok = True, c_response = None, c_status = Status_OK\<rparr> #
      map (\<lambda>m. \<lparr>c_op = OpRead, c_ok = True, c_response = Some m, c_status = Status_OK\<rparr>) [4, 7] @
      [\<lparr>c_op = OpRead, c_ok = False, c_response = None, c_status = Status_OK\<rparr>,
       \<lparr>c_op = OpFinish, c_ok = True, c_response = None, c_status = Status_OK\<rparr>])
     (Alive (AsyncListenTag_new True) 1 []) =
   Deleted 0 [CallCb (Given 5) Status_OK, CallCb (Given 8) Status_OK]"
  using listen_stream_callbacks [OF _ _ refl refl, where tag = "AsyncListenTag_new True" and ms = "[4, 7]" and b = False
      and st = Status_OK and ?st0.0 = Status_OK and conv = Suc]
  by (simp add: AsyncListenTag_new_def status_ok_def Status_OK_def)

text \<open>The blocking wrappers never return: the asynchronous calls under them dereference the
  pointer they have just released.\<close>

theorem blocking_calls_crash:
  "cancel_task task_id s = Crashes NullDeref \<and> query_status r0 task_id s = Crashes NullDeref"
  by (simp add: cancel_task_def query_status_def future_of_def cancel_task_async_def query_status_async_def)

end
