(* ===== verification/Api_Server.thy ===== *)
theory Api_Server
  imports Task_Model
begin

text \<open>
  Model of \<open>src/api-server\<close>: the call contexts of the asynchronous server and their cycle
  through the completion queues, start-up and shutdown, and the reading of the port in
  \<open>main.cpp\<close>; and of \<open>src/common/include/logger.hpp\<close>.

  The gRPC library is the environment: an operation started with a context completes once, with
  any \<open>ok\<close>; a request operation that completes brings any request. A context lives in a slot
  together with the number of its operations in flight. \<open>served\<close> logs the responses handed to
  \<open>Finish\<close>, \<open>lost\<close> counts the contexts that were deleted without a successor.
\<close>

subsection \<open>Call contexts\<close>

datatype CallStatus = CREATE | FINISH | REARM

record 's AsyncCallContext =
  ctx_cq :: nat
  ctx_status :: CallStatus
  ctx_request :: "'s PbTask option"
  ctx_response :: "'s PbTask option"

text \<open>The constructor registers the context for the next request.\<close>

definition AsyncCallContext_new :: "nat \<Rightarrow> 's AsyncCallContext" where
  "AsyncCallContext_new q = \<lparr>ctx_cq = q, ctx_status = CREATE, ctx_request = None, ctx_response = None\<rparr>"

definition OnSubmitTask :: "'s AsyncCallContext \<Rightarrow> 's AsyncCallContext" where
  "OnSubmitTask ctx = ctx\<lparr>ctx_response := map_option (\<lambda>t. t\<lparr>pb_state := 2\<rparr>) (ctx_request ctx)\<rparr>"

text \<open>
  What \<open>Proceed\<close> leaves behind: nothing, the context with its response on the way, or a new
  context on the same queue in its place.
\<close>

datatype 's proceed_result =
    Destroyed | Responding "'s AsyncCallContext" | Replaced "'s AsyncCallContext" | Unchanged

definition Proceed :: "bool \<Rightarrow> 's AsyncCallContext \<Rightarrow> 's proceed_result" where
  "Proceed okay ctx =
     (if \<not> okay then Destroyed
      else case ctx_status ctx of
          CREATE \<Rightarrow> Responding ((OnSubmitTask ctx)\<lparr>ctx_status := FINISH\<rparr>)
        | FINISH \<Rightarrow> Replaced (AsyncCallContext_new (ctx_cq ctx))
        | REARM \<Rightarrow> Unchanged)"

subsection \<open>The server\<close>

datatype server_error = NullServer | DivisionByZero | RequestAfterShutdown | DeadContext

datatype server_phase = NotStarted | Serving | ServerDown | QueuesDown

record 's slot =
  slot_ctx :: "'s AsyncCallContext option"
  slot_flight :: nat

record 's AsyncServer =
  phase :: server_phase
  slots :: "'s slot list"
  shutdown_flag :: bool
  listen_port :: int
  submit_task_handler :: bool
  served :: "('s PbTask \<times> 's PbTask) list"
  lost :: nat
  server_ub :: "server_error option"

definition AsyncServer_new :: "'s AsyncServer" where
  "AsyncServer_new =
     \<lparr>phase = NotStarted, slots = [], shutdown_flag = False, listen_port = 0,
      submit_task_handler = False, served = [], lost = 0, server_ub = None\<rparr>"

definition SetSubmitTaskHandler :: "'s AsyncServer \<Rightarrow> 's AsyncServer" where
  "SetSubmitTaskHandler s = s\<lparr>submit_task_handler := True\<rparr>"

text \<open>The contexts that \<open>Run\<close> creates: context \<open>i\<close> on queue \<open>i % cq_count\<close>.\<close>

definition initial_contexts :: "nat \<Rightarrow> int \<Rightarrow> 's AsyncCallContext list" where
  "initial_contexts cq_count c = map (\<lambda>i. AsyncCallContext_new (i mod cq_count)) [0..<nat c]"

definition fresh_slot :: "'s AsyncCallContext \<Rightarrow> 's slot" where
  "fresh_slot ctx = \<lparr>slot_ctx = Some ctx, slot_flight = 1\<rparr>"

text \<open>
  \<open>hc\<close> is \<open>hardware_concurrency()\<close>, which may be 0, \<open>c\<close> the number of contexts, and \<open>built\<close> tells
  whether \<open>BuildAndStart\<close> returned a server. The first context divides by the number of queues,
  then requests a call from the server.
\<close>

definition Run :: "nat \<Rightarrow> int \<Rightarrow> bool \<Rightarrow> int \<Rightarrow> 's AsyncServer \<Rightarrow> 's AsyncServer" where
  "Run hc c built bound_port s =
     (let s1 = s\<lparr>phase := (if built then Serving else NotStarted), listen_port := bound_port\<rparr>
      in if hc = 0 \<and> 0 < c then s1\<lparr>server_ub := Some DivisionByZero\<rparr>
         else if \<not> built \<and> 0 < c then s1\<lparr>server_ub := Some NullServer\<rparr>
         else s1\<lparr>slots := slots s1 @ map fresh_slot (initial_contexts hc c)\<rparr>)"

definition ListenPort :: "'s AsyncServer \<Rightarrow> 16 word" where
  "ListenPort s = of_int (listen_port s)"

text \<open>
  \<open>Shutdown\<close>: the flag and the server, then every queue, then the threads. A completion thread
  ends when its queue was shut down and has nothing left to deliver. Both shutdowns may be
  repeated.
\<close>

definition Shutdown_server :: "'s AsyncServer \<Rightarrow> 's AsyncServer" where
  "Shutdown_server s =
     (if phase s = NotStarted then s\<lparr>shutdown_flag := True, server_ub := Some NullServer\<rparr>
      else s\<lparr>shutdown_flag := True, phase := (if phase s = Serving then ServerDown else phase s)\<rparr>)"

definition Shutdown_queues :: "'s AsyncServer \<Rightarrow> 's AsyncServer" where
  "Shutdown_queues s = s\<lparr>phase := QueuesDown\<rparr>"

definition drained :: "'s AsyncServer \<Rightarrow> bool" where
  "drained s \<longleftrightarrow> phase s = QueuesDown \<and> list_all (\<lambda>sl. slot_flight sl = 0) (slots s)"

text \<open>
  One event of \<open>DriveCompletionQueue\<close>: a completion for slot \<open>i\<close>. A completed request
  operation has filled in the request. Registering a context on a queue that was shut down is
  an error of the library.
\<close>

definition receive :: "bool \<Rightarrow> 's PbTask \<Rightarrow> 's AsyncCallContext \<Rightarrow> 's AsyncCallContext" where
  "receive okay req ctx =
     (if okay \<and> ctx_status ctx = CREATE then ctx\<lparr>ctx_request := Some req\<rparr> else ctx)"

definition DriveCompletionQueue :: "nat \<Rightarrow> bool \<Rightarrow> 's PbTask \<Rightarrow> 's AsyncServer \<Rightarrow> 's AsyncServer" where
  "DriveCompletionQueue i okay req s =
     (case slot_ctx (slots s ! i) of
        None \<Rightarrow> s\<lparr>server_ub := Some DeadContext\<rparr>
      | Some ctx \<Rightarrow>
          (case Proceed okay (receive okay req ctx) of
             Destroyed \<Rightarrow>
               s\<lparr>slots := (slots s)[i := \<lparr>slot_ctx = None, slot_flight = slot_flight (slots s ! i) - 1\<rparr>],
                 lost := Suc (lost s)\<rparr>
           | Responding ctx' \<Rightarrow>
               s\<lparr>slots := (slots s)[i := (slots s ! i)\<lparr>slot_ctx := Some ctx'\<rparr>],
                 served := served s @ (case (ctx_request ctx', ctx_response ctx') of
                     (Some rq, Some rp) \<Rightarrow> [(rq, rp)] | _ \<Rightarrow> [])\<rparr>
           | Replaced ctx' \<Rightarrow>
               if phase s = QueuesDown then s\<lparr>server_ub := Some RequestAfterShutdown\<rparr>
               else s\<lparr>slots := (slots s)[i := \<lparr>slot_ctx = None, slot_flight = slot_flight (slots s ! i) - 1\<rparr>]
                        @ [fresh_slot ctx']\<rparr>
           | Unchanged \<Rightarrow>
               s\<lparr>slots := (slots s)[i := (slots s ! i)\<lparr>slot_flight := slot_flight (slots s ! i) - 1\<rparr>]\<rparr>))"

inductive server_step :: "'s AsyncServer \<Rightarrow> 's AsyncServer \<Rightarrow> bool" where
  event: "server_ub s = None \<Longrightarrow> i < length (slots s) \<Longrightarrow> 0 < slot_flight (slots s ! i) \<Longrightarrow>
    server_step s (DriveCompletionQueue i okay req s)"
| handler: "server_ub s = None \<Longrightarrow> server_step s (SetSubmitTaskHandler s)"
| down: "server_ub s = None \<Longrightarrow> server_step s (Shutdown_server s)"
| queues_down: "server_ub s = None \<Longrightarrow> phase s \<in> {ServerDown, QueuesDown} \<Longrightarrow>
    server_step s (Shutdown_queues s)"

text \<open>A server after \<open>Run\<close> with \<open>c\<close> contexts.\<close>

definition server_init :: "nat \<Rightarrow> int \<Rightarrow> 's AsyncServer \<Rightarrow> bool" where
  "server_init hc c s \<longleftrightarrow> 0 < hc \<and> (\<exists>p. s = Run hc c True p AsyncServer_new)"

subsection \<open>main.cpp\<close>

datatype stoi_error = InvalidArgument | OutOfRangeInt

definition is_space :: "char \<Rightarrow> bool" where
  "is_space ch \<longleftrightarrow> ch = CHR '' '' \<or> (9 \<le> (of_char ch :: nat) \<and> (of_char ch :: nat) \<le> 13)"

definition is_digit :: "char \<Rightarrow> bool" where
  "is_digit ch \<longleftrightarrow> 48 \<le> (of_char ch :: nat) \<and> (of_char ch :: nat) \<le> 57"

fun read_digits :: "int \<Rightarrow> string \<Rightarrow> int" where
  "read_digits acc [] = acc"
| "read_digits acc (ch # cs) =
     (if is_digit ch then read_digits (10 * acc + (of_char ch - 48)) cs else acc)"

text \<open>\<open>std::stoi\<close>: white space, an optional sign, the longest run of digits.\<close>

definition stoi :: "string \<Rightarrow> stoi_error + int" where
  "stoi s =
     (let s1 = dropWhile is_space s;
          neg = (s1 \<noteq> [] \<and> hd s1 = CHR ''-'');
          s2 = (if s1 \<noteq> [] \<and> (hd s1 = CHR ''-'' \<or> hd s1 = CHR ''+'') then tl s1 else s1)
      in if s2 = [] \<or> \<not> is_digit (hd s2) then Inl InvalidArgument
         else let v = (if neg then - read_digits 0 s2 else read_digits 0 s2)
              in if v < - (2 ^ 31) \<or> v > 2 ^ 31 - 1 then Inl OutOfRangeInt else Inr v)"

definition main_port :: "string option \<Rightarrow> stoi_error + 16 word" where
  "main_port env =
     (case env of None \<Rightarrow> Inr 0 | Some p \<Rightarrow> try_bind (stoi p) (\<lambda>v. Inr (of_int v)))"

definition context_count :: "nat \<Rightarrow> string option \<Rightarrow> stoi_error + int" where
  "context_count hc env = (case env of None \<Rightarrow> Inr (2 * int hc) | Some p \<Rightarrow> stoi p)"

definition listen_address :: "16 word \<Rightarrow> string" where
  "listen_address port =
     (if port \<noteq> 0 then ''0.0.0.0:'' @ to_string (unat port) else ''0.0.0.0:0'')"

subsection \<open>logger.hpp\<close>

record glog_flags =
  logtostderr :: bool
  minloglevel :: int
  log_dir :: string
  max_log_size :: nat
  stop_logging_if_full_disk :: bool
  colorlogtostderr :: bool
  failure_handler :: bool

definition InitGlog :: "bool \<Rightarrow> glog_flags \<Rightarrow> glog_flags" where
  "InitGlog unit_test f =
     (if unit_test then f\<lparr>logtostderr := True, minloglevel := 1\<rparr>
      else f\<lparr>log_dir := ''/var/log/dts'', max_log_size := 100, stop_logging_if_full_disk := True,
             colorlogtostderr := True, failure_handler := True\<rparr>)"

subsection \<open>Specification\<close>

definition occupied :: "'s slot \<Rightarrow> bool" where
  "occupied sl \<longleftrightarrow> slot_ctx sl \<noteq> None"

definition slot_ok :: "'s slot \<Rightarrow> bool" where
  "slot_ok sl \<longleftrightarrow>
     slot_flight sl = of_bool (slot_ctx sl \<noteq> None) \<and>
     (\<forall>ctx. slot_ctx sl = Some ctx \<longrightarrow> ctx_status ctx \<noteq> REARM)"

definition server_inv :: "nat \<Rightarrow> 's AsyncServer \<Rightarrow> bool" where
  "server_inv n s \<longleftrightarrow>
     (\<forall>sl \<in> set (slots s). slot_ok sl) \<and> server_ub s \<noteq> Some DeadContext \<and>
     int (cnt occupied (slots s)) + int (lost s) = int n \<and>
     (\<forall>(rq, rp) \<in> set (served s). rp = rq\<lparr>pb_state := 2\<rparr>)"

subsection \<open>The cycle of the contexts\<close>

lemma event_inv:
  assumes inv: "server_inv n s" and i: "i < length (slots s)" and fl: "0 < slot_flight (slots s ! i)"
  shows "server_inv n (DriveCompletionQueue i okay req s)"
proof -
  from inv i have sl: "slot_ok (slots s ! i)" by (simp add: server_inv_def)
  with fl obtain ctx where ctx: "slot_ctx (slots s ! i) = Some ctx" "slot_flight (slots s ! i) = 1"
    "ctx_status ctx \<noteq> REARM" by (auto simp: slot_ok_def split: if_splits)
  have upd: "int (cnt occupied ((slots s)[i := x])) = int (cnt occupied (slots s)) + of_bool (occupied x) - 1" for x
    using of_nat_cnt_update [OF i, where 'a = int and P = occupied and y = x] ctx(1)
    by (simp add: occupied_def)
  have all: "slot_ok y" if "y \<in> set ((slots s)[i := x])" "slot_ok x" for x y
    using that inv set_update_subset_insert [of "slots s" i x] by (auto simp: server_inv_def)
  show ?thesis
  proof (cases "okay")
    case False
    with inv ctx show ?thesis
      by (auto simp: DriveCompletionQueue_def Proceed_def server_inv_def upd occupied_def
          dest!: all simp: slot_ok_def)
  next
    case True
    show ?thesis
    proof (cases "ctx_status ctx")
      case CREATE
      with True inv ctx show ?thesis
        by (auto simp: DriveCompletionQueue_def Proceed_def receive_def OnSubmitTask_def server_inv_def
            upd occupied_def dest!: all simp: slot_ok_def)
    next
      case FINISH
      with True inv ctx show ?thesis
        by (auto simp: DriveCompletionQueue_def Proceed_def receive_def AsyncCallContext_new_def
            fresh_slot_def server_inv_def upd occupied_def dest!: all simp: slot_ok_def)
    next
      case REARM
      with ctx(3) show ?thesis by simp
    qed
  qed
qed

lemma initial_slots:
  "cnt occupied (map fresh_slot (initial_contexts hc c)) = nat c"
  "sl \<in> set (map fresh_slot (initial_contexts hc c)) \<Longrightarrow> slot_ok sl"
  by (auto simp: initial_contexts_def cnt_def fresh_slot_def occupied_def comp_def slot_ok_def
      AsyncCallContext_new_def)

lemma server_init_inv: "server_init hc c s \<Longrightarrow> server_inv (nat c) s"
  by (auto simp: server_init_def Run_def AsyncServer_new_def server_inv_def initial_slots(1)
      simp del: set_map list.set_map intro: initial_slots(2))

interpretation server: invariant_system "server_init hc c" server_step "server_inv (nat c)" for hc c
proof unfold_locales
  fix s :: "'a AsyncServer"
  assume "server_init hc c s"
  then show "server_inv (nat c) s" by (rule server_init_inv)
next
  fix s s' :: "'a AsyncServer"
  assume "server_step s s'" and inv: "server_inv (nat c) s"
  then show "server_inv (nat c) s'"
  proof cases
    case (event i okay req)
    with event_inv [OF inv] show ?thesis by simp
  qed (use inv in \<open>auto simp: server_inv_def SetSubmitTaskHandler_def Shutdown_server_def Shutdown_queues_def\<close>)
qed

lemma count_mod:
  assumes "q < h"
  shows "length (filter (\<lambda>i. i mod h = q) [0..<n]) = n div h + of_bool (q < n mod h)"
proof (induction n)
  case (Suc n)
  with assms show ?case by (auto simp: mod_Suc div_Suc)
qed simp

subsection \<open>Decimal numbers\<close>

lemma of_char_digit: "k < 10 \<Longrightarrow> (of_char (char_of (48 + k :: nat)) :: nat) = 48 + k"
  by simp

lemma digit_value: "k < 10 \<Longrightarrow> (of_char (char_of (48 + k :: nat)) :: int) = 48 + int k"
  using of_nat_of_char [of "char_of (48 + k)", where 'a = int] by simp

lemma digit_char: "k < 10 \<Longrightarrow> is_digit (char_of (48 + k :: nat))"
  by (simp add: is_digit_def)

lemma to_string_digits: "to_string n \<noteq> [] \<and> (\<forall>ch \<in> set (to_string n). is_digit ch)"
proof (induction n rule: to_string.induct)
  case (1 n)
  then show ?case
    using digit_char [of n] digit_char [of "n mod 10"] by (subst (1 2) to_string.simps) auto
qed

lemma read_digits_snoc:
  "(\<forall>ch \<in> set xs. is_digit ch) \<Longrightarrow> is_digit d \<Longrightarrow>
   read_digits acc (xs @ [d]) = 10 * read_digits acc xs + (of_char d - 48)"
  by (induction xs arbitrary: acc) auto

lemma read_to_string: "read_digits 0 (to_string n) = int n"
proof (induction n rule: to_string.induct)
  case (1 n)
  show ?case
  proof (cases "n < 10")
    case True
    then show ?thesis by (subst to_string.simps) (simp add: digit_char digit_value)
  next
    case False
    then have "read_digits 0 (to_string n) = 10 * int (n div 10) + int (n mod 10)"
      using 1 to_string_digits [of "n div 10"]
      by (subst to_string.simps) (simp add: read_digits_snoc digit_char digit_value)
    then show ?thesis by (simp add: zdiv_int zmod_int)
  qed
qed

lemma stoi_to_string:
  assumes "n < 2 ^ 31"
  shows "stoi (to_string n) = Inr (int n)"
proof -
  obtain ch cs where s: "to_string n = ch # cs" and d: "is_digit ch"
    using to_string_digits [of n] by (cases "to_string n") auto
  from d have "\<not> is_space ch" "ch \<noteq> CHR ''-''" "ch \<noteq> CHR ''+''"
    by (auto simp: is_digit_def is_space_def)
  with s d read_to_string [of n] assms show ?thesis by (simp add: stoi_def Let_def del: read_digits.simps)
qed

subsection \<open>Properties\<close>

text \<open>C10: in every run of the server, whatever the completion queues deliver, each living context
  has exactly one operation in flight and no completion reaches a deleted one; and the living
  contexts and those lost to a failed completion add up to the number that \<open>Run\<close> created. So
  the capacity of the server never grows, and every failed completion lowers it for good.\<close>

theorem server_capacity:
  assumes "reach (server_init hc c) server_step s"
  shows "cnt occupied (slots s) + lost s = nat c \<and> server_ub s \<noteq> Some DeadContext \<and>
     (\<forall>sl \<in> set (slots s). slot_flight sl = of_bool (slot_ctx sl \<noteq> None))"
proof -
  from server.reach_inv [OF assms] have inv: "server_inv (nat c) s" .
  then have "int (cnt occupied (slots s) + lost s) = int (nat c)"
    by (simp only: server_inv_def of_nat_add)
  then have "cnt occupied (slots s) + lost s = nat c" by (simp only: of_nat_eq_iff)
  with inv show ?thesis by (auto simp: server_inv_def slot_ok_def)
qed

theorem server_capacity_witness:
  "\<exists>s. reach (server_init 2 4) server_step (s :: nat AsyncServer) \<and> lost s = 1 \<and> cnt occupied (slots s) = 3"
proof -
  let ?base = "Run 2 4 True 8080 AsyncServer_new :: nat AsyncServer"
  let ?s = "DriveCompletionQueue 0 False undefined ?base"
  have r0: "reach (server_init 2 4) server_step ?base"
    by (rule reach.reach_init) (auto simp: server_init_def)
  have sl: "slots ?base = map fresh_slot (initial_contexts 2 4)" "server_ub ?base = None" "lost ?base = 0"
    by (simp_all add: Run_def AsyncServer_new_def)
  have "(initial_contexts 2 4 :: nat AsyncCallContext list) =
      [AsyncCallContext_new 0, AsyncCallContext_new 1, AsyncCallContext_new 0, AsyncCallContext_new 1]"
    by code_simp
  with sl have four: "slots ?base = map fresh_slot
      [AsyncCallContext_new 0, AsyncCallContext_new 1, AsyncCallContext_new 0, AsyncCallContext_new 1]"
    by simp
  have "server_step ?base ?s"
    by (rule server_step.event) (simp_all add: four sl(2), simp add: fresh_slot_def)
  with r0 have r: "reach (server_init 2 4) server_step ?s" by (rule reach.reach_step)
  have "lost ?s = 1"
    by (simp add: DriveCompletionQueue_def four fresh_slot_def Proceed_def sl(3))
  with server_capacity [OF r] r show ?thesis by (intro exI [of _ ?s]) simp
qed

text \<open>Every response the server ever sends is the request it answers with its state set to
  \<open>SUCCESS\<close>, whether or not a handler was registered: the handler is stored and never called.\<close>

theorem server_echoes:
  assumes "reach (server_init hc c) server_step s" and "(rq, rp) \<in> set (served s)"
  shows "rp = rq\<lparr>pb_state := 2\<rparr>"
  using server.reach_inv [OF assms(1)] assms(2) by (auto simp: server_inv_def)

theorem server_echoes_witness:
  "\<exists>s rq. reach (server_init 1 1) server_step (s :: nat AsyncServer) \<and> submit_task_handler s \<and>
     served s = [(rq, rq\<lparr>pb_state := 2\<rparr>)]"
proof -
  let ?base = "Run 1 1 True 8080 AsyncServer_new :: nat AsyncServer"
  let ?reg = "SetSubmitTaskHandler ?base"
  let ?s = "DriveCompletionQueue 0 True undefined ?reg"
  have ic: "(initial_contexts 1 1 :: nat AsyncCallContext list) = [AsyncCallContext_new 0]"
    by (simp add: initial_contexts_def)
  have one: "slots ?reg = [fresh_slot (AsyncCallContext_new 0)]" "server_ub ?base = None" "server_ub ?reg = None"
    "served ?reg = []" "submit_task_handler ?reg"
    using ic by (simp_all add: Run_def AsyncServer_new_def SetSubmitTaskHandler_def)
  have "reach (server_init 1 1) server_step ?base"
    by (rule reach.reach_init) (auto simp: server_init_def)
  then have r1: "reach (server_init 1 1) server_step ?reg"
    by (rule reach.reach_step) (rule server_step.handler, rule one(2))
  have "server_step ?reg ?s"
    by (rule server_step.event; unfold one) (simp_all add: fresh_slot_def)
  with r1 have r: "reach (server_init 1 1) server_step ?s" by (rule reach.reach_step)
  have "\<exists>rq rp. served ?s = [(rq, rp)]" "submit_task_handler ?s"
    using one by (simp_all add: DriveCompletionQueue_def Proceed_def receive_def OnSubmitTask_def
        fresh_slot_def AsyncCallContext_new_def)
  with server_echoes [OF r] r show ?thesis by fastforce
qed

text \<open>\<open>Run\<close> spreads the contexts evenly: each of the completion queues gets the quotient of
  contexts and queues, or one more.\<close>

theorem contexts_balanced:
  assumes "q < hc"
  shows "length (filter (\<lambda>ctx. ctx_cq ctx = q) (initial_contexts hc c)) =
     nat c div hc + of_bool (q < nat c mod hc)"
  unfolding initial_contexts_def
  by (simp add: filter_map comp_def AsyncCallContext_new_def count_mod [OF assms])

theorem contexts_balanced_witness:
  "length (filter (\<lambda>ctx. ctx_cq ctx = 1) (initial_contexts 3 8 :: nat AsyncCallContext list)) = 3"
  using contexts_balanced [of 1 3 8] by simp

text \<open>The port that \<open>main\<close> reads from a decimal environment variable is the number modulo
  \<open>2 ^ 16\<close>: exact for every valid port, and wrapped without an error beyond.\<close>

theorem port_from_environment:
  assumes "n < 2 ^ 31"
  shows "main_port (Some (to_string n)) = Inr (of_nat n) \<and>
     (n < 2 ^ 16 \<longrightarrow> (\<exists>p. main_port (Some (to_string n)) = Inr p \<and> unat p = n))"
  using stoi_to_string [OF assms] by (auto simp: main_port_def unat_of_nat)

theorem port_from_environment_witness:
  "main_port (Some (to_string 65536)) = Inr 0 \<and> (\<exists>p. main_port (Some (to_string 8080)) = Inr p \<and> unat p = 8080)"
proof -
  have "of_nat 65536 = (0 :: 16 word)" by simp
  with port_from_environment [of 65536] port_from_environment [of 8080] show ?thesis by simp
qed

end
