(* ===== verification/Client_Server.thy ===== *)
theory Client_Server
  imports Grpc_Client Api_Server
begin

text \<open>
  Clients and the server over one channel. Threads call \<open>submit_task_sync\<close> of
  \<open>grpc_client.cpp\<close>; each call converts its task, sends the message and blocks in the library's
  \<open>SubmitTask\<close>. The server takes a request when a completion queue delivers a context that waits
  for one; what the context hands to \<open>responder_.Finish\<close> is the answer on its way back. The
  channel may fail a call at any time, after its deadline for instance, and the server serves the
  requests of other processes too.

  The asynchronous call is not part of the session: its request is sent, but no answer reaches
  the caller (\<open>submit_future_never_ready\<close>).
\<close>

subsection \<open>State\<close>

text \<open>A call: converted and sent, answered, or returned to its caller.\<close>

datatype ('s, 'b) sync_pc =
    Sent "'s PbTask" | Replied "'s PbTask" "'s PbTask" | Returned "json_error option call_error + 'b"

record ('j, 's) caller =
  sync_task :: "'j Task"
  sync_pc :: "('s, 'j Task option) sync_pc"

record ('j, 's) Session =
  srv :: "'s AsyncServer"
  client :: "('s PbTask, 'j Task) GrpcClient"
  callers :: "('j, 's) caller list"

subsection \<open>Steps\<close>

text \<open>\<open>TaskToProto\<close> as the client sees it: a message or an exception. No error is the lack of fuel.\<close>

definition to_message ::
  "'j json_api \<Rightarrow> ('s, 'v) struct_api \<Rightarrow> nat \<Rightarrow> 'j Task \<Rightarrow> json_error option + 's PbTask" where
  "to_message J P n task =
     (case TaskToProto J P n task of
        None \<Rightarrow> Inl None | Some (Inl e) \<Rightarrow> Inl (Some e) | Some (Inr pb) \<Rightarrow> Inr pb)"

text \<open>
  What \<open>submit_task_sync\<close> returns when \<open>SubmitTask\<close> came back with \<open>answer\<close>; \<open>flag\<close> is the address
  of the cancellation flag of the new task.
\<close>

definition sync_result ::
  "'j json_api \<Rightarrow> ('s, 'v) struct_api \<Rightarrow> nat \<Rightarrow> addr \<Rightarrow> Status \<times> 's PbTask \<Rightarrow> 'j Task \<Rightarrow>
   ('s PbTask, 'j Task) GrpcClient \<Rightarrow> json_error option call_error + 'j Task option" where
  "sync_result J P n flag answer task cl =
     submit_task_sync (to_message J P n) (TaskFromProto J P n flag) (\<lambda>_. answer) task cl"

text \<open>
  A call begins: without a stub, or when the conversion throws, it returns at once; the answer
  it is given then is not looked at.
\<close>

definition start_call ::
  "'j json_api \<Rightarrow> ('s, 'v) struct_api \<Rightarrow> nat \<Rightarrow> addr \<Rightarrow> Status \<times> 's PbTask \<Rightarrow> 'j Task \<Rightarrow>
   ('s PbTask, 'j Task) GrpcClient \<Rightarrow> ('j, 's) caller" where
  "start_call J P n flag answer task cl =
     \<lparr>sync_task = task, sync_pc =
        (case to_message J P n task of
           Inr req \<Rightarrow> if stub cl then Sent req else Returned (sync_result J P n flag answer task cl)
         | Inl _ \<Rightarrow> Returned (sync_result J P n flag answer task cl))\<rparr>"

definition goto_pc :: "nat \<Rightarrow> ('s, 'j Task option) sync_pc \<Rightarrow> ('j, 's) Session \<Rightarrow> ('j, 's) Session" where
  "goto_pc k p s = s\<lparr>callers := (callers s)[k := (callers s ! k)\<lparr>sync_pc := p\<rparr>]\<rparr>"

text \<open>The context of slot \<open>i\<close> waits for a request.\<close>

definition waits :: "'s AsyncServer \<Rightarrow> nat \<Rightarrow> bool" where
  "waits sv i \<longleftrightarrow> i < length (slots sv) \<and> 0 < slot_flight (slots sv ! i) \<and>
     map_option ctx_status (slot_ctx (slots sv ! i)) = Some CREATE"

definition reply_of :: "'s AsyncServer \<Rightarrow> nat \<Rightarrow> 's PbTask option" where
  "reply_of sv i = Option.bind (slot_ctx (slots sv ! i)) ctx_response"

text \<open>
  A call of the client; the server taking the request of call \<open>k\<close>; the answer reaching it; the
  channel failing it; and any step of the server by itself, requests of other processes among
  them.
\<close>

inductive session_step ::
  "'j json_api \<Rightarrow> ('s, 'v) struct_api \<Rightarrow> nat \<Rightarrow> ('j, 's) Session \<Rightarrow> ('j, 's) Session \<Rightarrow> bool"
  for J P n where
  call: "session_step J P n s (s\<lparr>callers := callers s @ [start_call J P n flag answer task (client s)]\<rparr>)"
| accept: "k < length (callers s) \<Longrightarrow> sync_pc (callers s ! k) = Sent req \<Longrightarrow>
    server_ub (srv s) = None \<Longrightarrow> phase (srv s) = Serving \<Longrightarrow> waits (srv s) i \<Longrightarrow>
    sv = DriveCompletionQueue i True req (srv s) \<Longrightarrow> reply_of sv i = Some resp \<Longrightarrow>
    session_step J P n s (goto_pc k (Replied req resp) (s\<lparr>srv := sv\<rparr>))"
| deliver: "k < length (callers s) \<Longrightarrow> sync_pc (callers s ! k) = Replied req resp \<Longrightarrow>
    session_step J P n s
      (goto_pc k (Returned (sync_result J P n flag (Status_OK, resp) (sync_task (callers s ! k)) (client s))) s)"
| fails: "k < length (callers s) \<Longrightarrow> sync_pc (callers s ! k) \<in> {Sent req, Replied req resp} \<Longrightarrow>
    \<not> status_ok st \<Longrightarrow>
    session_step J P n s
      (goto_pc k (Returned (sync_result J P n flag (st, any) (sync_task (callers s ! k)) (client s))) s)"
| serves: "server_step (srv s) sv \<Longrightarrow> session_step J P n s (s\<lparr>srv := sv\<rparr>)"

definition session_init :: "nat \<Rightarrow> int \<Rightarrow> ('j, 's) Session \<Rightarrow> bool" where
  "session_init hc c s \<longleftrightarrow>
     server_init hc c (srv s) \<and> (\<exists>has_stub. client s = GrpcClient_new has_stub) \<and> callers s = []"

subsection \<open>Specification\<close>

text \<open>The server's answer to a request.\<close>

definition answered :: "'s AsyncServer \<Rightarrow> 's PbTask \<Rightarrow> bool" where
  "answered sv req \<longleftrightarrow> (req, req\<lparr>pb_state := 2\<rparr>) \<in> set (served sv)"

definition call_inv ::
  "'j json_api \<Rightarrow> ('s, 'v) struct_api \<Rightarrow> nat \<Rightarrow> ('j, 's) Session \<Rightarrow> ('j, 's) caller \<Rightarrow> bool" where
  "call_inv J P n s c \<longleftrightarrow>
     (case sync_pc c of
        Sent req \<Rightarrow> stub (client s) \<and> to_message J P n (sync_task c) = Inr req
      | Replied req resp \<Rightarrow> stub (client s) \<and> to_message J P n (sync_task c) = Inr req \<and>
          resp = req\<lparr>pb_state := 2\<rparr> \<and> answered (srv s) req
      | Returned (Inl e) \<Rightarrow> True
      | Returned (Inr t) \<Rightarrow> \<exists>req flag. to_message J P n (sync_task c) = Inr req \<and>
          t = TaskFromProto J P n flag (req\<lparr>pb_state := 2\<rparr>) \<and> answered (srv s) req)"

definition session_inv ::
  "'j json_api \<Rightarrow> ('s, 'v) struct_api \<Rightarrow> nat \<Rightarrow> ('j, 's) Session \<Rightarrow> bool" where
  "session_inv J P n s \<longleftrightarrow> (\<forall>c \<in> set (callers s). call_inv J P n s c)"

text \<open>The call was answered.\<close>

fun successful :: "('s, 'b) sync_pc \<Rightarrow> bool" where
  "successful (Sent req) = False"
| "successful (Replied req resp) = True"
| "successful (Returned r) = (\<not> isl r)"

definition succeeded :: "('j, 's) Session \<Rightarrow> nat \<Rightarrow> bool" where
  "succeeded s k \<longleftrightarrow> k < length (callers s) \<and> successful (sync_pc (callers s ! k))"

subsection \<open>The server under a session\<close>

lemma drive_served: "\<exists>new. served (DriveCompletionQueue i okay req sv) = served sv @ new"
  by (simp add: DriveCompletionQueue_def split: option.split proceed_result.split)

lemma server_step_served: "server_step sv sv' \<Longrightarrow> set (served sv) \<subseteq> set (served sv')"
proof (induction rule: server_step.induct)
  case (event s i okay req)
  from drive_served [of i okay req s] show ?case by auto
qed (auto simp: SetSubmitTaskHandler_def Shutdown_server_def Shutdown_queues_def)

lemma drive_accepts:
  assumes "waits sv i"
  shows "reply_of (DriveCompletionQueue i True req sv) i = Some (req\<lparr>pb_state := 2\<rparr>) \<and>
    served (DriveCompletionQueue i True req sv) = served sv @ [(req, req\<lparr>pb_state := 2\<rparr>)]"
  using assms
  by (auto simp: waits_def reply_of_def DriveCompletionQueue_def Proceed_def receive_def OnSubmitTask_def)

lemma waits_server_step:
  "server_ub sv = None \<Longrightarrow> waits sv i \<Longrightarrow> server_step sv (DriveCompletionQueue i True req sv)"
  by (auto simp: waits_def intro: server_step.event)

lemma call_inv_mono:
  "call_inv J P n s c \<Longrightarrow> client s' = client s \<Longrightarrow> set (served (srv s)) \<subseteq> set (served (srv s')) \<Longrightarrow>
   call_inv J P n s' c"
  by (auto simp: call_inv_def answered_def split: sync_pc.splits sum.splits)

lemma session_step_tasks:
  assumes "session_step J P n s s'"
  shows "length (callers s) \<le> length (callers s') \<and>
    (k < length (callers s) \<longrightarrow> sync_task (callers s' ! k) = sync_task (callers s ! k))"
  using assms by cases (auto simp: goto_pc_def nth_append nth_list_update)

lemma sync_result_ok:
  assumes "sync_result J P n flag (st, resp) task cl = Inr t"
  shows "status_ok st \<and> t = TaskFromProto J P n flag resp"
  using assms by (auto simp: sync_result_def submit_task_sync_def split: if_splits sum.splits)

lemma start_call_inv: "call_inv J P n s (start_call J P n flag answer task (client s))"
  by (auto simp: call_inv_def start_call_def sync_result_def submit_task_sync_def split: sum.splits)

lemma goto_pc_sel [simp]: "srv (goto_pc k p s) = srv s" "client (goto_pc k p s) = client s"
  by (simp_all add: goto_pc_def)

lemma goto_pc_inv:
  assumes "session_inv J P n s" and "k < length (callers s)"
    and "call_inv J P n s ((callers s ! k)\<lparr>sync_pc := p\<rparr>)"
  shows "session_inv J P n (goto_pc k p s)"
proof -
  have "call_inv J P n (goto_pc k p s) c" if "call_inv J P n s c" for c
    using that by (rule call_inv_mono) simp_all
  moreover have "set (callers (goto_pc k p s)) \<subseteq> insert ((callers s ! k)\<lparr>sync_pc := p\<rparr>) (set (callers s))"
    unfolding goto_pc_def by (simp add: set_update_subset_insert)
  ultimately show ?thesis using assms unfolding session_inv_def by blast
qed

lemma session_srv_inv:
  assumes "session_inv J P n s" and "set (served (srv s)) \<subseteq> set (served sv)"
  shows "session_inv J P n (s\<lparr>srv := sv\<rparr>)"
  unfolding session_inv_def
proof
  fix c
  assume "c \<in> set (callers (s\<lparr>srv := sv\<rparr>))"
  with assms(1) have "call_inv J P n s c" by (simp add: session_inv_def)
  then show "call_inv J P n (s\<lparr>srv := sv\<rparr>) c" by (rule call_inv_mono) (simp_all add: assms(2))
qed

lemma session_step_inv:
  assumes "session_step J P n s s'" and inv: "session_inv J P n s"
  shows "session_inv J P n s'"
  using assms(1)
proof cases
  case (call flag answer task)
  have "call_inv J P n s' c" if "call_inv J P n s c" for c
    using that by (rule call_inv_mono) (simp_all add: call)
  with inv start_call_inv [of J P n s flag answer task] show ?thesis by (auto simp: session_inv_def call(1))
next
  case (accept k req i sv resp)
  from inv accept(2,3) have c: "call_inv J P n s (callers s ! k)" by (simp add: session_inv_def)
  from drive_accepts [OF accept(6), of req] accept(7,8)
  have sv: "resp = req\<lparr>pb_state := 2\<rparr>" "served sv = served (srv s) @ [(req, resp)]" by auto
  have "session_inv J P n (s\<lparr>srv := sv\<rparr>)" by (rule session_srv_inv [OF inv]) (auto simp: sv)
  moreover from c accept(3) have "call_inv J P n (s\<lparr>srv := sv\<rparr>) ((callers (s\<lparr>srv := sv\<rparr>) ! k)\<lparr>sync_pc := Replied req resp\<rparr>)"
    by (simp add: call_inv_def sv answered_def)
  ultimately show ?thesis unfolding accept(1) using accept(2) by (intro goto_pc_inv) simp_all
next
  case (deliver k req resp flag)
  from inv deliver(2,3) have "call_inv J P n s (callers s ! k)" by (simp add: session_inv_def)
  with deliver(3) show ?thesis unfolding deliver(1)
    by (intro goto_pc_inv [OF inv deliver(2)])
      (auto simp: call_inv_def dest: sync_result_ok split: sum.split)
next
  case (fails k req resp st flag any)
  then show ?thesis unfolding fails(1)
    by (intro goto_pc_inv [OF inv fails(2)]) (auto simp: call_inv_def dest: sync_result_ok split: sum.split)
next
  case (serves sv)
  from server_step_served [OF serves(2)] show ?thesis unfolding serves(1) by (rule session_srv_inv [OF inv])
qed

lemma session_init_inv: "session_init hc c s \<Longrightarrow> session_inv J P n s"
  by (simp add: session_init_def session_inv_def)

interpretation session: invariant_system "session_init hc c" "session_step J P n" "session_inv J P n" for hc c J P n
  by unfold_locales (auto intro: session_step_inv session_init_inv)

text \<open>The server of a session is the server by itself.\<close>

lemma session_step_srv: "session_step J P n s s' \<Longrightarrow> srv s' = srv s \<or> server_step (srv s) (srv s')"
  by (induction rule: session_step.induct) (auto simp: goto_pc_def intro: waits_server_step)

interpretation session_srv:
  simulation "session_init hc c" "session_step J P n" "server_init hc c" server_step "\<lambda>s sv. sv = srv s"
  for hc c J P n
  by unfold_locales (auto simp: session_init_def dest: session_step_srv)

subsection \<open>A server without contexts\<close>

lemma lost_step: "server_step sv sv' \<Longrightarrow> lost sv \<le> lost sv'"
proof (induction rule: server_step.induct)
  case (event s i okay req)
  show ?case by (simp add: DriveCompletionQueue_def split: option.split proceed_result.split)
qed (simp_all add: SetSubmitTaskHandler_def Shutdown_server_def Shutdown_queues_def)

lemma nobody_waits:
  assumes "reach (session_init hc c) (session_step J P n) s" and "nat c \<le> lost (srv s)"
  shows "\<not> waits (srv s) i"
proof
  assume w: "waits (srv s) i"
  then have "0 < cnt occupied (slots (srv s))"
    by (intro cnt_pos [of i]) (auto simp: waits_def occupied_def)
  moreover from session_srv.sim_reach [OF assms(1)] have "server_inv (nat c) (srv s)"
    using server.reach_inv by blast
  then have "int (cnt occupied (slots (srv s))) + int (lost (srv s)) = int (nat c)"
    unfolding server_inv_def by blast
  ultimately show False using assms(2) by linarith
qed

lemma sync_result_failed: "\<not> status_ok st \<Longrightarrow> isl (sync_result J P n flag (st, resp) task cl)"
  by (auto simp: sync_result_def submit_task_sync_def split: sum.split)

lemma start_call_fails: "\<not> successful (sync_pc (start_call J P n flag answer task cl))"
  by (auto simp: start_call_def sync_result_def submit_task_sync_def split: sum.split)

lemma succeeded_goto:
  "k < length (callers s) \<Longrightarrow> succeeded (goto_pc k p s) k' \<longleftrightarrow>
   (if k' = k then successful p else succeeded s k')"
  by (auto simp: succeeded_def goto_pc_def)

lemma succeeded_step:
  assumes "session_step J P n s s'" and "\<And>i. \<not> waits (srv s) i" and "succeeded s' k"
  shows "succeeded s k"
  using assms(1)
proof cases
  case (call flag answer task)
  with assms(3) start_call_fails [of J P n flag answer task "client s"] show ?thesis
    by (auto simp: succeeded_def nth_append split: if_splits)
next
  case (accept k req i sv resp)
  with assms(2) show ?thesis by blast
next
  case (deliver k' req resp flag)
  then have "succeeded s k'" by (simp add: succeeded_def)
  with assms(3) deliver(1,2) show ?thesis by (simp add: succeeded_goto split: if_splits)
next
  case (fails k' req resp st flag any)
  with assms(3) sync_result_failed [OF fails(4), of J P n flag any "sync_task (callers s ! k')" "client s"]
  show ?thesis by (simp add: succeeded_goto split: if_splits)
next
  case (serves sv)
  with assms(3) show ?thesis by (simp add: succeeded_def)
qed

subsection \<open>Calls complete\<close>

lemma call_completes:
  assumes "reach (session_init hc c) (session_step J P n) s"
    and "k < length (callers s)" and "sync_pc (callers s ! k) = Sent req"
    and "server_ub (srv s) = None" and "phase (srv s) = Serving" and "waits (srv s) i"
  shows "\<exists>s' s''. session_step J P n s s' \<and> session_step J P n s' s'' \<and>
     sync_pc (callers s'' ! k) = Returned (Inr (TaskFromProto J P n flag (req\<lparr>pb_state := 2\<rparr>)))"
proof -
  let ?sv = "DriveCompletionQueue i True req (srv s)" and ?resp = "req\<lparr>pb_state := 2\<rparr>"
  let ?s' = "goto_pc k (Replied req ?resp) (s\<lparr>srv := ?sv\<rparr>)"
  from session.reach_inv [OF assms(1)] assms(2) have "call_inv J P n s (callers s ! k)"
    by (simp add: session_inv_def)
  with assms(3) have conv: "stub (client s)" "to_message J P n (sync_task (callers s ! k)) = Inr req"
    by (simp_all add: call_inv_def)
  have 1: "session_step J P n s ?s'"
    using drive_accepts [OF assms(6), of req] by (intro session_step.accept [OF assms(2-6) refl]) simp
  have k': "k < length (callers ?s')" "sync_pc (callers ?s' ! k) = Replied req ?resp"
    "sync_task (callers ?s' ! k) = sync_task (callers s ! k)"
    using assms(2) by (simp_all add: goto_pc_def)
  from session_step.deliver [OF k'(1,2), of J P n flag]
  have 2: "session_step J P n ?s' (goto_pc k (Returned (sync_result J P n flag (Status_OK, ?resp)
      (sync_task (callers s ! k)) (client s))) ?s')" (is "session_step J P n ?s' ?s''")
    by (simp add: k'(3))
  have "sync_pc (callers ?s'' ! k) = Returned (Inr (TaskFromProto J P n flag ?resp))"
    using conv assms(2)
    by (simp add: goto_pc_def sync_result_def submit_task_sync_def status_ok_def Status_OK_def)
  with 1 2 show ?thesis by blast
qed

text \<open>A session with one context and one call.\<close>

lemma one_call:
  obtains s req where "reach (session_init 1 1) (session_step jv_api sv_api 5) s" "length (callers s) = 1"
    "sync_task (callers s ! 0) = Task_new VNull 7" "sync_pc (callers s ! 0) = Sent req"
    "server_ub (srv s) = None" "phase (srv s) = Serving" "waits (srv s) 0" "lost (srv s) = 0"
proof -
  let ?base = "\<lparr>srv = Run 1 1 True 8080 AsyncServer_new, client = GrpcClient_new True, callers = []\<rparr> :: (jv, sv) Session"
  let ?t = "Task_new VNull 7"
  obtain req where req: "TaskToProto jv_api sv_api 5 ?t = Some (Inr req)"
    using message_roundtrip [OF sv_struct_laws jv_items_laws, of ?t 5 0] by (auto simp: Task_new_def)
  let ?one = "?base\<lparr>callers := [start_call jv_api sv_api 5 0 (Status_OK, req) ?t (client ?base)]\<rparr>"
  have "reach (session_init 1 1) (session_step jv_api sv_api 5) ?base"
    unfolding session_init_def server_init_def by (rule reach.reach_init) (simp, blast)
  moreover have "session_step jv_api sv_api 5 ?base ?one"
    using session_step.call [of jv_api sv_api 5 ?base 0 "(Status_OK, req)" ?t] by simp
  ultimately have "reach (session_init 1 1) (session_step jv_api sv_api 5) ?one" by (rule reach.reach_step)
  moreover have "start_call jv_api sv_api 5 0 (Status_OK, req) ?t (client ?base) = \<lparr>sync_task = ?t, sync_pc = Sent req\<rparr>"
    by (simp add: start_call_def to_message_def req GrpcClient_new_def)
  moreover have "server_ub (srv ?one) = None" "phase (srv ?one) = Serving" "waits (srv ?one) 0" "lost (srv ?one) = 0"
    by (simp_all add: Run_def AsyncServer_new_def waits_def initial_contexts_def fresh_slot_def AsyncCallContext_new_def)
  ultimately show ?thesis by (intro that [of ?one req]) simp_all
qed

subsection \<open>Properties\<close>

text \<open>C12: a call of \<open>submit_task_sync\<close> that returns, under every interleaving of clients, channel and
  server, returns the task of its own caller, never that of another, with state \<open>SUCCESS\<close>, a
  flag of its own, and parameters and result passed through the struct conversion; and the
  server answered that very request.\<close>

theorem sync_submit_returns_own_task:
  assumes "struct_laws P" and "items_laws J dep"
    and "reach (session_init hc c) (session_step J P n) s"
    and "k < length (callers s)" and "task = sync_task (callers s ! k)"
    and "sync_pc (callers s ! k) = Returned (Inr t)"
    and "dep (func_params task) < n" and "dep (result task) < n"
  shows "\<exists>req flag fp res. to_message J P n task = Inr req \<and> answered (srv s) req \<and>
     through J P n (func_params task) = Some fp \<and> through J P n (result task) = Some res \<and>
     t = Some (task\<lparr>state := SUCCESS, cancelled := flag, func_params := fp, result := res\<rparr>)"
proof -
  from session.reach_inv [OF assms(3)] assms(4) have "call_inv J P n s (callers s ! k)"
    by (simp add: session_inv_def)
  with assms(5,6) obtain req flag where req: "to_message J P n task = Inr req" "answered (srv s) req"
    and t: "t = TaskFromProto J P n flag (req\<lparr>pb_state := 2\<rparr>)"
    by (auto simp: call_inv_def)
  from message_roundtrip [OF assms(1,2,7,8), of flag] obtain pb fp res where
    pb: "TaskToProto J P n task = Some (Inr pb)" "through J P n (func_params task) = Some fp"
    "through J P n (result task) = Some res"
    "TaskFromProto J P n flag pb = Some (task\<lparr>cancelled := flag, func_params := fp, result := res\<rparr>)" by blast
  from req(1) pb(1) have "req = pb" by (simp add: to_message_def)
  with pb t have "t = Some (task\<lparr>state := SUCCESS, cancelled := flag, func_params := fp, result := res\<rparr>)"
    by (simp add: TaskFromProto_state)
  with req pb show ?thesis by blast
qed

theorem sync_submit_returns_own_task_witness:
  "\<exists>s flag fp res. reach (session_init 1 1) (session_step jv_api sv_api 5) s \<and>
     sync_pc (callers s ! 0) = Returned (Inr (Some ((Task_new VNull 7)\<lparr>state := SUCCESS, cancelled := flag, func_params := fp, result := res\<rparr>)))"
proof -
  obtain s req where s: "reach (session_init 1 1) (session_step jv_api sv_api 5) s" "length (callers s) = 1"
    "sync_task (callers s ! 0) = Task_new VNull 7" "sync_pc (callers s ! 0) = Sent req"
    "server_ub (srv s) = None" "phase (srv s) = Serving" "waits (srv s) 0" "lost (srv s) = 0" by (rule one_call)
  from s(2) have k: "0 < length (callers s)" by simp
  from call_completes [OF s(1) k s(4-7), of 9] obtain s' s'' where
    st: "session_step jv_api sv_api 5 s s'" "session_step jv_api sv_api 5 s' s''" and
    ret: "sync_pc (callers s'' ! 0) = Returned (Inr (TaskFromProto jv_api sv_api 5 9 (req\<lparr>pb_state := 2\<rparr>)))" by blast
  have r: "reach (session_init 1 1) (session_step jv_api sv_api 5) s''"
    using s(1) st by (blast intro: reach.reach_step)
  from session_step_tasks [OF st(1), of 0] session_step_tasks [OF st(2), of 0] s(2,3)
  have t: "0 < length (callers s'')" "Task_new VNull 7 = sync_task (callers s'' ! 0)" by auto
  from sync_submit_returns_own_task [OF sv_struct_laws jv_items_laws r t ret] r ret show ?thesis
    by (auto simp: Task_new_def)
qed

text \<open>A call that waits is answered in two steps whenever the server serves and one of its contexts
  waits for a request, whatever the other calls are doing.\<close>

theorem sync_submit_can_complete:
  assumes "reach (session_init hc c) (session_step J P n) s"
    and "k < length (callers s)" and "sync_pc (callers s ! k) = Sent req"
    and "server_ub (srv s) = None" and "phase (srv s) = Serving" and "waits (srv s) i"
  shows "\<exists>s' s''. session_step J P n s s' \<and> session_step J P n s' s'' \<and>
     sync_pc (callers s'' ! k) = Returned (Inr (TaskFromProto J P n flag (req\<lparr>pb_state := 2\<rparr>)))"
  using call_completes [OF assms] .

theorem sync_submit_can_complete_witness:
  "\<exists>s s' s'' req. session_step jv_api sv_api 5 s s' \<and> session_step jv_api sv_api 5 s' s'' \<and>
     sync_pc (callers s ! 0) = Sent req \<and>
     sync_pc (callers s'' ! 0) = Returned (Inr (TaskFromProto jv_api sv_api 5 9 (req\<lparr>pb_state := 2\<rparr>)))"
proof -
  obtain s req where s: "reach (session_init 1 1) (session_step jv_api sv_api 5) s" "length (callers s) = 1"
    "sync_task (callers s ! 0) = Task_new VNull 7" "sync_pc (callers s ! 0) = Sent req"
    "server_ub (srv s) = None" "phase (srv s) = Serving" "waits (srv s) 0" "lost (srv s) = 0" by (rule one_call)
  from s(2) have k: "0 < length (callers s)" by simp
  from sync_submit_can_complete [OF s(1) k s(4-7), of 9] s(4) show ?thesis by blast
qed

text \<open>C19: a server that has lost all its contexts to failed completions never answers again, although
  it serves and was not shut down: from then on the only calls that succeed are those it had
  answered before.\<close>

theorem worn_out_server_answers_nobody:
  assumes "reach (session_init hc c) (session_step J P n) s" and "lost (srv s) = nat c"
    and "(session_step J P n)\<^sup>*\<^sup>* s s'" and "succeeded s' k"
  shows "succeeded s k"
proof -
  from assms(3) have "reach (session_init hc c) (session_step J P n) s' \<and> nat c \<le> lost (srv s') \<and>
      (succeeded s' k \<longrightarrow> succeeded s k)"
  proof (induction rule: rtranclp_induct)
    case (step u v)
    with session_step_srv [OF step(2)] lost_step [of "srv u" "srv v"] have "nat c \<le> lost (srv v)" by auto
    with step nobody_waits [of hc c J P n u] succeeded_step [OF step(2)] show ?case
      by (blast intro: reach.reach_step)
  qed (use assms(1,2) in auto)
  with assms(4) show ?thesis by blast
qed

theorem worn_out_server_answers_nobody_witness:
  "\<exists>s. reach (session_init 1 1) (session_step jv_api sv_api 5) s \<and> lost (srv s) = 1 \<and> succeeded s 0"
proof -
  obtain s req where s: "reach (session_init 1 1) (session_step jv_api sv_api 5) s" "length (callers s) = 1"
    "sync_task (callers s ! 0) = Task_new VNull 7" "sync_pc (callers s ! 0) = Sent req"
    "server_ub (srv s) = None" "phase (srv s) = Serving" "waits (srv s) 0" "lost (srv s) = 0" by (rule one_call)
  let ?sv = "DriveCompletionQueue 0 True req (srv s)" and ?resp = "req\<lparr>pb_state := 2\<rparr>"
  let ?mid = "goto_pc 0 (Replied req ?resp) (s\<lparr>srv := ?sv\<rparr>)"
  let ?fin = "?mid\<lparr>srv := DriveCompletionQueue 0 False req ?sv\<rparr>"
  from s(2) have k: "0 < length (callers s)" by simp
  have 1: "session_step jv_api sv_api 5 s ?mid"
    using drive_accepts [OF s(7), of req] by (intro session_step.accept [OF k s(4-7) refl]) simp
  obtain ctx where ctx: "0 < length (slots (srv s))" "0 < slot_flight (slots (srv s) ! 0)"
    "slot_ctx (slots (srv s) ! 0) = Some ctx" "ctx_status ctx = CREATE" using s(7) by (auto simp: waits_def)
  then have sv: "server_ub ?sv = None" "lost ?sv = 0" "0 < length (slots ?sv)" "0 < slot_flight (slots ?sv ! 0)"
    "\<exists>x. slot_ctx (slots ?sv ! 0) = Some x"
    using s(5,8) by (simp_all add: DriveCompletionQueue_def Proceed_def receive_def OnSubmitTask_def)
  from server_step.event [OF sv(1,3,4)] have "session_step jv_api sv_api 5 ?mid ?fin"
    by (intro session_step.serves) simp
  with 1 s(1) have r: "reach (session_init 1 1) (session_step jv_api sv_api 5) ?fin" by (blast intro: reach.reach_step)
  have lost: "lost (srv ?fin) = nat 1" using sv(2,5) by (auto simp: DriveCompletionQueue_def Proceed_def)
  have "succeeded ?fin 0" using k by (simp add: succeeded_def goto_pc_def)
  from worn_out_server_answers_nobody [OF r lost rtranclp.rtrancl_refl this] r lost show ?thesis by auto
qed

end
