(* ===== verification/Server_Main.thy ===== *)
theory Server_Main
  imports Api_Server
begin

text \<open>
  Model of \<open>src/api-server/src/main.cpp\<close>: the process that runs the server. The main thread, the
  signal handler and the completion threads interleave; a call of \<open>Shutdown\<close> is a sequence of
  steps, since completions are delivered in between.

  A signal arrives at any time and on any thread. While the handler runs on the main thread,
  \<open>main\<close> stands still. On one thread a signal waits until its own handler has returned, but
  \<open>SIGINT\<close> and \<open>SIGTERM\<close> interrupt the handlers of each other, and handlers on different threads
  run at the same time. Messages to the log are left out.
\<close>

subsection \<open>The process\<close>

datatype shutdown_pc = S_Server | S_Queues | S_Join | S_Joining | S_Done

datatype main_pc =
    M_Log | M_SigInt | M_SigTerm | M_Port | M_Make "16 word" | M_Run "16 word" | M_Wait
  | M_Shutdown shutdown_pc | M_Return | M_Destroy shutdown_pc | M_Exit

datatype signal = SIGINT | SIGTERM

datatype signal_thread = OnMain | OnQueue nat

text \<open>A call of the handler in progress: its thread, its signal, and how far it has got.\<close>

type_synonym frame = "signal_thread \<times> signal \<times> shutdown_pc"

datatype crash =
    KilledBySignal | UncaughtException | ServerCrash server_error | JoinsItself | JoinsTwice

text \<open>What the process finds around it: the hardware, the environment, and how binding the port went.\<close>

record config =
  hardware_concurrency :: nat
  DTS_PORT :: "string option"
  DTS_INITIAL_CONTEXT :: "string option"
  port_free :: bool
  bound_port :: int

record 's process =
  main_pc :: main_pc
  flags :: glog_flags
  installed :: "signal list"
  handlers :: "frame list"
  g_shutdown :: bool
  g_server :: "'s AsyncServer option"
  joined :: bool
  crashed :: "crash option"

definition process_start :: "glog_flags \<Rightarrow> 's process" where
  "process_start f =
     \<lparr>main_pc = M_Log, flags = f, installed = [], handlers = [], g_shutdown = False,
      g_server = None, joined = False, crashed = None\<rparr>"

subsection \<open>A call of Shutdown\<close>

text \<open>
  \<open>own\<close>: the caller is one of the threads to be joined. \<open>join\<close> on the caller's own thread throws,
  two joins of one thread are undefined behaviour. A thread that runs the handler does not end.
  The joins of the threads, one after the other, are one wait for all of them.
\<close>

definition joining :: "'s process \<Rightarrow> bool" where
  "joining p \<longleftrightarrow> main_pc p \<in> {M_Shutdown S_Joining, M_Destroy S_Joining} \<or>
     list_ex (\<lambda>(th, sg, pc). pc = S_Joining) (handlers p)"

definition handler_on_queue :: "'s process \<Rightarrow> bool" where
  "handler_on_queue p \<longleftrightarrow> list_ex (\<lambda>(th, sg, pc). th \<noteq> OnMain) (handlers p)"

definition shutdown_call ::
  "bool \<Rightarrow> shutdown_pc \<Rightarrow> 's AsyncServer \<Rightarrow> 's process \<Rightarrow> shutdown_pc \<times> 's process" where
  "shutdown_call own pc s p =
     (case pc of
        S_Server \<Rightarrow>
          if phase s = NotStarted then (pc, p\<lparr>crashed := Some (ServerCrash NullServer)\<rparr>)
          else (S_Queues, p\<lparr>g_server := Some (Shutdown_server s)\<rparr>)
      | S_Queues \<Rightarrow> (S_Join, p\<lparr>g_server := Some (Shutdown_queues s)\<rparr>)
      | S_Join \<Rightarrow>
          if joined p then (S_Done, p)
          else if own then (pc, p\<lparr>crashed := Some JoinsItself\<rparr>)
          else if joining p then (pc, p\<lparr>crashed := Some JoinsTwice\<rparr>)
          else (S_Joining, p)
      | S_Joining \<Rightarrow>
          if drained s \<and> \<not> handler_on_queue p then (S_Done, p\<lparr>joined := True\<rparr>) else (pc, p)
      | S_Done \<Rightarrow> (pc, p))"

subsection \<open>main\<close>

text \<open>Dereferencing \<open>g_server\<close> before it is set would crash; \<open>main\<close> sets it first.\<close>

definition main_shutdown :: "(shutdown_pc \<Rightarrow> main_pc) \<Rightarrow> main_pc \<Rightarrow> shutdown_pc \<Rightarrow> 's process \<Rightarrow> 's process" where
  "main_shutdown here next_pc pc p =
     (case g_server p of
        None \<Rightarrow> p\<lparr>crashed := Some (ServerCrash NullServer)\<rparr>
      | Some s \<Rightarrow>
          (case shutdown_call False pc s p of
             (pc', p') \<Rightarrow> p'\<lparr>main_pc := (if pc' = S_Done then next_pc else here pc')\<rparr>))"

fun main_step :: "config \<Rightarrow> main_pc \<Rightarrow> 's process \<Rightarrow> 's process" where
  "main_step cfg M_Log p = p\<lparr>flags := InitGlog False (flags p), main_pc := M_SigInt\<rparr>"
| "main_step cfg M_SigInt p = p\<lparr>installed := [SIGINT], main_pc := M_SigTerm\<rparr>"
| "main_step cfg M_SigTerm p = p\<lparr>installed := SIGTERM # installed p, main_pc := M_Port\<rparr>"
| "main_step cfg M_Port p =
     (case main_port (DTS_PORT cfg) of
        Inl e \<Rightarrow> p\<lparr>crashed := Some UncaughtException\<rparr>
      | Inr port \<Rightarrow> p\<lparr>main_pc := M_Make port\<rparr>)"
| "main_step cfg (M_Make port) p = p\<lparr>g_server := Some AsyncServer_new, main_pc := M_Run port\<rparr>"
| "main_step cfg (M_Run port) p =
     (case (g_server p, context_count (hardware_concurrency cfg) (DTS_INITIAL_CONTEXT cfg)) of
        (None, _) \<Rightarrow> p\<lparr>crashed := Some (ServerCrash NullServer)\<rparr>
      | (_, Inl e) \<Rightarrow> p\<lparr>crashed := Some UncaughtException\<rparr>
      | (Some s, Inr c) \<Rightarrow>
          let s' = Run (hardware_concurrency cfg) c (port_free cfg) (bound_port cfg) s
          in p\<lparr>g_server := Some s', main_pc := M_Wait, crashed := map_option ServerCrash (server_ub s')\<rparr>)"
| "main_step cfg M_Wait p = p\<lparr>main_pc := (if g_shutdown p then M_Shutdown S_Server else M_Wait)\<rparr>"
| "main_step cfg (M_Shutdown pc) p = main_shutdown M_Shutdown M_Return pc p"
| "main_step cfg M_Return p = p\<lparr>main_pc := M_Destroy S_Server\<rparr>"
| "main_step cfg (M_Destroy pc) p =
     (let p' = main_shutdown M_Destroy M_Exit pc p
      in if main_pc p' = M_Exit then p'\<lparr>g_server := None\<rparr> else p')"
| "main_step cfg M_Exit p = p"

subsection \<open>The signal handler\<close>

definition signal_handler :: "signal \<Rightarrow> signal_thread \<Rightarrow> 's process \<Rightarrow> 's process" where
  "signal_handler sg th p =
     p\<lparr>g_shutdown := True,
       handlers := (if g_server p = None then handlers p else (th, sg, S_Server) # handlers p)\<rparr>"

text \<open>
  The newest call on a thread is the one that runs there; \<open>resume_handler\<close> puts it at its next
  point or, when it is done, removes it.
\<close>

fun newest :: "signal_thread \<Rightarrow> frame list \<Rightarrow> shutdown_pc option" where
  "newest th [] = None"
| "newest th ((t, sg, pc) # hs) = (if t = th then Some pc else newest th hs)"

fun resume_handler :: "signal_thread \<Rightarrow> shutdown_pc \<Rightarrow> frame list \<Rightarrow> frame list" where
  "resume_handler th pc' [] = []"
| "resume_handler th pc' ((t, sg, pc) # hs) =
     (if t \<noteq> th then (t, sg, pc) # resume_handler th pc' hs
      else if pc' = S_Done then hs else (t, sg, pc') # hs)"

definition handler_step :: "signal_thread \<Rightarrow> shutdown_pc \<Rightarrow> 's process \<Rightarrow> 's process" where
  "handler_step th pc p =
     (case g_server p of
        None \<Rightarrow> p\<lparr>crashed := Some (ServerCrash NullServer)\<rparr>
      | Some s \<Rightarrow>
          (case shutdown_call (th \<noteq> OnMain) pc s p of
             (pc', p') \<Rightarrow> p'\<lparr>handlers := resume_handler th pc' (handlers p')\<rparr>))"

subsection \<open>Interleaving\<close>

text \<open>
  A signal can reach the main thread until the process has ended, and the completion threads
  between \<open>Run\<close> and their join.
\<close>

definition thread_exists :: "config \<Rightarrow> 's process \<Rightarrow> signal_thread \<Rightarrow> bool" where
  "thread_exists cfg p th =
     (case th of
        OnMain \<Rightarrow> main_pc p \<noteq> M_Exit
      | OnQueue k \<Rightarrow> k < hardware_concurrency cfg \<and> \<not> joined p \<and>
          (case g_server p of None \<Rightarrow> False | Some s \<Rightarrow> phase s \<noteq> NotStarted))"

definition masked :: "signal \<Rightarrow> signal_thread \<Rightarrow> 's process \<Rightarrow> bool" where
  "masked sg th p \<longleftrightarrow> list_ex (\<lambda>(t, g, pc). t = th \<and> g = sg) (handlers p)"

datatype 's proc_action =
    MainMoves | SignalAt signal signal_thread | HandlerMoves signal_thread | Event nat bool "'s PbTask"

text \<open>\<open>sig\<close> restricts when and where signals arrive.\<close>

fun proc_move ::
  "config \<Rightarrow> ('s process \<Rightarrow> signal_thread \<Rightarrow> bool) \<Rightarrow> 's proc_action \<Rightarrow> 's process \<Rightarrow> 's process option" where
  "proc_move cfg sig MainMoves p =
     (if crashed p = None \<and> newest OnMain (handlers p) = None
      then Some (main_step cfg (main_pc p) p) else None)"
| "proc_move cfg sig (SignalAt sg th) p =
     (if crashed p \<noteq> None \<or> \<not> thread_exists cfg p th \<or> masked sg th p \<or> \<not> sig p th then None
      else if sg \<notin> set (installed p) then Some (p\<lparr>crashed := Some KilledBySignal\<rparr>)
      else Some (signal_handler sg th p))"
| "proc_move cfg sig (HandlerMoves th) p =
     (case newest th (handlers p) of
        None \<Rightarrow> None
      | Some pc \<Rightarrow> if crashed p = None then Some (handler_step th pc p) else None)"
| "proc_move cfg sig (Event i okay req) p =
     (case g_server p of
        None \<Rightarrow> None
      | Some s \<Rightarrow>
          if crashed p = None \<and> i < length (slots s) \<and> 0 < slot_flight (slots s ! i)
          then let s' = DriveCompletionQueue i okay req s
               in Some (p\<lparr>g_server := Some s', crashed := map_option ServerCrash (server_ub s')\<rparr>)
          else None)"

definition proc_step ::
  "config \<Rightarrow> ('s process \<Rightarrow> signal_thread \<Rightarrow> bool) \<Rightarrow> 's process \<Rightarrow> 's process \<Rightarrow> bool" where
  "proc_step cfg sig p p' \<longleftrightarrow> (\<exists>a. proc_move cfg sig a p = Some p')"

fun proc_run ::
  "config \<Rightarrow> ('s process \<Rightarrow> signal_thread \<Rightarrow> bool) \<Rightarrow> 's proc_action list \<Rightarrow> 's process \<Rightarrow> 's process option" where
  "proc_run cfg sig [] p = Some p"
| "proc_run cfg sig (a # as) p =
     (case proc_move cfg sig a p of None \<Rightarrow> None | Some p' \<Rightarrow> proc_run cfg sig as p')"

definition proc_init :: "'s process \<Rightarrow> bool" where
  "proc_init p \<longleftrightarrow> (\<exists>f. p = process_start f)"

subsection \<open>Specification\<close>

text \<open>
  Signals that arrive on the main thread while \<open>main\<close> waits and no handler is at its join.
\<close>

definition calm :: "'s process \<Rightarrow> signal_thread \<Rightarrow> bool" where
  "calm p th \<longleftrightarrow> main_pc p = M_Wait \<and> th = OnMain \<and> \<not> joining p"

definition no_flags :: glog_flags where
  "no_flags = \<lparr>logtostderr = False, minloglevel = 0, log_dir = [], max_log_size = 0,
     stop_logging_if_full_disk = False, colorlogtostderr = False, failure_handler = False\<rparr>"

definition one_context :: config where
  "one_context = \<lparr>hardware_concurrency = 1, DTS_PORT = Some ''8080'', DTS_INITIAL_CONTEXT = Some ''1'',
     port_free = True, bound_port = 8080\<rparr>"

definition any_signal :: "'s process \<Rightarrow> signal_thread \<Rightarrow> bool" where
  "any_signal p th = True"

text \<open>A configuration in which starting the server succeeds, with \<open>c\<close> contexts.\<close>

definition sound_config :: "config \<Rightarrow> int \<Rightarrow> bool" where
  "sound_config cfg c \<longleftrightarrow>
     0 < hardware_concurrency cfg \<and> port_free cfg \<and> ok (main_port (DTS_PORT cfg)) \<and>
     context_count (hardware_concurrency cfg) (DTS_INITIAL_CONTEXT cfg) = Inr c"

fun server_expected :: "main_pc \<Rightarrow> bool" where
  "server_expected M_Wait = True"
| "server_expected (M_Shutdown _) = True"
| "server_expected M_Return = True"
| "server_expected (M_Destroy _) = True"
| "server_expected _ = False"

text \<open>The threads are joined before \<open>main\<close> returns, and the queues are shut down before that.\<close>

fun joined_expected :: "main_pc \<Rightarrow> bool" where
  "joined_expected M_Return = True"
| "joined_expected (M_Destroy _) = True"
| "joined_expected M_Exit = True"
| "joined_expected _ = False"

fun stop_point :: "main_pc \<Rightarrow> shutdown_pc option" where
  "stop_point (M_Shutdown pc) = Some pc"
| "stop_point (M_Destroy pc) = Some pc"
| "stop_point _ = None"

definition down_by :: "shutdown_pc \<Rightarrow> 's AsyncServer \<Rightarrow> bool" where
  "down_by pc s \<longleftrightarrow> pc \<noteq> S_Done \<and> (pc \<in> {S_Join, S_Joining} \<longrightarrow> phase s = QueuesDown)"

text \<open>The calls of the handler: all on the main thread while it waits, the suspended ones not joining.\<close>

definition frames_ok :: "'s process \<Rightarrow> 's AsyncServer \<Rightarrow> bool" where
  "frames_ok p s \<longleftrightarrow>
     (\<forall>(th, sg, pc) \<in> set (handlers p). th = OnMain \<and> down_by pc s) \<and>
     (\<forall>(th, sg, pc) \<in> set (tl (handlers p)). pc \<noteq> S_Joining) \<and>
     (handlers p \<noteq> [] \<longrightarrow> main_pc p = M_Wait \<and> g_shutdown p)"

definition server_part :: "int \<Rightarrow> 's process \<Rightarrow> 's AsyncServer \<Rightarrow> bool" where
  "server_part c p s \<longleftrightarrow>
     server_inv (nat c) s \<and> phase s \<noteq> NotStarted \<and> (joined p \<longrightarrow> drained s) \<and>
     crashed p = map_option ServerCrash (server_ub s) \<and>
     server_ub s \<in> {None, Some RequestAfterShutdown} \<and>
     (case stop_point (main_pc p) of None \<Rightarrow> True | Some pc \<Rightarrow> down_by pc s) \<and> frames_ok p s"

definition proc_inv :: "int \<Rightarrow> 's process \<Rightarrow> bool" where
  "proc_inv c p \<longleftrightarrow>
     (main_pc p \<notin> {M_Log, M_SigInt, M_SigTerm} \<longrightarrow> set (installed p) = {SIGINT, SIGTERM}) \<and>
     (main_pc p = M_SigTerm \<longrightarrow> installed p = [SIGINT]) \<and>
     (joined_expected (main_pc p) \<longrightarrow> joined p) \<and>
     (joined p \<longrightarrow> server_expected (main_pc p) \<or> main_pc p = M_Exit) \<and>
     ((joined p \<or> stop_point (main_pc p) \<noteq> None) \<longrightarrow> g_shutdown p) \<and>
     (if server_expected (main_pc p) then \<exists>s. g_server p = Some s \<and> server_part c p s
      else crashed p = None \<and> handlers p = [] \<and>
        (case main_pc p of M_Run _ \<Rightarrow> g_server p = Some AsyncServer_new | _ \<Rightarrow> g_server p = None))"

text \<open>What a step of a call of \<open>Shutdown\<close> on the main thread leaves behind.\<close>

definition stop_ok :: "int \<Rightarrow> shutdown_pc \<Rightarrow> 's process \<Rightarrow> 's process \<Rightarrow> bool" where
  "stop_ok c pc' p p' \<longleftrightarrow>
     (\<exists>s'. g_server p' = Some s' \<and> server_inv (nat c) s' \<and> phase s' \<noteq> NotStarted \<and> (joined p' \<longrightarrow> drained s') \<and>
        server_ub s' = None \<and> (pc' \<noteq> S_Done \<longrightarrow> down_by pc' s') \<and>
        (\<forall>s pc. g_server p = Some s \<longrightarrow> down_by pc s \<longrightarrow> down_by pc s')) \<and>
     (joined p \<longrightarrow> joined p') \<and> (pc' = S_Done \<longrightarrow> joined p') \<and> crashed p' = None \<and>
     main_pc p' = main_pc p \<and> handlers p' = handlers p \<and> g_shutdown p' = g_shutdown p \<and>
     installed p' = installed p"

subsection \<open>The invariant\<close>

lemma server_new_run:
  assumes "sound_config cfg c"
  shows "server_inv (nat c) (Run (hardware_concurrency cfg) c (port_free cfg) b AsyncServer_new)"
    and "phase (Run (hardware_concurrency cfg) c (port_free cfg) b AsyncServer_new) = Serving"
    and "server_ub (Run (hardware_concurrency cfg) c (port_free cfg) b AsyncServer_new) = None"
  using assms
  by (auto simp: sound_config_def Run_def Let_def AsyncServer_new_def intro!: server_init_inv [of "hardware_concurrency cfg"]
      simp: server_init_def)

lemma event_phase: "phase (DriveCompletionQueue i okay req s) = phase s"
  by (auto simp: DriveCompletionQueue_def split: option.splits proceed_result.splits)

lemma event_ub:
  assumes "server_inv n s" and "i < length (slots s)" and "0 < slot_flight (slots s ! i)" and "server_ub s = None"
  shows "server_ub (DriveCompletionQueue i okay req s) \<in> {None, Some RequestAfterShutdown}"
proof -
  from assms have "slot_ok (slots s ! i)" by (simp add: server_inv_def)
  with assms(3) have "slot_ctx (slots s ! i) \<noteq> None" by (auto simp: slot_ok_def split: if_splits)
  with assms(4) show ?thesis
    by (auto simp: DriveCompletionQueue_def split: option.splits proceed_result.splits)
qed

lemma shutdown_server_keeps:
  "slots (Shutdown_server s) = slots s" "slots (Shutdown_queues s) = slots s"
  "phase s \<noteq> NotStarted \<Longrightarrow> server_ub (Shutdown_server s) = server_ub s"
  "server_ub (Shutdown_queues s) = server_ub s"
  "server_inv n s \<Longrightarrow> phase s \<noteq> NotStarted \<Longrightarrow> server_inv n (Shutdown_server s)"
  "server_inv n s \<Longrightarrow> server_inv n (Shutdown_queues s)"
  "phase s \<noteq> NotStarted \<Longrightarrow> phase (Shutdown_server s) \<noteq> NotStarted"
  "phase s = QueuesDown \<Longrightarrow> phase (Shutdown_server s) = QueuesDown"
  "phase (Shutdown_queues s) = QueuesDown"
  by (auto simp: Shutdown_server_def Shutdown_queues_def server_inv_def)

lemma drained_keeps: "drained s \<Longrightarrow> drained (Shutdown_server s)" "drained s \<Longrightarrow> drained (Shutdown_queues s)"
  by (auto simp: drained_def Shutdown_server_def Shutdown_queues_def)

lemmas part_defs = server_part_def down_by_def shutdown_server_keeps drained_keeps

text \<open>What a call of \<open>Shutdown\<close> from the main thread does to the server's part of the invariant.\<close>

lemma shutdown_call_ok:
  assumes "server_part c p s" and "g_server p = Some s" and "crashed p = None" and "down_by pc s"
    and "\<not> handler_on_queue p" and "pc = S_Join \<Longrightarrow> \<not> joining p"
    and "shutdown_call False pc s p = (pc', p')"
  shows "stop_ok c pc' p p'"
  using assms by (cases pc) (auto simp: shutdown_call_def part_defs stop_ok_def split: if_splits)

lemma main_shutdown_inv:
  assumes inv: "server_part c p s" and p: "g_server p = Some s" "crashed p = None" "handlers p = []" "g_shutdown p"
      "set (installed p) = {SIGINT, SIGTERM}"
    and at: "main_pc p = here pc" "stop_point (here pc) = Some pc" "\<And>q. server_expected (here q)"
      "\<And>q. stop_point (here q) = Some q" "\<And>q. joined_expected (here q) \<Longrightarrow> joined p"
    and nxt: "next_pc \<in> {M_Return, M_Exit}" "next_pc = M_Exit \<Longrightarrow> joined p"
  shows "proc_inv c (let p' = main_shutdown here next_pc pc p
      in if main_pc p' = M_Exit then p'\<lparr>g_server := None\<rparr> else p')"
proof -
  have d: "down_by pc s" using inv at by (simp add: server_part_def)
  have q: "\<not> handler_on_queue p" using p by (simp add: handler_on_queue_def)
  have j: "\<not> joining p" if "pc = S_Join" using that p at(1,2) by (auto simp: joining_def)
  have ne: "here q \<noteq> M_Exit" "here q \<noteq> M_Return" "here q \<notin> {M_Log, M_SigInt, M_SigTerm}" for q using at(4) [of q] by auto
  obtain pc' p' where call: "shutdown_call False pc s p = (pc', p')" by fastforce
  from shutdown_call_ok [OF inv p(1,2) d q j call] have c: "stop_ok c pc' p p'" .
  show ?thesis
  proof (cases "pc' = S_Done")
    case True
    with call c p nxt show ?thesis
      by (auto simp: main_shutdown_def proc_inv_def server_part_def stop_ok_def frames_ok_def)
  next
    case False
    with call c p at ne show ?thesis
      by (auto simp: main_shutdown_def proc_inv_def server_part_def stop_ok_def frames_ok_def)
  qed
qed

lemma main_step_inv:
  assumes cfg: "sound_config cfg c" and inv: "proc_inv c p" and free: "crashed p = None" "handlers p = []"
  shows "proc_inv c (main_step cfg (main_pc p) p)"
proof (cases "main_pc p")
  case (M_Run port)
  moreover have "context_count (hardware_concurrency cfg) (DTS_INITIAL_CONTEXT cfg) = Inr c"
    using cfg by (simp add: sound_config_def)
  ultimately show ?thesis
    using inv free by (auto simp: proc_inv_def server_part_def frames_ok_def Let_def server_new_run [OF cfg])
next
  case (M_Shutdown pc)
  with inv obtain s where s: "g_server p = Some s" "server_part c p s" "g_shutdown p" "set (installed p) = {SIGINT, SIGTERM}"
    by (auto simp: proc_inv_def)
  have "main_pc (main_shutdown M_Shutdown M_Return pc p) \<noteq> M_Exit"
    using s by (auto simp: main_shutdown_def split: prod.splits)
  with main_shutdown_inv [OF s(2,1) free s(3,4), of M_Shutdown pc M_Return] M_Shutdown show ?thesis
    by simp
next
  case (M_Destroy pc)
  with inv obtain s where s: "g_server p = Some s" "server_part c p s" "g_shutdown p"
    "set (installed p) = {SIGINT, SIGTERM}" "joined p"
    by (auto simp: proc_inv_def)
  with main_shutdown_inv [OF s(2,1) free s(3,4), of M_Destroy pc M_Exit] M_Destroy show ?thesis by simp
next
  case M_Port
  with cfg inv free show ?thesis
    by (auto simp: proc_inv_def sound_config_def ok_def split: sum.splits)
qed (use cfg inv free in \<open>auto simp: proc_inv_def server_part_def frames_ok_def down_by_def\<close>)

lemma handler_step_inv:
  assumes inv: "proc_inv c p" and free: "crashed p = None" and h: "newest th (handlers p) = Some pc"
  shows "proc_inv c (handler_step th pc p)"
proof -
  from h have ne: "handlers p \<noteq> []" by auto
  with inv have "server_expected (main_pc p)" by (auto simp: proc_inv_def split: if_splits)
  with inv obtain s where s: "g_server p = Some s" "server_part c p s" by (auto simp: proc_inv_def)
  from ne obtain t sg pc0 hs where hd: "handlers p = (t, sg, pc0) # hs" by (cases "handlers p") auto
  from s have frames: "frames_ok p s" by (simp add: server_part_def)
  with ne inv have t: "main_pc p = M_Wait" "g_shutdown p" "set (installed p) = {SIGINT, SIGTERM}" and j: "\<not> joined p \<or> drained s"
    using s by (auto simp: frames_ok_def proc_inv_def server_part_def)
  from frames hd have hs: "\<forall>(th, sg, pc) \<in> set hs. th = OnMain \<and> down_by pc s \<and> pc \<noteq> S_Joining"
    and t0: "t = OnMain" "down_by pc0 s" by (auto simp: frames_ok_def)
  have "newest th hs = None" if "th \<noteq> OnMain"
    using hs that by (induction hs) auto
  with h hd t0 have th: "th = OnMain" "pc = pc0" by (auto split: if_splits)
  have q: "\<not> handler_on_queue p" using hd hs t0 by (auto simp: handler_on_queue_def list_ex_iff)
  have nj: "\<not> joining p" if "pc = S_Join"
    using that th hd hs t by (auto simp: joining_def list_ex_iff)
  obtain pc' p' where call: "shutdown_call False pc s p = (pc', p')" by fastforce
  from shutdown_call_ok [OF s(2,1) free _ q nj call] t0 th have ok: "stop_ok c pc' p p'" by simp
  then obtain s' where s': "g_server p' = Some s'" "\<And>pc. down_by pc s \<Longrightarrow> down_by pc s'"
    using s by (auto simp: stop_ok_def)
  have tls: "(a, b, S_Joining) \<notin> set (tl hs)" for a b using hs by (cases hs) auto
  from ok s' have p': "main_pc p' = main_pc p" "g_shutdown p' = g_shutdown p" "pc' \<noteq> S_Done \<Longrightarrow> down_by pc' s'"
    by (auto simp: stop_ok_def)
  have "resume_handler th pc' (handlers p') = (if pc' = S_Done then hs else (OnMain, sg, pc') # hs)"
    using ok hd t0 th by (simp add: stop_ok_def)
  then have "frames_ok (p'\<lparr>handlers := resume_handler th pc' (handlers p')\<rparr>) s'"
    using hs s'(2) p' t tls by (cases "pc' = S_Done") (auto simp: frames_ok_def)
  with s t call th ok s' show ?thesis
    by (auto simp: handler_step_def proc_inv_def server_part_def stop_ok_def)
qed

lemma event_step_inv:
  assumes inv: "proc_inv c p" and free: "crashed p = None"
    and s: "g_server p = Some s" "i < length (slots s)" "0 < slot_flight (slots s ! i)"
  shows "proc_inv c (p\<lparr>g_server := Some (DriveCompletionQueue i okay req s),
     crashed := map_option ServerCrash (server_ub (DriveCompletionQueue i okay req s))\<rparr>)"
proof -
  have e: "server_expected (main_pc p)"
    using inv s by (auto simp: proc_inv_def AsyncServer_new_def split: main_pc.splits if_splits)
  with inv s have part: "server_part c p s" by (auto simp: proc_inv_def)
  then have "server_inv (nat c) s" "server_ub s = None" using free by (auto simp: server_part_def)
  from event_inv [OF this(1) s(2,3)] event_ub [OF this(1) s(2,3) this(2)]
  have n: "server_inv (nat c) (DriveCompletionQueue i okay req s)"
    "server_ub (DriveCompletionQueue i okay req s) \<in> {None, Some RequestAfterShutdown}" by auto
  have "\<not> drained s" using s(2,3) by (auto simp: drained_def list_all_length)
  with part have "\<not> joined p" by (auto simp: server_part_def)
  with inv e part n show ?thesis
    by (auto simp: proc_inv_def server_part_def frames_ok_def event_phase down_by_def split: option.splits)
qed

lemma proc_start_inv: "proc_init p \<Longrightarrow> proc_inv c p"
  by (auto simp: proc_init_def process_start_def proc_inv_def)

lemma proc_move_inv:
  assumes cfg: "sound_config cfg c" and inv: "proc_inv c p" and m: "proc_move cfg calm a p = Some p'"
  shows "proc_inv c p'"
proof (cases a)
  case MainMoves
  with m have free: "crashed p = None" and p': "p' = main_step cfg (main_pc p) p"
    and h: "newest OnMain (handlers p) = None" by (auto split: if_splits)
  have "handlers p = []"
    using inv h by (cases "handlers p") (auto simp: proc_inv_def server_part_def frames_ok_def split: if_splits)
  with main_step_inv [OF cfg inv free] p' show ?thesis by simp
next
  case (SignalAt sg th)
  have "sg \<in> set (installed p)" if "main_pc p = M_Wait" using inv that by (cases sg) (auto simp: proc_inv_def)
  with SignalAt m have "main_pc p = M_Wait" "th = OnMain" "\<not> joining p" "p' = signal_handler sg th p"
    by (auto simp: calm_def split: if_splits)
  with inv show ?thesis
    by (auto simp: proc_inv_def server_part_def frames_ok_def signal_handler_def down_by_def joining_def list_ex_iff)
next
  case (HandlerMoves th)
  with m obtain pc where "newest th (handlers p) = Some pc" "crashed p = None" "p' = handler_step th pc p"
    by (auto split: if_splits option.splits)
  with handler_step_inv [OF inv] show ?thesis by simp
next
  case (Event i okay req)
  with m obtain s where "g_server p = Some s" "crashed p = None" "i < length (slots s)"
    "0 < slot_flight (slots s ! i)" "p' = p\<lparr>g_server := Some (DriveCompletionQueue i okay req s),
     crashed := map_option ServerCrash (server_ub (DriveCompletionQueue i okay req s))\<rparr>"
    by (auto simp: Let_def split: if_splits option.splits)
  with event_step_inv [OF inv] show ?thesis by simp
qed

interpretation main_thread: invariant_system proc_init "\<lambda>p p'. sound_config cfg c \<and> proc_step cfg calm p p'" "proc_inv c"
  for cfg c
  by unfold_locales (auto intro: proc_start_inv proc_move_inv simp: proc_step_def)

lemma reach_calm:
  "reach proc_init (proc_step cfg calm) p \<Longrightarrow> sound_config cfg c \<Longrightarrow>
   reach proc_init (\<lambda>p p'. sound_config cfg c \<and> proc_step cfg calm p p') p"
  by (induction rule: reach.induct) (auto intro: reach.intros)

lemma drained_empty:
  assumes "server_inv n s" and "drained s"
  shows "cnt occupied (slots s) = 0"
  using assms by (auto simp: server_inv_def drained_def list_all_iff cnt_zero_iff occupied_def slot_ok_def)

lemma run_reach:
  "proc_run cfg sig as p = Some p' \<Longrightarrow> reach proc_init (proc_step cfg sig) p \<Longrightarrow>
   reach proc_init (proc_step cfg sig) p'"
proof (induction "as" arbitrary: p)
  case (Cons a "as")
  then obtain q where q: "proc_move cfg sig a p = Some q" "proc_run cfg sig as q = Some p'"
    by (auto split: option.splits)
  then have "proc_step cfg sig p q" by (auto simp: proc_step_def)
  with Cons.prems have "reach proc_init (proc_step cfg sig) q" by (blast intro: reach.reach_step)
  with Cons.IH q show ?case by blast
qed simp

lemma reach_run: "proc_run cfg sig as (process_start f) = Some p \<Longrightarrow> reach proc_init (proc_step cfg sig) p"
  by (erule run_reach) (rule reach.reach_init, auto simp: proc_init_def)

subsection \<open>Properties\<close>

text \<open>C14: when starting succeeds and the signals, any number of them, arrive on the main thread
  while it waits and no handler is at its join (also a \<open>SIGTERM\<close> that interrupts the handler of a
  \<open>SIGINT\<close>, or the other way round), the process never crashes except when a call that finishes
  after the queues were shut down registers its successor. When \<open>main\<close> returns, a signal was
  received, the server and its queues are down, the completion threads are joined and every call
  context was deleted.\<close>

theorem main_shuts_down_cleanly:
  assumes "reach proc_init (proc_step cfg calm) p" and "sound_config cfg c"
  shows "crashed p \<in> {None, Some (ServerCrash RequestAfterShutdown)} \<and>
     (main_pc p = M_Return \<longrightarrow> g_shutdown p \<and> joined p \<and>
        (\<exists>s. g_server p = Some s \<and> phase s = QueuesDown \<and> cnt occupied (slots s) = 0 \<and> lost s = nat c)) \<and>
     (main_pc p = M_Exit \<longrightarrow> g_server p = None \<and> joined p)"
proof -
  from main_thread.reach_inv [OF reach_calm [OF assms]] have inv: "proc_inv c p" .
  show ?thesis
  proof (intro conjI impI)
    show "crashed p \<in> {None, Some (ServerCrash RequestAfterShutdown)}"
      using inv by (auto simp: proc_inv_def server_part_def split: if_splits)
  next
    assume "main_pc p = M_Return"
    with inv obtain s where s: "g_server p = Some s" "server_inv (nat c) s" "drained s" "g_shutdown p" "joined p"
      by (auto simp: proc_inv_def server_part_def)
    then have z: "cnt occupied (slots s) = 0" by (blast intro: drained_empty)
    with s show "g_shutdown p" "joined p"
      "\<exists>s. g_server p = Some s \<and> phase s = QueuesDown \<and> cnt occupied (slots s) = 0 \<and> lost s = nat c"
      by (auto simp: drained_def server_inv_def split: if_splits)
  qed (use inv in \<open>auto simp: proc_inv_def\<close>)
qed

theorem main_shuts_down_cleanly_witness:
  "\<exists>p s. reach proc_init (proc_step one_context calm) (p :: nat process) \<and> sound_config one_context 1 \<and>
     main_pc p = M_Return \<and> g_server p = Some s \<and> lost s = 1 \<and> crashed p = None"
proof -
  let ?run = "proc_run one_context calm (replicate 6 MainMoves @ [SignalAt SIGINT OnMain, HandlerMoves OnMain,
      SignalAt SIGTERM OnMain] @ replicate 3 (HandlerMoves OnMain) @ [Event 0 False undefined, HandlerMoves OnMain] @
      replicate 2 (HandlerMoves OnMain) @ replicate 4 MainMoves) (process_start no_flags) :: nat process option"
  have "map_option (\<lambda>p. (main_pc p, crashed p)) ?run = Some (M_Return, None)" by code_simp
  then obtain p where run: "?run = Some p" and pc: "main_pc p = M_Return" "crashed p = None" by auto
  from run have r: "reach proc_init (proc_step one_context calm) p" by (rule reach_run)
  have cfg: "sound_config one_context 1" by code_simp
  from main_shuts_down_cleanly [OF r cfg] pc r cfg show ?thesis by auto
qed

text \<open>C31: a signal at another time or on another thread brings the process down. It kills the
  process before the handlers are installed; between the creation of the server and its start
  the handler calls \<open>Shutdown\<close> on a server that does not exist; on a completion thread the
  handler joins its own thread; when a signal came before the server was created, a second
  one while \<open>main\<close> waits for the threads joins them twice; and so does a \<open>SIGTERM\<close> that
  interrupts the handler of a \<open>SIGINT\<close> while that waits for the threads.\<close>

theorem signals_crash_the_server:
  "(\<exists>p. reach proc_init (proc_step one_context any_signal) (p :: nat process) \<and> crashed p = Some KilledBySignal) \<and>
   (\<exists>p. reach proc_init (proc_step one_context any_signal) (p :: nat process) \<and>
      crashed p = Some (ServerCrash NullServer)) \<and>
   (\<exists>p. reach proc_init (proc_step one_context any_signal) (p :: nat process) \<and> crashed p = Some JoinsItself) \<and>
   (\<exists>p. reach proc_init (proc_step one_context any_signal) (p :: nat process) \<and> crashed p = Some JoinsTwice \<and>
      main_pc p = M_Shutdown S_Joining) \<and>
   (\<exists>p. reach proc_init (proc_step one_context any_signal) (p :: nat process) \<and> crashed p = Some JoinsTwice \<and>
      main_pc p = M_Wait \<and> handlers p = [(OnMain, SIGTERM, S_Join), (OnMain, SIGINT, S_Joining)])"
proof -
  let ?run = "\<lambda>as. proc_run one_context any_signal as (process_start no_flags) :: nat process option"
  let ?h = "\<lambda>n th. replicate n (HandlerMoves th) :: nat proc_action list"
  have crash: "\<exists>p. reach proc_init (proc_step one_context any_signal) (p :: nat process) \<and> Q p"
    if "case ?run as of None \<Rightarrow> False | Some p \<Rightarrow> Q p" for "as" Q
    using that by (auto intro: reach_run split: option.splits)
  have "case ?run [MainMoves, SignalAt SIGINT OnMain] of None \<Rightarrow> False | Some p \<Rightarrow> crashed p = Some KilledBySignal"
    by code_simp
  moreover have "case ?run (replicate 5 MainMoves @ SignalAt SIGINT OnMain # ?h 1 OnMain) of
      None \<Rightarrow> False | Some p \<Rightarrow> crashed p = Some (ServerCrash NullServer)" by code_simp
  moreover have "case ?run (replicate 6 MainMoves @ SignalAt SIGINT (OnQueue 0) # ?h 3 (OnQueue 0)) of
      None \<Rightarrow> False | Some p \<Rightarrow> crashed p = Some JoinsItself" by code_simp
  moreover have "case ?run (replicate 3 MainMoves @ [SignalAt SIGINT OnMain] @ replicate 7 MainMoves @
      SignalAt SIGINT OnMain # ?h 3 OnMain) of
      None \<Rightarrow> False | Some p \<Rightarrow> crashed p = Some JoinsTwice \<and> main_pc p = M_Shutdown S_Joining" by code_simp
  moreover have "case ?run (replicate 6 MainMoves @ [SignalAt SIGINT OnMain] @ ?h 3 OnMain @
      SignalAt SIGTERM OnMain # ?h 3 OnMain) of
      None \<Rightarrow> False | Some p \<Rightarrow> crashed p = Some JoinsTwice \<and> main_pc p = M_Wait \<and>
        handlers p = [(OnMain, SIGTERM, S_Join), (OnMain, SIGINT, S_Joining)]" by code_simp
  ultimately show ?thesis by (intro conjI crash)
qed

end
