(* ===== verification/Compiler_Id.thy ===== *)
theory Compiler_Id
  imports Prelude "HOL-Library.Signed_Division"
begin

text \<open>
  Model of the compiler identification source that the build keeps under
  \<open>CMakeFiles/3.28.3/CompilerIdCXX/CMakeCXXCompilerId.cpp\<close>. The source is a program whose text
  depends on the macros that the compiler predefines: conditional sections choose an identity, a
  version, a platform and a language standard, the declarations below them spell these out in
  \<open>INFO:\<close> strings, and \<open>main\<close> refers to every string so that the linker keeps it.

  A set of predefined macros is a map from names to integers or string literals. In a condition
  an identifier that is no integer macro counts as 0; in an initialiser it makes the
  translation fail, which is the value \<open>None\<close> of a literal.
\<close>

unbundle bit_operations_syntax

subsection \<open>Predefined macros\<close>

datatype macro = Num int | Str string

type_synonym macros = "string \<rightharpoonup> macro"

definition defined :: "macros \<Rightarrow> string \<Rightarrow> bool" where
  "defined m x \<longleftrightarrow> m x \<noteq> None"

definition any_defined :: "macros \<Rightarrow> string list \<Rightarrow> bool" where
  "any_defined m xs \<longleftrightarrow> list_ex (defined m) xs"

definition cond_val :: "macros \<Rightarrow> string \<Rightarrow> int" where
  "cond_val m x = (case m x of Some (Num n) \<Rightarrow> n | _ \<Rightarrow> 0)"

definition num :: "macros \<Rightarrow> string \<Rightarrow> int option" where
  "num m x = (case m x of Some (Num n) \<Rightarrow> Some n | _ \<Rightarrow> None)"

subsection \<open>Digits\<close>

definition digit :: "int \<Rightarrow> char" where
  "digit v = char_of (48 + v)"

definition DEC :: "int \<Rightarrow> string" where
  "DEC n =
     [digit ((n sdiv 10000000) smod 10),
      digit ((n sdiv 1000000) smod 10),
      digit ((n sdiv 100000) smod 10),
      digit ((n sdiv 10000) smod 10),
      digit ((n sdiv 1000) smod 10),
      digit ((n sdiv 100) smod 10),
      digit ((n sdiv 10) smod 10),
      digit (n smod 10)]"

definition HEX :: "int \<Rightarrow> string" where
  "HEX n =
     [digit (drop_bit 28 n AND 15),
      digit (drop_bit 24 n AND 15),
      digit (drop_bit 20 n AND 15),
      digit (drop_bit 16 n AND 15),
      digit (drop_bit 12 n AND 15),
      digit (drop_bit 8 n AND 15),
      digit (drop_bit 4 n AND 15),
      digit (n AND 15)]"

text \<open>
  What a macro such as \<open>COMPILER_VERSION_MAJOR\<close> may be: not defined, or defined as characters
  that are spelled out, or fail to be, where it is used.
\<close>

type_synonym lit = "string option option"

definition dec :: "macros \<Rightarrow> (int \<Rightarrow> int) \<Rightarrow> string \<Rightarrow> lit" where
  "dec m f x = Some (map_option (\<lambda>v. DEC (f v)) (num m x))"

definition hex :: "macros \<Rightarrow> (int \<Rightarrow> int) \<Rightarrow> string \<Rightarrow> lit" where
  "hex m f x = Some (map_option (\<lambda>v. HEX (f v)) (num m x))"

definition str :: "macros \<Rightarrow> string \<Rightarrow> lit" where
  "str m x = Some (case m x of Some (Str s) \<Rightarrow> Some s | _ \<Rightarrow> None)"

text \<open>A component that is defined when the macro it is taken from is.\<close>

definition dec_if :: "macros \<Rightarrow> string \<Rightarrow> lit" where
  "dec_if m x = (if defined m x then dec m (\<lambda>v. v) x else None)"

subsection \<open>The compiler\<close>

record compiler =
  COMPILER_ID :: string
  SIMULATE_ID :: "string option"
  VERSION :: lit
  MAJOR :: lit
  MINOR :: lit
  PATCH :: lit
  TWEAK :: lit
  INTERNAL :: lit
  INTERNAL_STR :: lit
  SIM_MAJOR :: lit
  SIM_MINOR :: lit
  SIM_PATCH :: lit

definition ident :: "string \<Rightarrow> compiler" where
  "ident name =
     \<lparr>COMPILER_ID = name, SIMULATE_ID = None, VERSION = None, MAJOR = None, MINOR = None,
      PATCH = None, TWEAK = None, INTERNAL = None, INTERNAL_STR = None,
      SIM_MAJOR = None, SIM_MINOR = None, SIM_PATCH = None\<rparr>"

text \<open>
  The sections that Intel's two compilers share: which compiler they simulate, a later definition
  replacing an earlier one, and its version.
\<close>

definition simulate_msvc_gnu :: "macros \<Rightarrow> compiler \<Rightarrow> compiler" where
  "simulate_msvc_gnu m c =
     c\<lparr>SIMULATE_ID :=
         (if defined m ''__GNUC__'' then Some ''GNU''
          else if defined m ''_MSC_VER'' then Some ''MSVC'' else None),
       SIM_MAJOR :=
         (if defined m ''__GNUC__'' then dec m (\<lambda>v. v) ''__GNUC__''
          else if defined m ''__GNUG__'' then dec m (\<lambda>v. v) ''__GNUG__''
          else if defined m ''_MSC_VER'' then dec m (\<lambda>v. v sdiv 100) ''_MSC_VER'' else None),
       SIM_MINOR :=
         (if defined m ''__GNUC_MINOR__'' then dec m (\<lambda>v. v) ''__GNUC_MINOR__''
          else if defined m ''_MSC_VER'' then dec m (\<lambda>v. v smod 100) ''_MSC_VER'' else None),
       SIM_PATCH := dec_if m ''__GNUC_PATCHLEVEL__''\<rparr>"

text \<open>The section of \<open>MSVC\<close> simulation in the Clang branches.\<close>

definition simulate_msvc :: "macros \<Rightarrow> compiler \<Rightarrow> compiler" where
  "simulate_msvc m c =
     (if defined m ''_MSC_VER'' then
        c\<lparr>SIMULATE_ID := Some ''MSVC'', SIM_MAJOR := dec m (\<lambda>v. v sdiv 100) ''_MSC_VER'',
          SIM_MINOR := dec m (\<lambda>v. v smod 100) ''_MSC_VER''\<rparr>
      else c)"

text \<open>The longer branches of the identification, one definition each.\<close>

definition intel_section :: "macros \<Rightarrow> compiler" where
  "intel_section m =
     (let v = cond_val m ''__INTEL_COMPILER'';
          old_format = (v < 2021 \<or> v = 202110 \<or> v = 202111)
      in simulate_msvc_gnu m
        ((ident ''Intel'')
           \<lparr>MAJOR := (if old_format then dec m (\<lambda>v. v sdiv 100) ''__INTEL_COMPILER''
                      else dec m (\<lambda>v. v) ''__INTEL_COMPILER''),
            MINOR := (if old_format then dec m (\<lambda>v. v sdiv 10 smod 10) ''__INTEL_COMPILER''
                      else dec m (\<lambda>v. v) ''__INTEL_COMPILER_UPDATE''),
            PATCH := (if old_format
                      then if defined m ''__INTEL_COMPILER_UPDATE'' then dec m (\<lambda>v. v) ''__INTEL_COMPILER_UPDATE''
                           else dec m (\<lambda>v. v smod 10) ''__INTEL_COMPILER''
                      else Some (Some (DEC 0))),
            TWEAK := dec_if m ''__INTEL_COMPILER_BUILD_DATE''\<rparr>))"

definition intel_llvm_section :: "macros \<Rightarrow> compiler" where
  "intel_llvm_section m =
     simulate_msvc_gnu m
       (if cond_val m ''__INTEL_LLVM_COMPILER'' < 1000000
        then (ident ''IntelLLVM'')
           \<lparr>MAJOR := dec m (\<lambda>v. v sdiv 100) ''__INTEL_LLVM_COMPILER'',
            MINOR := dec m (\<lambda>v. v sdiv 10 smod 10) ''__INTEL_LLVM_COMPILER'',
            PATCH := dec m (\<lambda>v. v smod 10) ''__INTEL_LLVM_COMPILER''\<rparr>
        else (ident ''IntelLLVM'')
           \<lparr>MAJOR := dec m (\<lambda>v. v sdiv 10000) ''__INTEL_LLVM_COMPILER'',
            MINOR := dec m (\<lambda>v. v sdiv 100 smod 100) ''__INTEL_LLVM_COMPILER'',
            PATCH := dec m (\<lambda>v. v smod 100) ''__INTEL_LLVM_COMPILER''\<rparr>)"

definition fujitsu_section :: "macros \<Rightarrow> compiler" where
  "fujitsu_section m =
     (let c = (if defined m ''__FCC_version__'' then (ident ''Fujitsu'')\<lparr>VERSION := str m ''__FCC_version__''\<rparr>
               else if defined m ''__FCC_major__'' then
                 (ident ''Fujitsu'')\<lparr>MAJOR := dec m (\<lambda>v. v) ''__FCC_major__'',
                   MINOR := dec m (\<lambda>v. v) ''__FCC_minor__'', PATCH := dec m (\<lambda>v. v) ''__FCC_patchlevel__''\<rparr>
               else ident ''Fujitsu'')
      in if defined m ''__fcc_version'' then c\<lparr>INTERNAL := dec m (\<lambda>v. v) ''__fcc_version''\<rparr>
         else if defined m ''__FCC_VERSION'' then c\<lparr>INTERNAL := dec m (\<lambda>v. v) ''__FCC_VERSION''\<rparr>
         else c)"

definition lcc_section :: "macros \<Rightarrow> compiler" where
  "lcc_section m =
     (let c = (ident ''LCC'')\<lparr>MAJOR := dec m (\<lambda>v. v sdiv 100) ''__LCC__'',
            MINOR := dec m (\<lambda>v. v smod 100) ''__LCC__'', PATCH := dec_if m ''__LCC_MINOR__''\<rparr>
      in if defined m ''__GNUC__'' \<and> defined m ''__GNUC_MINOR__'' then
           c\<lparr>SIMULATE_ID := Some ''GNU'', SIM_MAJOR := dec m (\<lambda>v. v) ''__GNUC__'',
             SIM_MINOR := dec m (\<lambda>v. v) ''__GNUC_MINOR__'', SIM_PATCH := dec_if m ''__GNUC_PATCHLEVEL__''\<rparr>
         else c)"

definition iar_section :: "macros \<Rightarrow> compiler" where
  "iar_section m =
     (if defined m ''__VER__'' \<and> defined m ''__ICCARM__'' then
        (ident ''IAR'')\<lparr>MAJOR := dec m (\<lambda>v. v sdiv 1000000) ''__VER__'',
          MINOR := dec m (\<lambda>v. (v sdiv 1000) smod 1000) ''__VER__'',
          PATCH := dec m (\<lambda>v. v smod 1000) ''__VER__'',
          INTERNAL := dec m (\<lambda>v. v) ''__IAR_SYSTEMS_ICC__''\<rparr>
      else if defined m ''__VER__'' \<and>
        any_defined m [''__ICCAVR__'', ''__ICCRX__'', ''__ICCRH850__'', ''__ICCRL78__'', ''__ICC430__'',
          ''__ICCRISCV__'', ''__ICCV850__'', ''__ICC8051__'', ''__ICCSTM8__''] then
        (ident ''IAR'')\<lparr>MAJOR := dec m (\<lambda>v. v sdiv 100) ''__VER__'',
          MINOR := dec m (\<lambda>v. v - (v sdiv 100) * 100) ''__VER__'',
          PATCH := dec m (\<lambda>v. v) ''__SUBVERSION__'',
          INTERNAL := dec m (\<lambda>v. v) ''__IAR_SYSTEMS_ICC__''\<rparr>
      else ident ''IAR'')"

text \<open>The chain of identification, in three stretches; a compiler that no stretch knows has no name.\<close>

definition identify_first :: "macros \<Rightarrow> compiler option" where
  "identify_first m =
     (if defined m ''__COMO__''
       then Some ((ident ''Comeau'')\<lparr>MAJOR := dec m (\<lambda>v. v sdiv 100) ''__COMO_VERSION__'',
            MINOR := dec m (\<lambda>v. v smod 100) ''__COMO_VERSION__''\<rparr>)
     else if (defined m ''__INTEL_COMPILER'' \<or> defined m ''__ICC'')
       then Some (intel_section m)
     else if (defined m ''__clang__'' \<and> defined m ''__INTEL_CLANG_COMPILER'') \<or> defined m ''__INTEL_LLVM_COMPILER''
       then Some (intel_llvm_section m)
     else if defined m ''__PATHCC__''
       then Some ((ident ''PathScale'')\<lparr>MAJOR := dec m (\<lambda>v. v) ''__PATHCC__'',
            MINOR := dec m (\<lambda>v. v) ''__PATHCC_MINOR__'',
            PATCH := dec_if m ''__PATHCC_PATCHLEVEL__''\<rparr>)
     else if defined m ''__BORLANDC__'' \<and> defined m ''__CODEGEARC_VERSION__''
       then Some ((ident ''Embarcadero'')\<lparr>MAJOR := hex m (\<lambda>v. drop_bit 24 v AND 255) ''__CODEGEARC_VERSION__'',
            MINOR := hex m (\<lambda>v. drop_bit 16 v AND 255) ''__CODEGEARC_VERSION__'',
            PATCH := dec m (\<lambda>v. v AND 65535) ''__CODEGEARC_VERSION__''\<rparr>)
     else if defined m ''__BORLANDC__''
       then Some ((ident ''Borland'')\<lparr>MAJOR := hex m (\<lambda>v. drop_bit 8 v) ''__BORLANDC__'',
            MINOR := hex m (\<lambda>v. v AND 255) ''__BORLANDC__''\<rparr>)
     else if defined m ''__WATCOMC__'' \<and> cond_val m ''__WATCOMC__'' < 1200
       then Some ((ident ''Watcom'')\<lparr>MAJOR := dec m (\<lambda>v. v sdiv 100) ''__WATCOMC__'',
            MINOR := dec m (\<lambda>v. v sdiv 10 smod 10) ''__WATCOMC__'',
            PATCH := (if cond_val m ''__WATCOMC__'' smod 10 > 0 then dec m (\<lambda>v. v smod 10) ''__WATCOMC__'' else None)\<rparr>)
     else if defined m ''__WATCOMC__''
       then Some ((ident ''OpenWatcom'')\<lparr>MAJOR := dec m (\<lambda>v. (v - 1100) sdiv 100) ''__WATCOMC__'',
            MINOR := dec m (\<lambda>v. v sdiv 10 smod 10) ''__WATCOMC__'',
            PATCH := (if cond_val m ''__WATCOMC__'' smod 10 > 0 then dec m (\<lambda>v. v smod 10) ''__WATCOMC__'' else None)\<rparr>)
     else if defined m ''__SUNPRO_CC''
       then Some ((if cond_val m ''__SUNPRO_CC'' \<ge> 20736
          then (ident ''SunPro'')\<lparr>MAJOR := hex m (\<lambda>v. drop_bit 12 v) ''__SUNPRO_CC'',
            MINOR := hex m (\<lambda>v. drop_bit 4 v AND 255) ''__SUNPRO_CC'',
            PATCH := hex m (\<lambda>v. v AND 15) ''__SUNPRO_CC''\<rparr>
          else (ident ''SunPro'')\<lparr>MAJOR := hex m (\<lambda>v. drop_bit 8 v) ''__SUNPRO_CC'',
            MINOR := hex m (\<lambda>v. drop_bit 4 v AND 15) ''__SUNPRO_CC'',
            PATCH := hex m (\<lambda>v. v AND 15) ''__SUNPRO_CC''\<rparr>))
     else if defined m ''__HP_aCC''
       then Some ((ident ''HP'')\<lparr>MAJOR := dec m (\<lambda>v. v sdiv 10000) ''__HP_aCC'',
            MINOR := dec m (\<lambda>v. v sdiv 100 smod 100) ''__HP_aCC'',
            PATCH := dec m (\<lambda>v. v smod 100) ''__HP_aCC''\<rparr>)
     else None)"

definition identify_second :: "macros \<Rightarrow> compiler option" where
  "identify_second m =
     (if defined m ''__DECCXX''
       then Some ((ident ''Compaq'')\<lparr>MAJOR := dec m (\<lambda>v. v sdiv 10000000) ''__DECCXX_VER'',
            MINOR := dec m (\<lambda>v. v sdiv 100000 smod 100) ''__DECCXX_VER'',
            PATCH := dec m (\<lambda>v. v smod 10000) ''__DECCXX_VER''\<rparr>)
     else if defined m ''__IBMCPP__'' \<and> defined m ''__COMPILER_VER__''
       then Some ((ident ''zOS'')\<lparr>MAJOR := dec m (\<lambda>v. v sdiv 100) ''__IBMCPP__'',
            MINOR := dec m (\<lambda>v. v sdiv 10 smod 10) ''__IBMCPP__'',
            PATCH := dec m (\<lambda>v. v smod 10) ''__IBMCPP__''\<rparr>)
     else if defined m ''__open_xl__'' \<and> defined m ''__clang__''
       then Some ((ident ''IBMClang'')\<lparr>TWEAK := dec m (\<lambda>v. v) ''__open_xl_ptf_fix_level__'',
            MAJOR := dec m (\<lambda>v. v) ''__open_xl_version__'',
            MINOR := dec m (\<lambda>v. v) ''__open_xl_release__'',
            PATCH := dec m (\<lambda>v. v) ''__open_xl_modification__''\<rparr>)
     else if defined m ''__ibmxl__'' \<and> defined m ''__clang__''
       then Some ((ident ''XLClang'')\<lparr>TWEAK := dec m (\<lambda>v. v) ''__ibmxl_ptf_fix_level__'',
            MAJOR := dec m (\<lambda>v. v) ''__ibmxl_version__'',
            MINOR := dec m (\<lambda>v. v) ''__ibmxl_release__'',
            PATCH := dec m (\<lambda>v. v) ''__ibmxl_modification__''\<rparr>)
     else if defined m ''__IBMCPP__'' \<and> \<not> defined m ''__COMPILER_VER__'' \<and> cond_val m ''__IBMCPP__'' \<ge> 800
       then Some ((ident ''XL'')\<lparr>MAJOR := dec m (\<lambda>v. v sdiv 100) ''__IBMCPP__'',
            MINOR := dec m (\<lambda>v. v sdiv 10 smod 10) ''__IBMCPP__'',
            PATCH := dec m (\<lambda>v. v smod 10) ''__IBMCPP__''\<rparr>)
     else if defined m ''__IBMCPP__'' \<and> \<not> defined m ''__COMPILER_VER__'' \<and> cond_val m ''__IBMCPP__'' < 800
       then Some ((ident ''VisualAge'')\<lparr>MAJOR := dec m (\<lambda>v. v sdiv 100) ''__IBMCPP__'',
            MINOR := dec m (\<lambda>v. v sdiv 10 smod 10) ''__IBMCPP__'',
            PATCH := dec m (\<lambda>v. v smod 10) ''__IBMCPP__''\<rparr>)
     else if defined m ''__NVCOMPILER''
       then Some ((ident ''NVHPC'')\<lparr>MAJOR := dec m (\<lambda>v. v) ''__NVCOMPILER_MAJOR__'',
            MINOR := dec m (\<lambda>v. v) ''__NVCOMPILER_MINOR__'',
            PATCH := dec_if m ''__NVCOMPILER_PATCHLEVEL__''\<rparr>)
     else if defined m ''__PGI''
       then Some ((ident ''PGI'')\<lparr>MAJOR := dec m (\<lambda>v. v) ''__PGIC__'',
            MINOR := dec m (\<lambda>v. v) ''__PGIC_MINOR__'',
            PATCH := dec_if m ''__PGIC_PATCHLEVEL__''\<rparr>)
     else if defined m ''__clang__'' \<and> defined m ''__cray__''
       then Some ((ident ''CrayClang'')\<lparr>INTERNAL_STR := str m ''__clang_version__'',
            MAJOR := dec m (\<lambda>v. v) ''__cray_major__'',
            MINOR := dec m (\<lambda>v. v) ''__cray_minor__'',
            PATCH := dec m (\<lambda>v. v) ''__cray_patchlevel__''\<rparr>)
     else if defined m ''_CRAYC''
       then Some ((ident ''Cray'')\<lparr>MAJOR := dec m (\<lambda>v. v) ''_RELEASE_MAJOR'',
            MINOR := dec m (\<lambda>v. v) ''_RELEASE_MINOR''\<rparr>)
     else if defined m ''__TI_COMPILER_VERSION__''
       then Some ((ident ''TI'')\<lparr>MAJOR := dec m (\<lambda>v. v sdiv 1000000) ''__TI_COMPILER_VERSION__'',
            MINOR := dec m (\<lambda>v. v sdiv 1000 smod 1000) ''__TI_COMPILER_VERSION__'',
            PATCH := dec m (\<lambda>v. v smod 1000) ''__TI_COMPILER_VERSION__''\<rparr>)
     else if defined m ''__CLANG_FUJITSU''
       then Some ((ident ''FujitsuClang'')\<lparr>INTERNAL_STR := str m ''__clang_version__'',
            MAJOR := dec m (\<lambda>v. v) ''__FCC_major__'',
            MINOR := dec m (\<lambda>v. v) ''__FCC_minor__'',
            PATCH := dec m (\<lambda>v. v) ''__FCC_patchlevel__''\<rparr>)
     else if defined m ''__FUJITSU''
       then Some (fujitsu_section m)
     else if defined m ''__ghs__''
       then Some ((if defined m ''__GHS_VERSION_NUMBER''
          then (ident ''GHS'')\<lparr>MAJOR := dec m (\<lambda>v. v sdiv 100) ''__GHS_VERSION_NUMBER'',
            MINOR := dec m (\<lambda>v. v sdiv 10 smod 10) ''__GHS_VERSION_NUMBER'',
            PATCH := dec m (\<lambda>v. v smod 10) ''__GHS_VERSION_NUMBER''\<rparr>
          else ident ''GHS''))
     else if defined m ''__TASKING__''
       then Some ((ident ''Tasking'')\<lparr>MAJOR := dec m (\<lambda>v. v sdiv 1000) ''__VERSION__'',
            MINOR := dec m (\<lambda>v. v smod 100) ''__VERSION__'',
            INTERNAL := dec m (\<lambda>v. v) ''__VERSION__''\<rparr>)
     else if defined m ''__ORANGEC__''
       then Some ((ident ''OrangeC'')\<lparr>MAJOR := dec m (\<lambda>v. v) ''__ORANGEC_MAJOR__'',
            MINOR := dec m (\<lambda>v. v) ''__ORANGEC_MINOR__'',
            PATCH := dec m (\<lambda>v. v) ''__ORANGEC_PATCHLEVEL__''\<rparr>)
     else None)"

definition identify_third :: "macros \<Rightarrow> compiler option" where
  "identify_third m =
     (if defined m ''__SCO_VERSION__''
       then Some (ident ''SCO'')
     else if defined m ''__ARMCC_VERSION'' \<and> \<not> defined m ''__clang__''
       then Some ((if cond_val m ''__ARMCC_VERSION'' \<ge> 1000000
          then (ident ''ARMCC'')\<lparr>MAJOR := dec m (\<lambda>v. v sdiv 1000000) ''__ARMCC_VERSION'',
            MINOR := dec m (\<lambda>v. v sdiv 10000 smod 100) ''__ARMCC_VERSION'',
            PATCH := dec m (\<lambda>v. v smod 10000) ''__ARMCC_VERSION''\<rparr>
          else (ident ''ARMCC'')\<lparr>MAJOR := dec m (\<lambda>v. v sdiv 100000) ''__ARMCC_VERSION'',
            MINOR := dec m (\<lambda>v. v sdiv 10000 smod 10) ''__ARMCC_VERSION'',
            PATCH := dec m (\<lambda>v. v smod 10000) ''__ARMCC_VERSION''\<rparr>))
     else if defined m ''__clang__'' \<and> defined m ''__apple_build_version__''
       then Some (simulate_msvc m
           ((ident ''AppleClang'')\<lparr>TWEAK := dec m (\<lambda>v. v) ''__apple_build_version__'',
            MAJOR := dec m (\<lambda>v. v) ''__clang_major__'',
            MINOR := dec m (\<lambda>v. v) ''__clang_minor__'',
            PATCH := dec m (\<lambda>v. v) ''__clang_patchlevel__''\<rparr>))
     else if defined m ''__clang__'' \<and> defined m ''__ARMCOMPILER_VERSION''
       then Some ((ident ''ARMClang'')\<lparr>MAJOR := dec m (\<lambda>v. v sdiv 1000000) ''__ARMCOMPILER_VERSION'',
            MINOR := dec m (\<lambda>v. v sdiv 10000 smod 100) ''__ARMCOMPILER_VERSION'',
            PATCH := dec m (\<lambda>v. v sdiv 100 smod 100) ''__ARMCOMPILER_VERSION'',
            INTERNAL := dec m (\<lambda>v. v) ''__ARMCOMPILER_VERSION''\<rparr>)
     else if defined m ''__clang__''
       then Some (simulate_msvc m
           ((ident ''Clang'')\<lparr>MAJOR := dec m (\<lambda>v. v) ''__clang_major__'',
            MINOR := dec m (\<lambda>v. v) ''__clang_minor__'',
            PATCH := dec m (\<lambda>v. v) ''__clang_patchlevel__''\<rparr>))
     else if defined m ''__LCC__'' \<and> (defined m ''__GNUC__'' \<or> defined m ''__GNUG__'' \<or> defined m ''__MCST__'')
       then Some (lcc_section m)
     else if (defined m ''__GNUC__'' \<or> defined m ''__GNUG__'')
       then Some ((ident ''GNU'')\<lparr>MAJOR := (if defined m ''__GNUC__'' then dec m (\<lambda>v. v) ''__GNUC__'' else dec m (\<lambda>v. v) ''__GNUG__''),
            MINOR := dec_if m ''__GNUC_MINOR__'',
            PATCH := dec_if m ''__GNUC_PATCHLEVEL__''\<rparr>)
     else if defined m ''_MSC_VER''
       then Some ((ident ''MSVC'')\<lparr>MAJOR := dec m (\<lambda>v. v sdiv 100) ''_MSC_VER'',
            MINOR := dec m (\<lambda>v. v smod 100) ''_MSC_VER'',
            PATCH := (if defined m ''_MSC_FULL_VER''
             then if cond_val m ''_MSC_VER'' \<ge> 1400 then dec m (\<lambda>v. v smod 100000) ''_MSC_FULL_VER''
                  else dec m (\<lambda>v. v smod 10000) ''_MSC_FULL_VER'' else None),
            TWEAK := dec_if m ''_MSC_BUILD''\<rparr>)
     else if defined m ''_ADI_COMPILER''
       then Some ((if defined m ''__VERSIONNUM__''
          then (ident ''ADSP'')\<lparr>MAJOR := dec m (\<lambda>v. drop_bit 24 v AND 255) ''__VERSIONNUM__'',
            MINOR := dec m (\<lambda>v. drop_bit 16 v AND 255) ''__VERSIONNUM__'',
            PATCH := dec m (\<lambda>v. drop_bit 8 v AND 255) ''__VERSIONNUM__'',
            TWEAK := dec m (\<lambda>v. v AND 255) ''__VERSIONNUM__''\<rparr>
          else ident ''ADSP''))
     else if (defined m ''__IAR_SYSTEMS_ICC__'' \<or> defined m ''__IAR_SYSTEMS_ICC'')
       then Some (iar_section m)
     else if (defined m ''__hpux'' \<or> defined m ''__hpua'')
       then Some (ident ''HP'')
     else None)"

definition compiler_of :: "macros \<Rightarrow> compiler" where
  "compiler_of m =
     (case identify_first m of
        Some c \<Rightarrow> c
      | None \<Rightarrow>
          (case identify_second m of
             Some c \<Rightarrow> c
           | None \<Rightarrow> (case identify_third m of Some c \<Rightarrow> c | None \<Rightarrow> ident [])))"

subsection \<open>Platform and architecture\<close>

definition PLATFORM_ID :: "macros \<Rightarrow> string" where
  "PLATFORM_ID m =
     (if any_defined m [''__linux'', ''__linux__'', ''linux''] then ''Linux''
      else if defined m ''__MSYS__'' then ''MSYS''
      else if defined m ''__CYGWIN__'' then ''Cygwin''
      else if defined m ''__MINGW32__'' then ''MinGW''
      else if defined m ''__APPLE__'' then ''Darwin''
      else if any_defined m [''_WIN32'', ''__WIN32__'', ''WIN32''] then ''Windows''
      else if any_defined m [''__FreeBSD__'', ''__FreeBSD''] then ''FreeBSD''
      else if any_defined m [''__NetBSD__'', ''__NetBSD''] then ''NetBSD''
      else if any_defined m [''__OpenBSD__'', ''__OPENBSD''] then ''OpenBSD''
      else if any_defined m [''__sun'', ''sun''] then ''SunOS''
      else if any_defined m [''_AIX'', ''__AIX'', ''__AIX__'', ''__aix'', ''__aix__''] then ''AIX''
      else if any_defined m [''__hpux'', ''__hpux__''] then ''HP-UX''
      else if defined m ''__HAIKU__'' then ''Haiku''
      else if any_defined m [''__BeOS'', ''__BEOS__'', ''_BEOS''] then ''BeOS''
      else if any_defined m [''__QNX__'', ''__QNXNTO__''] then ''QNX''
      else if any_defined m [''__tru64'', ''_tru64'', ''__TRU64__''] then ''Tru64''
      else if any_defined m [''__riscos'', ''__riscos__''] then ''RISCos''
      else if any_defined m [''__sinix'', ''__sinix__'', ''__SINIX__''] then ''SINIX''
      else if defined m ''__UNIX_SV__'' then ''UNIX_SV''
      else if defined m ''__bsdos__'' then ''BSDOS''
      else if any_defined m [''_MPRAS'', ''MPRAS''] then ''MP-RAS''
      else if any_defined m [''__osf'', ''__osf__''] then ''OSF1''
      else if any_defined m [''_SCO_SV'', ''SCO_SV'', ''sco_sv''] then ''SCO_SV''
      else if any_defined m [''__ultrix'', ''__ultrix__'', ''_ULTRIX''] then ''ULTRIX''
      else if any_defined m [''__XENIX__'', ''_XENIX'', ''XENIX''] then ''Xenix''
      else if defined m ''__WATCOMC__'' then (if defined m ''__LINUX__'' then ''Linux''
        else if defined m ''__DOS__'' then ''DOS''
        else if defined m ''__OS2__'' then ''OS2''
        else if defined m ''__WINDOWS__'' then ''Windows3x''
        else if defined m ''__VXWORKS__'' then ''VxWorks''
        else [])
      else if defined m ''__INTEGRITY'' then (if defined m ''INT_178B'' then ''Integrity178''
        else ''Integrity'')
      else if defined m ''_ADI_COMPILER'' then ''ADSP''
      else [])"

definition stringify :: "macros \<Rightarrow> string \<Rightarrow> string" where
  "stringify m x = (case m x of Some (Num n) \<Rightarrow> to_string (nat n) | Some (Str s) \<Rightarrow> s | None \<Rightarrow> x)"

definition ARCHITECTURE_ID :: "macros \<Rightarrow> string" where
  "ARCHITECTURE_ID m =
     (if defined m ''_WIN32'' \<and> defined m ''_MSC_VER'' then (if defined m ''_M_IA64'' then ''IA64''
        else if defined m ''_M_ARM64EC'' then ''ARM64EC''
        else if any_defined m [''_M_X64'', ''_M_AMD64''] then ''x64''
        else if defined m ''_M_IX86'' then ''X86''
        else if defined m ''_M_ARM64'' then ''ARM64''
        else if defined m ''_M_ARM'' then (if cond_val m ''_M_ARM'' = 4 then ''ARMV4I''
          else if cond_val m ''_M_ARM'' = 5 then ''ARMV5I''
          else ''ARMV'' @ stringify m ''_M_ARM'')
        else if defined m ''_M_MIPS'' then ''MIPS''
        else if defined m ''_M_SH'' then ''SHx''
        else [])
      else if defined m ''__WATCOMC__'' then (if defined m ''_M_I86'' then ''I86''
        else if defined m ''_M_IX86'' then ''X86''
        else [])
      else if any_defined m [''__IAR_SYSTEMS_ICC__'', ''__IAR_SYSTEMS_ICC''] then (if defined m ''__ICCARM__'' then ''ARM''
        else if defined m ''__ICCRX__'' then ''RX''
        else if defined m ''__ICCRH850__'' then ''RH850''
        else if defined m ''__ICCRL78__'' then ''RL78''
        else if defined m ''__ICCRISCV__'' then ''RISCV''
        else if defined m ''__ICCAVR__'' then ''AVR''
        else if defined m ''__ICC430__'' then ''MSP430''
        else if defined m ''__ICCV850__'' then ''V850''
        else if defined m ''__ICC8051__'' then ''8051''
        else if defined m ''__ICCSTM8__'' then ''STM8''
        else [])
      else if defined m ''__ghs__'' then (if defined m ''__PPC64__'' then ''PPC64''
        else if defined m ''__ppc__'' then ''PPC''
        else if defined m ''__ARM__'' then ''ARM''
        else if defined m ''__x86_64__'' then ''x64''
        else if defined m ''__i386__'' then ''X86''
        else [])
      else if defined m ''__TI_COMPILER_VERSION__'' then (if defined m ''__TI_ARM__'' then ''ARM''
        else if defined m ''__MSP430__'' then ''MSP430''
        else if defined m ''__TMS320C28XX__'' then ''TMS320C28x''
        else if any_defined m [''__TMS320C6X__'', ''_TMS320C6X''] then ''TMS320C6x''
        else [])
      else if defined m ''__ADSPSHARC__'' then ''SHARC''
      else if defined m ''__ADSPBLACKFIN__'' then ''Blackfin''
      else if defined m ''__TASKING__'' then (if any_defined m [''__CTC__'', ''__CPTC__''] then ''TriCore''
        else if defined m ''__CMCS__'' then ''MCS''
        else if defined m ''__CARM__'' then ''ARM''
        else if defined m ''__CARC__'' then ''ARC''
        else if defined m ''__C51__'' then ''8051''
        else if defined m ''__CPCP__'' then ''PCP''
        else [])
      else [])"

subsection \<open>Language standard\<close>

definition CXX_STD :: "macros \<Rightarrow> int" where
  "CXX_STD m =
     (if defined m ''__INTEL_COMPILER'' \<and> defined m ''_MSVC_LANG'' \<and> cond_val m ''_MSVC_LANG'' < 201403
      then if defined m ''__INTEL_CXX11_MODE__''
           then if defined m ''__cpp_aggregate_nsdmi'' then 201402 else 201103
           else 199711
      else if defined m ''_MSC_VER'' \<and> defined m ''_MSVC_LANG'' then cond_val m ''_MSVC_LANG''
      else cond_val m ''__cplusplus'')"

definition standard_default :: "macros \<Rightarrow> string" where
  "standard_default m =
     (if CXX_STD m > 202002 then ''23''
      else if CXX_STD m > 201703 then ''20''
      else if CXX_STD m \<ge> 201703 then ''17''
      else if CXX_STD m \<ge> 201402 then ''14''
      else if CXX_STD m \<ge> 201103 then ''11''
      else ''98'')"

definition extensions_default :: "macros \<Rightarrow> string" where
  "extensions_default m =
     (if any_defined m [''__clang__'', ''__GNUC__'', ''__xlC__'', ''__TI_COMPILER_VERSION__''] \<and>
         \<not> defined m ''__STRICT_ANSI__''
      then ''ON'' else ''OFF'')"

subsection \<open>The strings\<close>

text \<open>A string in brackets after its key; it fails when one of its pieces does.\<close>

definition info :: "string \<Rightarrow> string option list \<Rightarrow> string option" where
  "info key pieces = map_option (\<lambda>ps. ''INFO:'' @ key @ ''['' @ concat ps @ '']'') (those pieces)"

definition dotted :: "lit \<Rightarrow> string option list \<Rightarrow> string option list" where
  "dotted l rest = (case l of None \<Rightarrow> [] | Some p \<Rightarrow> Some ''.'' # p # rest)"

definition info_compiler :: "compiler \<Rightarrow> string option" where
  "info_compiler c = info ''compiler'' [Some (COMPILER_ID c)]"

definition info_simulate :: "compiler \<Rightarrow> lit" where
  "info_simulate c = map_option (\<lambda>s. info ''simulate'' [Some s]) (SIMULATE_ID c)"

definition info_version :: "compiler \<Rightarrow> lit" where
  "info_version c =
     (case VERSION c of
        Some v \<Rightarrow> Some (info ''compiler_version'' [v])
      | None \<Rightarrow> map_option (\<lambda>v. info ''compiler_version''
          (v # dotted (MINOR c) (dotted (PATCH c) (dotted (TWEAK c) [])))) (MAJOR c))"

definition info_version_internal :: "compiler \<Rightarrow> lit" where
  "info_version_internal c =
     (case INTERNAL c of
        Some v \<Rightarrow> Some (info ''compiler_version_internal'' [v])
      | None \<Rightarrow> map_option (\<lambda>v. info ''compiler_version_internal'' [v]) (INTERNAL_STR c))"

definition info_simulate_version :: "compiler \<Rightarrow> lit" where
  "info_simulate_version c =
     map_option (\<lambda>v. info ''simulate_version'' (v # dotted (SIM_MINOR c) (dotted (SIM_PATCH c) [])))
       (SIM_MAJOR c)"

definition info_platform :: "macros \<Rightarrow> string option" where
  "info_platform m = info ''platform'' [Some (PLATFORM_ID m)]"

definition info_arch :: "macros \<Rightarrow> string option" where
  "info_arch m = info ''arch'' [Some (ARCHITECTURE_ID m)]"

definition info_language_standard_default :: "macros \<Rightarrow> string option" where
  "info_language_standard_default m = info ''standard_default'' [Some (standard_default m)]"

definition info_language_extensions_default :: "macros \<Rightarrow> string option" where
  "info_language_extensions_default m = info ''extensions_default'' [Some (extensions_default m)]"

definition info_cray :: "macros \<Rightarrow> lit" where
  "info_cray m =
     (if defined m ''__CRAYXT_COMPUTE_LINUX_TARGET''
      then Some (Some ''INFO:compiler_wrapper[CrayPrgEnv]'') else None)"

subsection \<open>The program\<close>

text \<open>Every declaration of the translation unit has to be well formed.\<close>

definition declared :: "lit \<Rightarrow> string option list" where
  "declared l = (case l of None \<Rightarrow> [] | Some s \<Rightarrow> [s])"

definition well_formed :: "compiler \<Rightarrow> bool" where
  "well_formed c \<longleftrightarrow>
     None \<notin> set (declared (info_version c) @ declared (info_version_internal c) @
       declared (info_simulate_version c))"

definition compiles :: "macros \<Rightarrow> bool" where
  "compiles m \<longleftrightarrow> defined m ''__cplusplus'' \<and> well_formed (compiler_of m)"

text \<open>The strings that \<open>main\<close> indexes, in its order; \<open>std\<close> is that of the language standard.\<close>

definition required_strings :: "compiler \<Rightarrow> macros \<Rightarrow> string option \<Rightarrow> string option list" where
  "required_strings c m std =
     [info_compiler c, info_platform m, info_arch m] @
     (if MAJOR c \<noteq> None then declared (info_version c) else []) @
     (if INTERNAL c \<noteq> None then declared (info_version_internal c) else []) @
     declared (info_simulate c) @ declared (info_simulate_version c) @ declared (info_cray m) @
     [std, info_language_extensions_default m]"

definition main_strings :: "macros \<Rightarrow> string option list" where
  "main_strings m = required_strings (compiler_of m) m (info_language_standard_default m)"

datatype main_result = DoesNotCompile | OutOfBounds | Returns int

text \<open>A \<open>char\<close> is signed; index \<open>length s\<close> is the terminating zero.\<close>

definition char_value :: "char \<Rightarrow> int" where
  "char_value ch = (if 128 \<le> (of_char ch :: int) then of_char ch - 256 else of_char ch)"

definition char_at :: "string \<Rightarrow> nat \<Rightarrow> int option" where
  "char_at s i =
     (if i < length s then Some (char_value (s ! i)) else if i = length s then Some 0 else None)"

fun require_sum :: "nat \<Rightarrow> int \<Rightarrow> string option list \<Rightarrow> main_result" where
  "require_sum argc require [] = Returns require"
| "require_sum argc require (None # ss) = DoesNotCompile"
| "require_sum argc require (Some s # ss) =
     (case char_at s argc of
        None \<Rightarrow> OutOfBounds
      | Some v \<Rightarrow> require_sum argc (require + v) ss)"

definition id_main :: "macros \<Rightarrow> nat \<Rightarrow> main_result" where
  "id_main m argc =
     (if compiles m then require_sum argc 0 (main_strings m) else DoesNotCompile)"

subsection \<open>Specification\<close>

text \<open>Reading digits back, and the numbers between the brackets of a version string.\<close>

fun read_base :: "int \<Rightarrow> int \<Rightarrow> string \<Rightarrow> int" where
  "read_base b acc [] = acc"
| "read_base b acc (ch # cs) = read_base b (b * acc + (of_char ch - 48)) cs"

fun split_dots :: "string \<Rightarrow> string list" where
  "split_dots [] = [[]]"
| "split_dots (ch # cs) =
     (if ch = CHR ''.'' then [] # split_dots cs
      else case split_dots cs of [] \<Rightarrow> [[ch]] | w # ws \<Rightarrow> (ch # w) # ws)"

definition read_version :: "string \<Rightarrow> int list" where
  "read_version s =
     map (read_base 10 0) (split_dots (takeWhile (\<lambda>ch. ch \<noteq> CHR '']'') (tl (dropWhile (\<lambda>ch. ch \<noteq> CHR ''['') s))))"

text \<open>The macros that a branch before that of GNU tests.\<close>

definition other_compilers :: "string list" where
  "other_compilers =
     [''__COMO__'', ''__INTEL_COMPILER'', ''__ICC'', ''__clang__'', ''__INTEL_LLVM_COMPILER'', ''__PATHCC__'',
      ''__BORLANDC__'', ''__WATCOMC__'', ''__SUNPRO_CC'', ''__HP_aCC'', ''__DECCXX'', ''__IBMCPP__'',
      ''__NVCOMPILER'', ''__PGI'', ''_CRAYC'', ''__TI_COMPILER_VERSION__'', ''__CLANG_FUJITSU'', ''__FUJITSU'',
      ''__ghs__'', ''__TASKING__'', ''__ORANGEC__'', ''__SCO_VERSION__'', ''__ARMCC_VERSION'', ''__LCC__'']"

subsection \<open>Digits read back\<close>

lemma digit_code: "0 \<le> v \<Longrightarrow> v < 16 \<Longrightarrow> of_char (digit v) = 48 + v"
  by (simp add: digit_def)

lemma signed_nonneg:
  fixes n k :: int
  assumes "0 \<le> n" and "0 < k"
  shows "n sdiv k = n div k" and "n smod k = n mod k"
  using assms by (cases "n = 0"; simp add: signed_divide_int_def signed_modulo_int_def)+

lemma nibble: "(n::int) AND 15 = n mod 16"
  using take_bit_eq_mask [of 4 n] by (simp add: take_bit_eq_mod mask_eq_exp_minus_1)

text \<open>One digit of a positional numeral.\<close>

lemma position:
  fixes n b k :: int
  assumes "0 < b"
  shows "b * (n div (k * b)) + n div k mod b = n div k"
  using assms zdiv_zmult2_eq [of b n k] by simp

lemma digit_of_mod: "b \<in> {10, 16} \<Longrightarrow> of_char (digit (x mod b)) = 48 + x mod b"
  by (rule digit_code) (auto intro: less_trans [OF pos_mod_bound])

lemma DEC_nonneg:
  assumes "0 \<le> n"
  shows "DEC n = [digit (n div 10000000 mod 10), digit (n div 1000000 mod 10), digit (n div 100000 mod 10),
    digit (n div 10000 mod 10), digit (n div 1000 mod 10), digit (n div 100 mod 10), digit (n div 10 mod 10),
    digit (n mod 10)]"
  using assms by (simp add: DEC_def signed_nonneg pos_imp_zdiv_nonneg_iff)

lemma read_DEC:
  assumes "0 \<le> n" and "n < 10 ^ 8"
  shows "read_base 10 0 (DEC n) = n"
proof -
  have "n div 10000000 < 10" "0 \<le> n div 10000000"
    using assms by (simp_all add: pos_imp_zdiv_nonneg_iff)
  then have top: "n div 10000000 mod 10 = n div 10000000" by simp
  note p = position [of 10 n, simplified]
  note ps = top p [of 1000000, simplified] p [of 100000, simplified] p [of 10000, simplified]
    p [of 1000, simplified] p [of 100, simplified] p [of 10, simplified] p [of 1, simplified]
  have "read_base 10 0 (DEC n) =
    10 * (10 * (10 * (10 * (10 * (10 * (10 * (n div 10000000 mod 10) + n div 1000000 mod 10) +
      n div 100000 mod 10) + n div 10000 mod 10) + n div 1000 mod 10) + n div 100 mod 10) +
      n div 10 mod 10) + n mod 10"
    unfolding DEC_nonneg [OF assms(1)] by (simp only: read_base.simps digit_of_mod insertI1) simp
  also have "\<dots> = n" by (simp only: ps mult_div_mod_eq)
  finally show ?thesis .
qed

lemma read_HEX:
  assumes "0 \<le> n" and "n < 2 ^ 32"
  shows "read_base 16 0 (HEX n) = n"
proof -
  have "n div 268435456 < 16" "0 \<le> n div 268435456"
    using assms by (simp_all add: pos_imp_zdiv_nonneg_iff)
  then have top: "n div 268435456 mod 16 = n div 268435456" by simp
  note p = position [of 16 n, simplified]
  note ps = top p [of 16777216, simplified] p [of 1048576, simplified] p [of 65536, simplified]
    p [of 4096, simplified] p [of 256, simplified] p [of 16, simplified] p [of 1, simplified]
  have hex: "HEX n = [digit (n div 268435456 mod 16), digit (n div 16777216 mod 16), digit (n div 1048576 mod 16),
    digit (n div 65536 mod 16), digit (n div 4096 mod 16), digit (n div 256 mod 16), digit (n div 16 mod 16),
    digit (n mod 16)]"
    by (simp add: HEX_def nibble drop_bit_eq_div)
  have "read_base 16 0 (HEX n) =
    16 * (16 * (16 * (16 * (16 * (16 * (16 * (n div 268435456 mod 16) + n div 16777216 mod 16) +
      n div 1048576 mod 16) + n div 65536 mod 16) + n div 4096 mod 16) + n div 256 mod 16) +
      n div 16 mod 16) + n mod 16"
    unfolding hex by (simp only: read_base.simps digit_of_mod insertI1 insertI2) simp
  also have "\<dots> = n" by (simp only: ps mult_div_mod_eq)
  finally show ?thesis .
qed

lemma DEC_plain:
  assumes "0 \<le> n"
  shows "list_all (\<lambda>ch. ch \<noteq> CHR ''.'' \<and> ch \<noteq> CHR '']'') (DEC n)"
proof -
  have "digit (x mod 10) \<noteq> CHR ''.'' \<and> digit (x mod 10) \<noteq> CHR '']''" for x
  proof -
    have "of_char (digit (x mod 10)) = 48 + x mod 10" by (rule digit_of_mod) simp
    moreover have "x mod 10 < 10" "0 \<le> x mod 10" by simp_all
    ultimately have "48 \<le> (of_char (digit (x mod 10)) :: int)" "(of_char (digit (x mod 10)) :: int) < 58"
      by simp_all
    then show ?thesis by auto
  qed
  with assms show ?thesis by (simp add: DEC_nonneg)
qed

lemma split_dots_plain:
  "list_all (\<lambda>ch. ch \<noteq> CHR ''.'' \<and> P ch) xs \<Longrightarrow> split_dots (xs @ CHR ''.'' # ys) = xs # split_dots ys"
  "list_all (\<lambda>ch. ch \<noteq> CHR ''.'' \<and> P ch) xs \<Longrightarrow> split_dots xs = [xs]"
  by (induction xs) simp_all

lemma takeWhile_bracket:
  "list_all (\<lambda>ch. Q ch \<and> ch \<noteq> CHR '']'') xs \<Longrightarrow>
   takeWhile (\<lambda>ch. ch \<noteq> CHR '']'') (xs @ ys) = xs @ takeWhile (\<lambda>ch. ch \<noteq> CHR '']'') ys"
  by (induction xs) simp_all

lemma read_version_three:
  assumes "\<forall>n \<in> {a, b, c}. 0 \<le> n \<and> n < 10 ^ 8"
  shows "read_version (''INFO:compiler_version['' @ DEC a @ ''.'' @ DEC b @ ''.'' @ DEC c @ '']'') = [a, b, c]"
  using assms read_DEC [of a] read_DEC [of b] read_DEC [of c]
  by (simp add: read_version_def takeWhile_bracket [OF DEC_plain] split_dots_plain [OF DEC_plain])

subsection \<open>Bounds of the strings\<close>

lemma info_length: "info key ps = Some s \<Longrightarrow> 7 + length key \<le> length s"
  by (auto simp: info_def)

lemma require_sum_in_bounds:
  "\<forall>o' \<in> set ss. \<exists>s. o' = Some s \<and> argc \<le> length s \<Longrightarrow> \<exists>r. require_sum argc require ss = Returns r"
  by (induction ss arbitrary: require) (auto simp: char_at_def)

lemma declared_iff [simp]: "x \<in> set (declared l) \<longleftrightarrow> l = Some x"
  by (cases l) (auto simp: declared_def)

lemmas info_string_defs = info_compiler_def info_simulate_def info_version_def info_version_internal_def
  info_simulate_version_def info_platform_def info_arch_def info_language_standard_default_def
  info_language_extensions_default_def info_cray_def

lemma info_string_lengths:
  "info_version c = Some (Some s) \<Longrightarrow> 11 \<le> length s"
  "info_version_internal c = Some (Some s) \<Longrightarrow> 11 \<le> length s"
  "info_simulate_version c = Some (Some s) \<Longrightarrow> 11 \<le> length s"
  by (auto simp: info_string_defs split: option.splits dest!: info_length)

lemma required_string_length:
  assumes x: "x \<in> set (required_strings c m std)" and c: "well_formed c"
    and std: "\<exists>s. std = Some s \<and> 11 \<le> length s"
  shows "\<exists>s. x = Some s \<and> 11 \<le> length s"
proof -
  have some: "\<exists>s. x = Some s"
    if "info_version c = Some x \<or> info_version_internal c = Some x \<or> info_simulate_version c = Some x"
    using that c by (cases x) (auto simp: well_formed_def)
  consider "x \<in> {info_compiler c, info_platform m, info_arch m, info_language_extensions_default m}"
    | "x = std" | "info_simulate c = Some x" | "info_cray m = Some x"
    | "info_version c = Some x \<or> info_version_internal c = Some x \<or> info_simulate_version c = Some x"
    using x by (auto simp: required_strings_def split: if_splits)
  then show ?thesis
  proof cases
    case 2
    with std show ?thesis by simp
  next
    case 5
    with some obtain s where "x = Some s" by blast
    with 5 info_string_lengths show ?thesis by blast
  qed (auto simp: info_string_defs info_def split: if_splits)
qed

lemma required_in_bounds:
  assumes "well_formed c" and "\<exists>s. std = Some s \<and> 11 \<le> length s" and "argc \<le> 11"
  shows "\<exists>r. require_sum argc 0 (required_strings c m std) = Returns r"
  using required_string_length [OF _ assms(1,2)] assms(3)
  by (intro require_sum_in_bounds) (meson order_trans)

lemma required_out_of_bounds:
  assumes "ARCHITECTURE_ID m = []" and "11 < argc"
  shows "require_sum argc 0 (required_strings c m std) = OutOfBounds"
  using assms by (auto simp: required_strings_def info_compiler_def info_platform_def info_arch_def
      info_def char_at_def split: option.splits)

text \<open>The chain names no compiler that defines \<open>__clang__\<close> as GNU or MSVC.\<close>

lemma clang_identity:
  assumes "defined m ''__clang__''"
  shows "COMPILER_ID (compiler_of m) \<notin> {''GNU'', ''MSVC'', ''LCC'', []}"
  using assms
  by (simp add: compiler_of_def identify_first_def identify_second_def identify_third_def ident_def
      intel_section_def intel_llvm_section_def simulate_msvc_gnu_def simulate_msvc_def fujitsu_section_def Let_def)

lemma gnu_compiler:
  assumes "\<forall>x \<in> set other_compilers. \<not> defined m x" and "defined m ''__GNUC__''"
  shows "compiler_of m = (ident ''GNU'')\<lparr>MAJOR := dec m (\<lambda>v. v) ''__GNUC__'',
     MINOR := dec_if m ''__GNUC_MINOR__'', PATCH := dec_if m ''__GNUC_PATCHLEVEL__''\<rparr>"
  using assms
  by (simp add: other_compilers_def compiler_of_def identify_first_def identify_second_def identify_third_def)

subsection \<open>Properties\<close>

text \<open>Under a compiler that predefines GNU's version macros, and none of the macros by which an
  earlier branch knows another compiler, the identity is GNU and the version string reads back
  as the three numbers, for all numbers of up to eight digits. A compiler that defines
  \<open>__clang__\<close> as well, as Clang does in imitation of GNU, is never taken for GNU.\<close>

theorem gnu_version_roundtrip:
  assumes "m ''__GNUC__'' = Some (Num a)" and "m ''__GNUC_MINOR__'' = Some (Num b)"
    and "m ''__GNUC_PATCHLEVEL__'' = Some (Num c)" and "\<forall>n \<in> {a, b, c}. 0 \<le> n \<and> n < 10 ^ 8"
  shows "((\<forall>x \<in> set other_compilers. \<not> defined m x) \<longrightarrow>
       COMPILER_ID (compiler_of m) = ''GNU'' \<and>
       (\<exists>s. info_version (compiler_of m) = Some (Some s) \<and> read_version s = [a, b, c])) \<and>
     (defined m ''__clang__'' \<longrightarrow> COMPILER_ID (compiler_of m) \<noteq> ''GNU'')"
proof (intro conjI impI)
  assume "\<forall>x \<in> set other_compilers. \<not> defined m x"
  moreover have "defined m ''__GNUC__''" using assms(1) by (simp add: defined_def)
  ultimately have c: "compiler_of m = (ident ''GNU'')\<lparr>MAJOR := dec m (\<lambda>v. v) ''__GNUC__'',
     MINOR := dec_if m ''__GNUC_MINOR__'', PATCH := dec_if m ''__GNUC_PATCHLEVEL__''\<rparr>"
    by (rule gnu_compiler)
  then show "COMPILER_ID (compiler_of m) = ''GNU''" by (simp add: ident_def)
  have "info_version (compiler_of m) =
      Some (Some (''INFO:compiler_version['' @ DEC a @ ''.'' @ DEC b @ ''.'' @ DEC c @ '']''))"
    using assms(1-3) by (simp add: c ident_def info_version_def info_def dotted_def dec_def dec_if_def
        num_def defined_def)
  with read_version_three [OF assms(4)]
  show "\<exists>s. info_version (compiler_of m) = Some (Some s) \<and> read_version s = [a, b, c]" by blast
next
  assume "defined m ''__clang__''"
  from clang_identity [OF this] show "COMPILER_ID (compiler_of m) \<noteq> ''GNU''" by simp
qed

theorem gnu_version_roundtrip_witness:
  "\<exists>s. info_version (compiler_of
       [''__GNUC__'' \<mapsto> Num 13, ''__GNUC_MINOR__'' \<mapsto> Num 3, ''__GNUC_PATCHLEVEL__'' \<mapsto> Num 0]) = Some (Some s) \<and>
     read_version s = [13, 3, 0]"
proof -
  let ?m = "[''__GNUC__'' \<mapsto> Num 13, ''__GNUC_MINOR__'' \<mapsto> Num 3, ''__GNUC_PATCHLEVEL__'' \<mapsto> Num 0]"
  have "\<forall>x \<in> set other_compilers. \<not> defined ?m x" by (simp add: other_compilers_def defined_def)
  with gnu_version_roundtrip [of ?m 13 3 0] show ?thesis by simp
qed

text \<open>The digit macros are inverse to reading: eight decimal digits for every number below
  \<open>10 ^ 8\<close>, eight hexadecimal ones for every number below \<open>2 ^ 32\<close>.\<close>

theorem digits_roundtrip:
  assumes "0 \<le> n"
  shows "(n < 10 ^ 8 \<longrightarrow> read_base 10 0 (DEC n) = n \<and> length (DEC n) = 8) \<and>
     (n < 2 ^ 32 \<longrightarrow> read_base 16 0 (HEX n) = n \<and> length (HEX n) = 8)"
  using read_DEC [OF assms] read_HEX [OF assms] by (simp add: DEC_def HEX_def)

theorem digits_roundtrip_witness:
  "read_base 10 0 (DEC 12345678) = 12345678 \<and> read_base 16 0 (HEX 4277009102) = 4277009102"
  using digits_roundtrip [of 12345678] digits_roundtrip [of 4277009102] by simp

text \<open>Whatever macros the compiler predefines, the identification program either does not
  translate, or \<open>main\<close> returns for every argument count up to 11. The bound is exact: where no
  architecture is known, as on every platform but Windows with the usual compilers, a call with
  twelve or more arguments reads behind the string.\<close>

theorem id_main_in_bounds:
  assumes "compiles m"
  shows "(argc \<le> 11 \<longrightarrow> (\<exists>r. id_main m argc = Returns r)) \<and>
     (ARCHITECTURE_ID m = [] \<longrightarrow> 11 < argc \<longrightarrow> id_main m argc = OutOfBounds)"
proof (intro conjI impI)
  have "\<exists>s. info_language_standard_default m = Some s \<and> 11 \<le> length s"
    by (auto simp: info_string_defs info_def)
  with required_in_bounds [of "compiler_of m"] assms show "\<exists>r. id_main m argc = Returns r" if "argc \<le> 11"
    using that by (simp add: id_main_def main_strings_def compiles_def)
  show "id_main m argc = OutOfBounds" if "ARCHITECTURE_ID m = []" and "11 < argc"
    using required_out_of_bounds [OF that] assms by (simp add: id_main_def main_strings_def)
qed

theorem id_main_in_bounds_witness:
  "(\<exists>r. id_main [''__cplusplus'' \<mapsto> Num 201703, ''__linux__'' \<mapsto> Num 1] 1 = Returns r) \<and>
   id_main [''__cplusplus'' \<mapsto> Num 201703, ''__linux__'' \<mapsto> Num 1] 12 = OutOfBounds"
proof -
  let ?m = "[''__cplusplus'' \<mapsto> Num 201703, ''__linux__'' \<mapsto> Num 1]"
  have "compiler_of ?m = ident []"
    by (simp add: compiler_of_def identify_first_def identify_second_def identify_third_def defined_def)
  then have "compiles ?m"
    by (simp add: compiles_def well_formed_def ident_def info_string_defs declared_def defined_def)
  moreover have "ARCHITECTURE_ID ?m = []" by (simp add: ARCHITECTURE_ID_def defined_def any_defined_def)
  ultimately show ?thesis using id_main_in_bounds [of ?m 1] id_main_in_bounds [of ?m 12] by simp
qed

end
