(* ===== verification/Compiler_Id_C.thy ===== *)
theory Compiler_Id_C
  imports Compiler_Id
begin

text \<open>
  The compiler identification source for C, \<open>build/CMakeFiles/3.28.3/CompilerIdC/CMakeCCompilerId.c\<close>.
  It shares its macros, its strings and most of its text with the C++ source of \<open>Compiler_Id\<close>; its
  own are the chain of identification, which knows other compilers under other names, the language
  standard, and a \<open>main\<close> that may have no body. The two chains are shown to agree.
\<close>

unbundle bit_operations_syntax

subsection \<open>The compiler\<close>

definition sdcc_section :: "macros \<Rightarrow> compiler" where
  "sdcc_section m =
     (if defined m ''__SDCC_VERSION_MAJOR''
      then (ident ''SDCC'')\<lparr>MAJOR := dec m (\<lambda>v. v) ''__SDCC_VERSION_MAJOR'',
        MINOR := dec m (\<lambda>v. v) ''__SDCC_VERSION_MINOR'', PATCH := dec m (\<lambda>v. v) ''__SDCC_VERSION_PATCH''\<rparr>
      else (ident ''SDCC'')\<lparr>MAJOR := dec m (\<lambda>v. v sdiv 100) ''SDCC'',
        MINOR := dec m (\<lambda>v. v sdiv 10 smod 10) ''SDCC'', PATCH := dec m (\<lambda>v. v smod 10) ''SDCC''\<rparr>)"

definition c_identify_first :: "macros \<Rightarrow> compiler option" where
  "c_identify_first m =
     (if defined m ''__INTEL_COMPILER'' \<or> defined m ''__ICC''
       then Some (intel_section m)
     else if (defined m ''__clang__'' \<and> defined m ''__INTEL_CLANG_COMPILER'') \<or> defined m ''__INTEL_LLVM_COMPILER''
       then Some (intel_llvm_section m)
     else if defined m ''__PATHCC__''
       then Some ((ident ''PathScale'')\<lparr>MAJOR := dec m (\<lambda>v. v) ''__PATHCC__'',
            MINOR := dec m (\<lambda>v. v) ''__PATHCC_MINOR__'',
            PATCH := dec_if m ''__PATHCC_PATCHLEVEL__''\<rparr>)
     else if defined m ''__BORLANDC__'' \<and> defined m ''__CODEGEARC_VERSION__''
       then Some ((ident ''Embarcadero'')\<lparr>MAJOR := hex m (\<lambda>v. drop_bit 24 v AND 255) ''__CODEGEARC_VERSION__'',
            MINOR := hex m (\<lambda>v. drop_bit 16 v AND 255) ''__CODEGEARC_VERSION__'',
            PATCH := dec m (\<lambda>v. v AND 65535) ''__CODEGEARC_VERSION__''\<rparr>)
     else if defined m ''__BORLANDC__''
       then Some ((ident ''Borland'')\<lparr>MAJOR := hex m (\<lambda>v. drop_bit 8 v) ''__BORLANDC__'',
            MINOR := hex m (\<lambda>v. v AND 255) ''__BORLANDC__''\<rparr>)
     else if defined m ''__WATCOMC__'' \<and> cond_val m ''__WATCOMC__'' < 1200
       then Some ((ident ''Watcom'')\<lparr>MAJOR := dec m (\<lambda>v. v sdiv 100) ''__WATCOMC__'',
            MINOR := dec m (\<lambda>v. v sdiv 10 smod 10) ''__WATCOMC__'',
            PATCH := (if cond_val m ''__WATCOMC__'' smod 10 > 0 then dec m (\<lambda>v. v smod 10) ''__WATCOMC__'' else None)\<rparr>)
     else if defined m ''__WATCOMC__''
       then Some ((ident ''OpenWatcom'')\<lparr>MAJOR := dec m (\<lambda>v. (v - 1100) sdiv 100) ''__WATCOMC__'',
            MINOR := dec m (\<lambda>v. v sdiv 10 smod 10) ''__WATCOMC__'',
            PATCH := (if cond_val m ''__WATCOMC__'' smod 10 > 0 then dec m (\<lambda>v. v smod 10) ''__WATCOMC__'' else None)\<rparr>)
     else if defined m ''__SUNPRO_C''
       then Some ((if cond_val m ''__SUNPRO_C'' \<ge> 20736
          then (ident ''SunPro'')\<lparr>MAJOR := hex m (\<lambda>v. drop_bit 12 v) ''__SUNPRO_C'',
            MINOR := hex m (\<lambda>v. drop_bit 4 v AND 255) ''__SUNPRO_C'',
            PATCH := hex m (\<lambda>v. v AND 15) ''__SUNPRO_C''\<rparr>
          else (ident ''SunPro'')\<lparr>MAJOR := hex m (\<lambda>v. drop_bit 8 v) ''__SUNPRO_C'',
            MINOR := hex m (\<lambda>v. drop_bit 4 v AND 15) ''__SUNPRO_C'',
            PATCH := hex m (\<lambda>v. v AND 15) ''__SUNPRO_C''\<rparr>))
     else if defined m ''__HP_cc''
       then Some ((ident ''HP'')\<lparr>MAJOR := dec m (\<lambda>v. v sdiv 10000) ''__HP_cc'',
            MINOR := dec m (\<lambda>v. v sdiv 100 smod 100) ''__HP_cc'',
            PATCH := dec m (\<lambda>v. v smod 100) ''__HP_cc''\<rparr>)
     else None)"

definition c_identify_second :: "macros \<Rightarrow> compiler option" where
  "c_identify_second m =
     (if defined m ''__DECC''
       then Some ((ident ''Compaq'')\<lparr>MAJOR := dec m (\<lambda>v. v sdiv 10000000) ''__DECC_VER'',
            MINOR := dec m (\<lambda>v. v sdiv 100000 smod 100) ''__DECC_VER'',
            PATCH := dec m (\<lambda>v. v smod 10000) ''__DECC_VER''\<rparr>)
     else if defined m ''__IBMC__'' \<and> defined m ''__COMPILER_VER__''
       then Some ((ident ''zOS'')\<lparr>MAJOR := dec m (\<lambda>v. v sdiv 100) ''__IBMC__'',
            MINOR := dec m (\<lambda>v. v sdiv 10 smod 10) ''__IBMC__'',
            PATCH := dec m (\<lambda>v. v smod 10) ''__IBMC__''\<rparr>)
     else if defined m ''__open_xl__'' \<and> defined m ''__clang__''
       then Some ((ident ''IBMClang'')\<lparr>TWEAK := dec m (\<lambda>v. v) ''__open_xl_ptf_fix_level__'',
            MAJOR := dec m (\<lambda>v. v) ''__open_xl_version__'',
            MINOR := dec m (\<lambda>v. v) ''__open_xl_release__'',
            PATCH := dec m (\<lambda>v. v) ''__open_xl_modification__''\<rparr>)
     else if defined m ''__ibmxl__'' \<and> defined m ''__clang__''
       then Some ((ident ''XLClang'')\<lparr>TWEAK := dec m (\<lambda>v. v) ''__ibmxl_ptf_fix_level__'',
            MAJOR := dec m (\<lambda>v. v) ''__ibmxl_version__'',
            MINOR := dec m (\<lambda>v. v) ''__ibmxl_release__'',
            PATCH := dec m (\<lambda>v. v) ''__ibmxl_modification__''\<rparr>)
     else if defined m ''__IBMC__'' \<and> \<not> defined m ''__COMPILER_VER__'' \<and> cond_val m ''__IBMC__'' \<ge> 800
       then Some ((ident ''XL'')\<lparr>MAJOR := dec m (\<lambda>v. v sdiv 100) ''__IBMC__'',
            MINOR := dec m (\<lambda>v. v sdiv 10 smod 10) ''__IBMC__'',
            PATCH := dec m (\<lambda>v. v smod 10) ''__IBMC__''\<rparr>)
     else if defined m ''__IBMC__'' \<and> \<not> defined m ''__COMPILER_VER__'' \<and> cond_val m ''__IBMC__'' < 800
       then Some ((ident ''VisualAge'')\<lparr>MAJOR := dec m (\<lambda>v. v sdiv 100) ''__IBMC__'',
            MINOR := dec m (\<lambda>v. v sdiv 10 smod 10) ''__IBMC__'',
            PATCH := dec m (\<lambda>v. v smod 10) ''__IBMC__''\<rparr>)
     else if defined m ''__NVCOMPILER''
       then Some ((ident ''NVHPC'')\<lparr>MAJOR := dec m (\<lambda>v. v) ''__NVCOMPILER_MAJOR__'',
            MINOR := dec m (\<lambda>v. v) ''__NVCOMPILER_MINOR__'',
            PATCH := dec_if m ''__NVCOMPILER_PATCHLEVEL__''\<rparr>)
     else if defined m ''__PGI''
       then Some ((ident ''PGI'')\<lparr>MAJOR := dec m (\<lambda>v. v) ''__PGIC__'',
            MINOR := dec m (\<lambda>v. v) ''__PGIC_MINOR__'',
            PATCH := dec_if m ''__PGIC_PATCHLEVEL__''\<rparr>)
     else if defined m ''__clang__'' \<and> defined m ''__cray__''
       then Some ((ident ''CrayClang'')\<lparr>INTERNAL_STR := str m ''__clang_version__'',
            MAJOR := dec m (\<lambda>v. v) ''__cray_major__'',
            MINOR := dec m (\<lambda>v. v) ''__cray_minor__'',
            PATCH := dec m (\<lambda>v. v) ''__cray_patchlevel__''\<rparr>)
     else if defined m ''_CRAYC''
       then Some ((ident ''Cray'')\<lparr>MAJOR := dec m (\<lambda>v. v) ''_RELEASE_MAJOR'',
            MINOR := dec m (\<lambda>v. v) ''_RELEASE_MINOR''\<rparr>)
     else if defined m ''__TI_COMPILER_VERSION__''
       then Some ((ident ''TI'')\<lparr>MAJOR := dec m (\<lambda>v. v sdiv 1000000) ''__TI_COMPILER_VERSION__'',
            MINOR := dec m (\<lambda>v. v sdiv 1000 smod 1000) ''__TI_COMPILER_VERSION__'',
            PATCH := dec m (\<lambda>v. v smod 1000) ''__TI_COMPILER_VERSION__''\<rparr>)
     else if defined m ''__CLANG_FUJITSU''
       then Some ((ident ''FujitsuClang'')\<lparr>INTERNAL_STR := str m ''__clang_version__'',
            MAJOR := dec m (\<lambda>v. v) ''__FCC_major__'',
            MINOR := dec m (\<lambda>v. v) ''__FCC_minor__'',
            PATCH := dec m (\<lambda>v. v) ''__FCC_patchlevel__''\<rparr>)
     else if defined m ''__FUJITSU''
       then Some (fujitsu_section m)
     else if defined m ''__ghs__''
       then Some ((if defined m ''__GHS_VERSION_NUMBER''
          then (ident ''GHS'')\<lparr>MAJOR := dec m (\<lambda>v. v sdiv 100) ''__GHS_VERSION_NUMBER'',
            MINOR := dec m (\<lambda>v. v sdiv 10 smod 10) ''__GHS_VERSION_NUMBER'',
            PATCH := dec m (\<lambda>v. v smod 10) ''__GHS_VERSION_NUMBER''\<rparr>
          else ident ''GHS''))
     else if defined m ''__TASKING__''
       then Some ((ident ''Tasking'')\<lparr>MAJOR := dec m (\<lambda>v. v sdiv 1000) ''__VERSION__'',
            MINOR := dec m (\<lambda>v. v smod 100) ''__VERSION__'',
            INTERNAL := dec m (\<lambda>v. v) ''__VERSION__''\<rparr>)
     else if defined m ''__ORANGEC__''
       then Some ((ident ''OrangeC'')\<lparr>MAJOR := dec m (\<lambda>v. v) ''__ORANGEC_MAJOR__'',
            MINOR := dec m (\<lambda>v. v) ''__ORANGEC_MINOR__'',
            PATCH := dec m (\<lambda>v. v) ''__ORANGEC_PATCHLEVEL__''\<rparr>)
     else if defined m ''__TINYC__''
       then Some (ident ''TinyCC'')
     else if defined m ''__BCC__''
       then Some (ident ''Bruce'')
     else None)"

definition c_identify_third :: "macros \<Rightarrow> compiler option" where
  "c_identify_third m =
     (if defined m ''__SCO_VERSION__''
       then Some (ident ''SCO'')
     else if defined m ''__ARMCC_VERSION'' \<and> \<not> defined m ''__clang__''
       then Some ((if cond_val m ''__ARMCC_VERSION'' \<ge> 1000000
          then (ident ''ARMCC'')\<lparr>MAJOR := dec m (\<lambda>v. v sdiv 1000000) ''__ARMCC_VERSION'',
            MINOR := dec m (\<lambda>v. v sdiv 10000 smod 100) ''__ARMCC_VERSION'',
            PATCH := dec m (\<lambda>v. v smod 10000) ''__ARMCC_VERSION''\<rparr>
          else (ident ''ARMCC'')\<lparr>MAJOR := dec m (\<lambda>v. v sdiv 100000) ''__ARMCC_VERSION'',
            MINOR := dec m (\<lambda>v. v sdiv 10000 smod 10) ''__ARMCC_VERSION'',
            PATCH := dec m (\<lambda>v. v smod 10000) ''__ARMCC_VERSION''\<rparr>))
     else if defined m ''__clang__'' \<and> defined m ''__apple_build_version__''
       then Some (simulate_msvc m
           ((ident ''AppleClang'')\<lparr>TWEAK := dec m (\<lambda>v. v) ''__apple_build_version__'',
            MAJOR := dec m (\<lambda>v. v) ''__clang_major__'',
            MINOR := dec m (\<lambda>v. v) ''__clang_minor__'',
            PATCH := dec m (\<lambda>v. v) ''__clang_patchlevel__''\<rparr>))
     else if defined m ''__clang__'' \<and> defined m ''__ARMCOMPILER_VERSION''
       then Some ((ident ''ARMClang'')\<lparr>MAJOR := dec m (\<lambda>v. v sdiv 1000000) ''__ARMCOMPILER_VERSION'',
            MINOR := dec m (\<lambda>v. v sdiv 10000 smod 100) ''__ARMCOMPILER_VERSION'',
            PATCH := dec m (\<lambda>v. v sdiv 100 smod 100) ''__ARMCOMPILER_VERSION'',
            INTERNAL := dec m (\<lambda>v. v) ''__ARMCOMPILER_VERSION''\<rparr>)
     else if defined m ''__clang__''
       then Some (simulate_msvc m
           ((ident ''Clang'')\<lparr>MAJOR := dec m (\<lambda>v. v) ''__clang_major__'',
            MINOR := dec m (\<lambda>v. v) ''__clang_minor__'',
            PATCH := dec m (\<lambda>v. v) ''__clang_patchlevel__''\<rparr>))
     else if defined m ''__LCC__'' \<and> (defined m ''__GNUC__'' \<or> defined m ''__GNUG__'' \<or> defined m ''__MCST__'')
       then Some (lcc_section m)
     else if defined m ''__GNUC__''
       then Some ((ident ''GNU'')\<lparr>MAJOR := dec m (\<lambda>v. v) ''__GNUC__'',
            MINOR := dec_if m ''__GNUC_MINOR__'',
            PATCH := dec_if m ''__GNUC_PATCHLEVEL__''\<rparr>)
     else if defined m ''_MSC_VER''
       then Some ((ident ''MSVC'')\<lparr>MAJOR := dec m (\<lambda>v. v sdiv 100) ''_MSC_VER'',
            MINOR := dec m (\<lambda>v. v smod 100) ''_MSC_VER'',
            PATCH := (if defined m ''_MSC_FULL_VER''
             then if cond_val m ''_MSC_VER'' \<ge> 1400 then dec m (\<lambda>v. v smod 100000) ''_MSC_FULL_VER''
                  else dec m (\<lambda>v. v smod 10000) ''_MSC_FULL_VER'' else None),
            TWEAK := dec_if m ''_MSC_BUILD''\<rparr>)
     else if defined m ''_ADI_COMPILER''
       then Some ((if defined m ''__VERSIONNUM__''
          then (ident ''ADSP'')\<lparr>MAJOR := dec m (\<lambda>v. drop_bit 24 v AND 255) ''__VERSIONNUM__'',
            MINOR := dec m (\<lambda>v. drop_bit 16 v AND 255) ''__VERSIONNUM__'',
            PATCH := dec m (\<lambda>v. drop_bit 8 v AND 255) ''__VERSIONNUM__'',
            TWEAK := dec m (\<lambda>v. v AND 255) ''__VERSIONNUM__''\<rparr>
          else ident ''ADSP''))
     else if (defined m ''__IAR_SYSTEMS_ICC__'' \<or> defined m ''__IAR_SYSTEMS_ICC'')
       then Some (iar_section m)
     else if defined m ''__SDCC_VERSION_MAJOR'' \<or> defined m ''SDCC''
       then Some (sdcc_section m)
     else if (defined m ''__hpux'' \<or> defined m ''__hpua'')
       then Some (ident ''HP'')
     else None)"

definition c_compiler_of :: "macros \<Rightarrow> compiler" where
  "c_compiler_of m =
     (case c_identify_first m of
        Some c \<Rightarrow> c
      | None \<Rightarrow>
          (case c_identify_second m of
             Some c \<Rightarrow> c
           | None \<Rightarrow> (case c_identify_third m of Some c \<Rightarrow> c | None \<Rightarrow> ident [])))"

subsection \<open>Language standard\<close>

definition C_VERSION :: "macros \<Rightarrow> string" where
  "C_VERSION m =
     (if \<not> defined m ''__STDC__'' \<and> \<not> defined m ''__clang__''
      then if defined m ''_MSC_VER'' \<or> defined m ''__ibmxl__'' \<or> defined m ''__IBMC__'' then ''90'' else []
      else if cond_val m ''__STDC_VERSION__'' > 201710 then ''23''
      else if cond_val m ''__STDC_VERSION__'' \<ge> 201710 then ''17''
      else if cond_val m ''__STDC_VERSION__'' \<ge> 201000 then ''11''
      else if cond_val m ''__STDC_VERSION__'' \<ge> 199901 then ''99''
      else ''90'')"

definition c_info_language_standard_default :: "macros \<Rightarrow> string option" where
  "c_info_language_standard_default m = info ''standard_default'' [Some (C_VERSION m)]"

subsection \<open>The program\<close>

definition c_compiles :: "macros \<Rightarrow> bool" where
  "c_compiles m \<longleftrightarrow> \<not> defined m ''__cplusplus'' \<and> well_formed (c_compiler_of m)"

definition ID_VOID_MAIN :: "macros \<Rightarrow> bool" where
  "ID_VOID_MAIN m \<longleftrightarrow> defined m ''__18CXX''"

text \<open>\<open>void main() {}\<close> returns no value.\<close>

definition c_main :: "macros \<Rightarrow> nat \<Rightarrow> main_result option" where
  "c_main m argc =
     (if \<not> c_compiles m then Some DoesNotCompile
      else if ID_VOID_MAIN m then None
      else Some (require_sum argc 0
        (required_strings (c_compiler_of m) m (c_info_language_standard_default m))))"

subsection \<open>Specification\<close>

text \<open>The macros of a C compiler under the names that its C++ compiler gives them.\<close>

definition as_cxx :: "macros \<Rightarrow> macros" where
  "as_cxx m = m(''__SUNPRO_CC'' := m ''__SUNPRO_C'', ''__HP_aCC'' := m ''__HP_cc'', ''__DECCXX'' := m ''__DECC'',
     ''__DECCXX_VER'' := m ''__DECC_VER'', ''__IBMCPP__'' := m ''__IBMC__'')"

text \<open>Macros of compilers that only one of the two sources knows.\<close>

definition one_language :: "string list" where
  "one_language = [''__COMO__'', ''__GNUG__'', ''__TINYC__'', ''__BCC__'', ''__SDCC_VERSION_MAJOR'', ''SDCC'']"

definition renamed :: "string list" where
  "renamed = [''__SUNPRO_CC'', ''__HP_aCC'', ''__DECCXX'', ''__DECCXX_VER'', ''__IBMCPP__'']"

subsection \<open>Agreement\<close>

lemma as_cxx_same:
  assumes "x \<notin> set renamed"
  shows "as_cxx m x = m x" "defined (as_cxx m) x = defined m x" "cond_val (as_cxx m) x = cond_val m x"
    "dec (as_cxx m) f x = dec m f x" "hex (as_cxx m) f x = hex m f x" "str (as_cxx m) x = str m x"
    "dec_if (as_cxx m) x = dec_if m x"
proof -
  show eq: "as_cxx m x = m x" using assms by (auto simp: as_cxx_def renamed_def)
  show "defined (as_cxx m) x = defined m x" "cond_val (as_cxx m) x = cond_val m x"
    "dec (as_cxx m) f x = dec m f x" "hex (as_cxx m) f x = hex m f x" "str (as_cxx m) x = str m x"
    "dec_if (as_cxx m) x = dec_if m x"
    by (simp_all add: defined_def cond_val_def dec_def hex_def str_def dec_if_def num_def eq)
qed

lemma as_cxx_renamed:
  assumes "(x, y) \<in> set (zip renamed [''__SUNPRO_C'', ''__HP_cc'', ''__DECC'', ''__DECC_VER'', ''__IBMC__''])"
  shows "defined (as_cxx m) x = defined m y" "cond_val (as_cxx m) x = cond_val m y"
    "dec (as_cxx m) f x = dec m f y" "hex (as_cxx m) f x = hex m f y"
proof -
  have eq: "as_cxx m x = m y" using assms by (auto simp: as_cxx_def renamed_def)
  show "defined (as_cxx m) x = defined m y" "cond_val (as_cxx m) x = cond_val m y"
    "dec (as_cxx m) f x = dec m f y" "hex (as_cxx m) f x = hex m f y"
    by (simp_all add: defined_def cond_val_def dec_def hex_def num_def eq)
qed

lemmas as_cxx_names =
  as_cxx_renamed [of "''__SUNPRO_CC''" "''__SUNPRO_C''"] as_cxx_renamed [of "''__HP_aCC''" "''__HP_cc''"]
  as_cxx_renamed [of "''__DECCXX''" "''__DECC''"] as_cxx_renamed [of "''__DECCXX_VER''" "''__DECC_VER''"]
  as_cxx_renamed [of "''__IBMCPP__''" "''__IBMC__''"]

lemma sections_agree:
  "simulate_msvc_gnu (as_cxx m) c = simulate_msvc_gnu m c" "simulate_msvc (as_cxx m) c = simulate_msvc m c"
  "intel_section (as_cxx m) = intel_section m" "intel_llvm_section (as_cxx m) = intel_llvm_section m"
  "fujitsu_section (as_cxx m) = fujitsu_section m" "lcc_section (as_cxx m) = lcc_section m"
  "iar_section (as_cxx m) = iar_section m"
  by (simp_all add: simulate_msvc_gnu_def simulate_msvc_def intel_section_def intel_llvm_section_def
      fujitsu_section_def lcc_section_def iar_section_def any_defined_def as_cxx_same renamed_def Let_def
      cong del: if_weak_cong split del: if_split)

lemma first_agrees:
  assumes "\<not> defined m ''__COMO__''"
  shows "c_identify_first m = identify_first (as_cxx m)"
  using assms
  by (simp add: c_identify_first_def identify_first_def sections_agree as_cxx_same as_cxx_names renamed_def
      cong del: if_weak_cong split del: if_split)

lemma second_agrees:
  assumes "\<not> defined m ''__TINYC__''" and "\<not> defined m ''__BCC__''"
  shows "c_identify_second m = identify_second (as_cxx m)"
  using assms
  by (simp add: c_identify_second_def identify_second_def sections_agree as_cxx_same as_cxx_names renamed_def
      cong del: if_weak_cong split del: if_split)

lemma third_agrees:
  assumes "\<not> defined m ''__GNUG__''" and "\<not> defined m ''__SDCC_VERSION_MAJOR''" and "\<not> defined m ''SDCC''"
  shows "c_identify_third m = identify_third (as_cxx m)"
  using assms
  by (simp add: c_identify_third_def identify_third_def sections_agree as_cxx_same renamed_def
      cong: if_cong split del: if_split)

subsection \<open>Properties\<close>

text \<open>C40: the sources for C and for C++ identify the same compiler, with the same version and the
  same simulated compiler, from macros that differ only in five names,
  unless the compiler is one that only one of the two sources knows.\<close>

theorem c_and_cxx_identify_alike:
  assumes "\<forall>x \<in> set one_language. \<not> defined m x"
  shows "c_compiler_of m = compiler_of (as_cxx m)"
proof -
  have absent: "\<not> defined m ''__COMO__''" "\<not> defined m ''__GNUG__''" "\<not> defined m ''__TINYC__''"
    "\<not> defined m ''__BCC__''" "\<not> defined m ''__SDCC_VERSION_MAJOR''" "\<not> defined m ''SDCC''"
    using assms by (simp_all add: one_language_def)
  show ?thesis
    unfolding c_compiler_of_def compiler_of_def first_agrees [OF absent(1)] second_agrees [OF absent(3,4)]
      third_agrees [OF absent(2,5,6)] ..
qed

theorem c_and_cxx_identify_alike_witness:
  "COMPILER_ID (c_compiler_of [''__SUNPRO_C'' \<mapsto> Num 20800]) = ''SunPro'' \<and>
   c_compiler_of [''__SUNPRO_C'' \<mapsto> Num 20800] = compiler_of (as_cxx [''__SUNPRO_C'' \<mapsto> Num 20800])"
proof -
  have "\<forall>x \<in> set one_language. \<not> defined [''__SUNPRO_C'' \<mapsto> Num 20800] x"
    by (simp add: one_language_def defined_def)
  note alike = c_and_cxx_identify_alike [OF this]
  have "COMPILER_ID (c_compiler_of [''__SUNPRO_C'' \<mapsto> Num 20800]) = ''SunPro''"
    by (simp add: c_compiler_of_def c_identify_first_def defined_def cond_val_def ident_def)
  with alike show ?thesis by simp
qed

text \<open>The \<open>main\<close> of the C source stays inside its strings under the same bound as that of
  the C++ source: with up to 11 arguments it returns, whatever the macros, unless the compiler
  is one of those for which it has no body.\<close>

theorem c_main_in_bounds:
  assumes "c_compiles m" and "argc \<le> 11"
  shows "if ID_VOID_MAIN m then c_main m argc = None else \<exists>r. c_main m argc = Some (Returns r)"
proof -
  have "\<exists>s. c_info_language_standard_default m = Some s \<and> 11 \<le> length s"
    by (auto simp: c_info_language_standard_default_def info_def)
  with assms have "\<exists>r. require_sum argc 0
      (required_strings (c_compiler_of m) m (c_info_language_standard_default m)) = Returns r"
    by (intro required_in_bounds) (simp_all add: c_compiles_def)
  with assms(1) show ?thesis by (simp add: c_main_def)
qed

theorem c_main_in_bounds_witness:
  "\<exists>r. c_main [''__STDC__'' \<mapsto> Num 1] 3 = Some (Returns r)"
proof -
  have "c_compiler_of [''__STDC__'' \<mapsto> Num 1] = ident []"
    by (simp add: c_compiler_of_def c_identify_first_def c_identify_second_def c_identify_third_def defined_def)
  then have "c_compiles [''__STDC__'' \<mapsto> Num 1]"
    by (simp add: c_compiles_def well_formed_def ident_def info_string_defs declared_def defined_def)
  from c_main_in_bounds [OF this, of 3] show ?thesis by (simp add: ID_VOID_MAIN_def defined_def)
qed

end
