(* ===== verification/Spec2Isabelle.thy ===== *)
theory Spec2Isabelle
  imports Queue_Mutexes Executor_Destroy Executor_Races Client_Server Server_Main Compiler_Id_C
begin

text \<open>
  A verification development for TinyReactor, a distributed task runner in C++.

  \<^bold>\<open>The program.\<close> A client builds a \<open>Task\<close> (\<open>src/common/include/task.hpp\<close>), converts it to a
  protocol-buffer message (\<open>src/common/src/utils.cpp\<close>) and sends it through the asynchronous
  \<open>GrpcClient\<close> (\<open>src/common/src/grpc_client.cpp\<close>). The \<open>AsyncServer\<close> (\<open>src/api-server\<close>) receives
  it in one of its call contexts and answers. A worker hands tasks to the \<open>TaskExecutor\<close>
  (\<open>src/worker/task-executor\<close>), which runs the registered function on the \<open>ThreadPool\<close>
  (\<open>src/common/src/thread_pool.cpp\<close>), with a timeout timer and a bounded number of delayed
  retries. Beside it stand a lock-free queue (\<open>mpmc_queue.hpp\<close>) and the hazard pointers
  (\<open>hazard_pointer.hpp\<close>) it reclaims its nodes with.

  \<^bold>\<open>The theories.\<close>

  \<^item> \<open>Prelude\<close>: thread identifiers, addresses and word types; the exception sum; reachable
    states \<open>reach\<close> of a step relation; the locale \<open>invariant_system\<close>, the contract of an
    inductive invariant, which each machine below interprets on its own step relation; the locale
    \<open>simulation\<close>, the contract of a forward simulation between two machines.

  \<^item> \<open>Hazard_Pointer\<close> models \<open>hazard_pointer.hpp\<close>, one definition per member function. The list of
    slots is a store from addresses to \<open>HazardPointer\<close> records linked by \<open>next_slot\<close>; walks over
    it are \<open>partial_function (option)\<close>, so that termination is a theorem. A mutex is its owner;
    locking one that the caller holds is the error \<open>SelfDeadlock\<close>. The lemmas show that slots are
    handed out exclusively, that a scan deletes exactly the retired pointers no slot publishes,
    that no retirement is deleted twice in any run, and exactly when retiring deadlocks.

  \<^item> \<open>MPMC_Queue\<close> models \<open>mpmc_queue.hpp\<close>: one step per atomic access of \<open>enqueue\<close>, \<open>dequeue\<close> and
    \<open>Scan\<close>, for any number of threads, with spurious failures of weak compare-exchange.
    \<open>MPMC_Linear\<close> proves the refinement to a sequential FIFO queue at the linearisation points,
    \<open>MPMC_Reclaim\<close> that dequeues never read a deleted node as long as a holder gets its slot in
    one step, that enqueues can, and that the destructor deletes the remaining nodes once each.
    \<open>MPMC_Progress\<close> proves that the loops are obstruction free: scheduled alone in any reachable
    state they end, an enqueue from every statement of its loop at which it is not about to read a
    deleted node, a dequeue from the head of its loop (a successful one at the retirement of the
    node, which may wait for a mutex), and do to the contents what the sequential operation does.
    \<open>MPMC_Acquire\<close> unfolds
    \<open>acquire\<close> into its statements. Linearizability carries over; memory safety carries over, by a
    simulation, to the runs in which no scan enters the slot list between the two stores that link
    a new slot, and fails in others, since \<open>isProtected\<close> walks the list without its mutex.
    \<open>Queue_Mutexes\<close> shows what the mutexes of the domain do protect: the sections they guard are
    exclusive, and from outside nobody changes the global retired list or the links of the slots.

  \<^item> \<open>Thread_Pool\<close> models the pool: workers, callers of \<open>enqueue\<close> and the destructor are vectors of
    program counters over the shared counters, the semaphore and the queue. Counters are 64-bit
    words. A call of \<open>remove_threads\<close> is a load and a later store. The lemmas account for permits and
    for \<open>leftover_\<close>, show that tasks are taken once and in order and that the pool keeps its target
    size while nobody adds threads and the removals do not overlap, and exhibit the runs in which
    it does not or in which the semaphore or the destruction order leads to undefined behaviour.

  \<^item> \<open>Task_Model\<close> models \<open>task.hpp\<close>, the messages of \<open>task.proto\<close> and \<open>utils.cpp\<close>: the JSON form, the
    conversion to messages and back, and what they keep.

  \<^item> \<open>Task_Executor\<close> models \<open>run_task\<close> statement by statement for any number of running tasks,
    interleaved with clock ticks and the callbacks of the two timers: bounds on attempts and on
    pending retries, when a task's state is final, the two races in which it is overwritten, the
    64-bit arithmetic of the remaining time, and every outcome of the built-in \<open>fib\<close> against the
    cancellation flag that its loop polls. \<open>Executor_Races\<close> gives each step of this machine the
    plain members it accesses, shows that a step changes only what it is said to write, which data
    races the executor has and that it has no others; and it shows what the state of a task tells
    about its activity, so that no task is left \<open>PENDING\<close> or \<open>RUNNING\<close> with nothing working on it.

  \<^item> \<open>Executor_Pool\<close> composes the executor with its pool: \<open>execute_task\<close> is a call of \<open>enqueue\<close> by a
    client or by the event loop, and a worker that popped a closure runs \<open>run_task\<close>. Two
    simulations project the composition to the executor over the collection of closures on
    their way and to the pool; through them no task is lost or started twice, and no more
    activations are unfinished than there are workers. \<open>Executor_Destroy\<close> adds the defaulted
    destructor, which runs beside the event loop: when it is harmless, and the runs in which
    pending timers find the executor gone or an accepted task is dropped.

  \<^item> \<open>Grpc_Client\<close> models the four tag state machines, the completion loop and the calls, the
    blocking ones included. The
    locales \<open>async_tag\<close> and \<open>promise_tag\<close> state what the completion loop relies on; every tag
    interprets them.

  \<^item> \<open>Api_Server\<close> models the call contexts, start-up, completion loop and shutdown of the server,
    the reading of the port and the logging flags. \<open>Server_Main\<close> models \<open>main.cpp\<close>: start-up,
    the waiting loop and the shutdown, with the completion threads and the handlers of the two
    signals, which run on any thread and interrupt each other; the orderly shutdown needs a
    successful start and signals on the waiting main thread that do not hit the handler's join, and
    the runs in which they do are exhibited.

  \<^item> \<open>Client_Server\<close> puts any number of blocking submissions and the server on one channel, which may
    fail a call at any time: a submission that returns gives back its own caller's task as the
    message conversions leave it, it can return whenever a context of the server waits, and a
    server that has lost its contexts answers nobody. A simulation projects the session to the
    server of \<open>Api_Server\<close>, whose lemmas it uses.

  \<^item> \<open>Compiler_Id\<close> models the compiler-identification program that CMake leaves in the tree
    (\<open>src/CMakeFiles/3.28.3/CompilerIdCXX/CMakeCXXCompilerId.cpp\<close>): the preprocessor conditionals
    as functions of the predefined macros, the strings they build and \<open>main\<close>. \<open>Compiler_Id_C\<close>
    models the one for C (\<open>build/CMakeFiles/3.28.3/CompilerIdC/CMakeCCompilerId.c\<close>) over the
    shared parts and shows that both identify compilers alike.

  \<^bold>\<open>State and effects.\<close> Each class is a record with the members of the source; threads and pending
  operations are explicit vectors or sets of program points, so that interleaving is a sequence
  of steps. Undefined behaviour, exceptions and deadlocks are values of the model. Fields that the
  source does not have (the record of deleted pointers, of taken tasks, of served requests, of
  attempts) only log what the steps do and are never read by them; \<open>known\<close>, the tasks that were
  submitted, is read only where a client submits, as the assumption that it hands over each task
  object once.

  \<^bold>\<open>Assumptions.\<close> Memory is sequentially consistent: the memory orders of the source are not
  modelled. Data races on plain members have no effect in the models; \<open>Executor_Races\<close> tells where
  the executor has them, and in the hazard-pointer domain \<open>isProtected\<close> reads \<open>head_\<close> and \<open>next_\<close>, and
  \<open>Scan\<close> the registry and the lists of other threads, without the mutex of their writers. The
  allocator does not hand out the address of a deleted node again while the queue lives. Registered
  functions do not write the task they are given. Tasks and registered functions are opaque and may
  end in every way the language has. Libraries are parameters: the lock-free queue of the pool
  (\<open>lf_ops\<close> with \<open>lf_laws\<close>, a FIFO contract in which a push may fail), JSON (\<open>json_api\<close> with
  \<open>json_laws\<close>, \<open>items_laws\<close> and \<open>build_laws\<close>) and the protocol-buffer structs (\<open>struct_api\<close> with
  \<open>struct_laws\<close>); every property that assumes such laws has a witness with concrete functions.
  The maximum of the pool's semaphore is a parameter, since the standard fixes only that it is at
  least 1. The gRPC and asio runtimes are environments: each started operation completes at most
  once with any result, a timer fires at any time after its deadline. In
  \<open>Task_Executor\<close> the pool is the collection of the closures handed to it; \<open>Executor_Pool\<close> shows
  that this is what the pool does.

  \<^bold>\<open>Fuel.\<close> Only \<open>JsonToStruct\<close> and \<open>StructToJson\<close>, recursive over values of a library, take fuel;
  \<open>struct_conversions_total\<close> shows that any fuel above the nesting depth of the value is enough.

  \<^bold>\<open>Not modelled.\<close> The scheduler, the storage back ends, the resource reporter, the configuration
  and the request handlers are empty files. The output of the log is left out. The copy of
  the C++ compiler-identification program under \<open>build/\<close> is the file that \<open>Compiler_Id\<close> models,
  byte for byte.

  \<^bold>\<open>Open ends.\<close> The memory orders of the queue and of the hazard pointers: their release and acquire
  pairs would need a weak memory model.
\<close>

end
